(* ===== verification/Prelude.thy ===== *)
theory Prelude
  imports Complex_Main "HOL-Library.Word" "HOL-Library.AList" "HOL-Library.Multiset"
begin

unbundle bit_operations_syntax

section \<open>Shared types, outcomes and lemmas\<close>

text \<open>
  What every component of the task engine uses: the machine integers (\<open>size_t\<close> and
  \<open>uint64_t\<close> are 64-bit words), clock values, exceptions as data, the outcome of a call
  that may throw, block or be undefined, \<open>std::any\<close>, and the lemmas on words, lists and
  association lists that several theories need.

  Clock readings (\<open>std::chrono::steady_clock::now()\<close>) are integers in nanoseconds and are
  always inputs of the operations that read the clock. An \<open>std::unordered_map\<close> that the
  code iterates over is an association list: its order stands for the unspecified iteration
  order, so no theorem may depend on how a new key is placed.
\<close>

type_synonym size_t = "64 word"
type_synonym u64 = "64 word"
type_synonym task_id = u64
type_synonym time = int
type_synonym task_ptr = nat

datatype any = AnyEmpty | AnyInt int | AnyString string

datatype exn =
    RuntimeError string
  | InvalidArgument string
  | FutureError string
  | OutOfRange
  | UserException nat

text \<open>
  The outcome of a call: it returns, it throws, it cannot proceed yet (a spin or a wait whose
  exit condition does not hold in the current state), or the behaviour is undefined.
\<close>

datatype 'a outcome = Return 'a | Throw exn | Block | Undefined

subsection \<open>Words\<close>

lemma nat_and_pred_zero_pow2:
  "0 < (n::nat) \<Longrightarrow> n AND (n - 1) = 0 \<Longrightarrow> \<exists>k. n = 2 ^ k"
proof (induction n rule: less_induct)
  case (less n)
  show ?case
  proof (cases "even n")
    case True
    then obtain m where m: "n = 2 * m" by blast
    with less.prems have pos: "0 < m" by simp
    then have pred: "n - 1 = 2 * (m - 1) + 1" using m by simp
    have "n AND (n - 1) = 2 * (m AND (m - 1))"
      unfolding pred unfolding m by (subst and_rec) simp
    with less.prems have "m AND (m - 1) = 0" by simp
    with less.IH [of m] pos m obtain k where "m = 2 ^ k" by auto
    with m have "n = 2 ^ Suc k" by simp
    then show ?thesis by blast
  next
    case False
    then obtain m where m: "n = 2 * m + 1" by (blast elim: oddE)
    have "n AND (n - 1) = 2 * (m AND m)"
      unfolding m by (subst and_rec) simp
    with less.prems m have "n = 2 ^ 0" by simp
    then show ?thesis by blast
  qed
qed

lemma nat_pow2_and_pred: "(2::nat) ^ k AND (2 ^ k - 1) = 0"
proof -
  have "(2::nat) ^ k AND (2 ^ k - 1) = take_bit k (2 ^ k)"
    by (simp add: take_bit_eq_mask mask_eq_exp_minus_1)
  then show ?thesis by simp
qed

lemma unat_and_pred:
  "c \<noteq> 0 \<Longrightarrow> unat (c AND (c - 1)) = unat c AND (unat c - 1)" for c :: "'a::len word"
  by (simp add: unsigned_and_eq unat_minus_one)

lemma word_pow2_iff:
  fixes c :: "'a::len word"
  assumes "c \<noteq> 0"
  shows "c AND (c - 1) = 0 \<longleftrightarrow> (\<exists>k. unat c = 2 ^ k)"
proof
  assume "c AND (c - 1) = 0"
  then have "unat c AND (unat c - 1) = 0"
    using unat_and_pred [OF assms] by simp
  with assms show "\<exists>k. unat c = 2 ^ k"
    by (intro nat_and_pred_zero_pow2) (simp_all add: unat_gt_0)
next
  assume "\<exists>k. unat c = 2 ^ k"
  then have "unat (c AND (c - 1)) = 0"
    using unat_and_pred [OF assms] nat_pow2_and_pred by auto
  then show "c AND (c - 1) = 0" by (simp add: unat_eq_zero)
qed

text \<open>Masking with \<open>capacity - 1\<close> is reduction modulo the capacity.\<close>

lemma unat_and_mask_mod:
  fixes c x :: "'a::len word"
  assumes "c \<noteq> 0" and "c AND (c - 1) = 0"
  shows "unat (x AND (c - 1)) = unat x mod unat c"
proof -
  obtain k where k: "unat c = 2 ^ k"
    using word_pow2_iff [OF assms(1)] assms(2) by blast
  have "unat (x AND (c - 1)) = unat x AND (2 ^ k - 1)"
    using assms(1) by (simp add: unsigned_and_eq unat_minus_one k)
  also have "\<dots> = take_bit k (unat x)"
    by (simp add: take_bit_eq_mask mask_eq_exp_minus_1)
  finally show ?thesis by (simp add: take_bit_eq_mod k)
qed

lemma unat_succ_mask_mod:
  fixes c x :: "'a::len word"
  assumes "c \<noteq> 0" and "c AND (c - 1) = 0" and "unat x < unat c"
  shows "unat ((x + 1) AND (c - 1)) = Suc (unat x) mod unat c"
proof (cases "x + 1 = 0")
  case True
  then have "x = - 1" by (simp add: eq_neg_iff_add_eq_0)
  then have "Suc (unat x) = 2 ^ LENGTH('a)"
    by (simp add: unsigned_minus_1_eq_mask mask_eq_exp_minus_1)
  moreover obtain k where k: "unat c = 2 ^ k"
    using word_pow2_iff [OF assms(1)] assms(2) by blast
  moreover have "unat c < 2 ^ LENGTH('a)" by (rule unsigned_less)
  ultimately have "unat c dvd Suc (unat x)"
    by (simp add: le_imp_power_dvd)
  with True show ?thesis by simp
next
  case False
  then have "unat (x + 1) = Suc (unat x)"
    by (simp add: Word.unatSuc add.commute)
  with unat_and_mask_mod [OF assms(1,2), of "x + 1"] show ?thesis by simp
qed

lemma unat_inject: "unat a = unat b \<longleftrightarrow> a = b" for a b :: "'a::len word"
  by (simp add: unsigned_word_eqI word_unat_eq_iff)

lemma uint_of_int64: "0 \<le> x \<Longrightarrow> x < 2 ^ 64 \<Longrightarrow> uint (word_of_int x :: 64 word) = x"
  by (simp add: uint_word_of_int)

lemma uint_pred:
  fixes w :: "'a::len word"
  assumes "0 < w"
  shows "uint (w - 1) = uint w - 1"
proof -
  have "w \<noteq> 0" using assms by auto
  then have "unat (w - 1) = unat w - 1" "0 < unat w"
    using unat_minus_one [of w] unat_gt_0 [of w] by blast+
  then have "int (unat (w - 1)) = int (unat w) - 1" by linarith
  then show ?thesis by simp
qed

subsection \<open>Association lists as unordered maps\<close>

lemma map_of_update: "map_of (AList.update k v al) = (map_of al)(k \<mapsto> v)"
  by (rule update_conv')

lemma map_of_delete: "map_of (AList.delete k al) = (map_of al)(k := None)"
  by (rule delete_conv')

lemma distinct_map_fst_update:
  "distinct (map fst al) \<Longrightarrow> distinct (map fst (AList.update k v al))"
  by (rule distinct_update)

lemma distinct_map_fst_delete:
  "distinct (map fst al) \<Longrightarrow> distinct (map fst (AList.delete k al))"
  by (rule distinct_delete)

subsection \<open>Decimal numerals\<close>

text \<open>\<open>std::to_string\<close> of an unsigned integer, and stream output of one.\<close>

definition newline :: char where "newline = CHR 0x0A"

definition digit_char :: "nat \<Rightarrow> char" where
  "digit_char d = char_of (48 + d)"

fun dec_string :: "nat \<Rightarrow> string" where
  "dec_string n = (if n < 10 then [digit_char n] else dec_string (n div 10) @ [digit_char (n mod 10)])"

declare dec_string.simps [simp del]

definition to_string :: "u64 \<Rightarrow> string" where
  "to_string w = dec_string (unat w)"

definition is_digit :: "char \<Rightarrow> bool" where
  "is_digit c \<longleftrightarrow> 48 \<le> (of_char c :: nat) \<and> of_char c \<le> (57 :: nat)"

definition digits_value :: "string \<Rightarrow> nat" where
  "digits_value ds = foldl (\<lambda>n d. 10 * n + (of_char d - 48)) 0 ds"

lemma of_char_digit: "d < 10 \<Longrightarrow> of_char (digit_char d) = (48 + d :: nat)"
  by (simp add: digit_char_def)

lemma digit_char_is_digit: "d < 10 \<Longrightarrow> is_digit (digit_char d)"
  by (simp add: is_digit_def of_char_digit)

lemma dec_string_digits: "\<forall>c \<in> set (dec_string n). is_digit c"
proof (induction n rule: dec_string.induct)
  case (1 n)
  then show ?case by (subst dec_string.simps) (auto intro: digit_char_is_digit)
qed

lemma dec_string_ne: "dec_string n \<noteq> []"
  by (subst dec_string.simps) simp

lemma digits_value_dec: "digits_value (dec_string n) = n"
proof (induction n rule: dec_string.induct)
  case (1 n)
  show ?case
  proof (cases "n < 10")
    case True
    then show ?thesis by (subst dec_string.simps) (simp add: digits_value_def of_char_digit)
  next
    case False
    then have "digits_value (dec_string n) =
        10 * digits_value (dec_string (n div 10)) + (of_char (digit_char (n mod 10)) - 48)"
      by (subst dec_string.simps) (simp add: digits_value_def)
    also have "\<dots> = 10 * (n div 10) + n mod 10" using 1 False by (simp add: of_char_digit)
    finally show ?thesis by simp
  qed
qed

text \<open>C++ integer division truncates towards zero; \<open>duration_cast\<close> uses it.\<close>

definition trunc_div :: "int \<Rightarrow> int \<Rightarrow> int" where
  "trunc_div n d = (let q = abs n div abs d in if (n < 0) = (d < 0) then q else - q)"

lemma trunc_div_nonneg: "0 \<le> n \<Longrightarrow> 0 < d \<Longrightarrow> trunc_div n d = n div d"
  by (simp add: trunc_div_def)

end
