(* ===== verification/Queue_Interface.thy ===== *)
theory Queue_Interface
  imports Prelude
begin

section \<open>Interfaces: bounded queues and sources of tasks\<close>

text \<open>
  Two contracts that the thread pool relies on. A bounded queue refines a list of limited length
  under enqueue and dequeue, where either operation may fail spuriously. A task source gives up
  one of its items or finds nothing; the thread pool searches lists of sources twice, once over
  the four priority queues of a set and once over the sets of the other workers, with the same
  loop. The laws are proved for the ring buffer in Task_Queue and for the priority sets in
  Thread_Pool.
\<close>

subsection \<open>The reference queue and runs of operations\<close>

datatype 'a queue_op = EnqOp bool 'a | DeqOp bool

datatype 'a queue_res = EnqRes bool | DeqRes "'a option"

fun run_queue ::
  "(bool \<Rightarrow> 'q \<Rightarrow> 'a \<Rightarrow> 'q \<times> bool) \<Rightarrow> (bool \<Rightarrow> 'q \<Rightarrow> 'q \<times> 'a option) \<Rightarrow>
   'q \<Rightarrow> 'a queue_op list \<Rightarrow> 'q \<times> 'a queue_res list" where
  "run_queue enq deq q [] = (q, [])"
| "run_queue enq deq q (EnqOp c x # ops) =
     (case enq c q x of (q', ok) \<Rightarrow>
       (case run_queue enq deq q' ops of (q'', rs) \<Rightarrow> (q'', EnqRes ok # rs)))"
| "run_queue enq deq q (DeqOp c # ops) =
     (case deq c q of (q', r) \<Rightarrow>
       (case run_queue enq deq q' ops of (q'', rs) \<Rightarrow> (q'', DeqRes r # rs)))"

definition fifo_enq :: "nat \<Rightarrow> bool \<Rightarrow> 'a list \<Rightarrow> 'a \<Rightarrow> 'a list \<times> bool" where
  "fifo_enq n c xs x = (if c \<and> length xs < n then (xs @ [x], True) else (xs, False))"

definition fifo_deq :: "bool \<Rightarrow> 'a list \<Rightarrow> 'a list \<times> 'a option" where
  "fifo_deq c xs = (case xs of [] \<Rightarrow> ([], None) | y # ys \<Rightarrow> if c then (ys, Some y) else (xs, None))"

subsection \<open>Bounded queues\<close>

locale bounded_queue =
  fixes enq :: "bool \<Rightarrow> 'q \<Rightarrow> 'a \<Rightarrow> 'q \<times> bool"
    and deq :: "bool \<Rightarrow> 'q \<Rightarrow> 'q \<times> 'a option"
    and contents :: "'q \<Rightarrow> 'a list"
    and invar :: "'q \<Rightarrow> bool"
    and bound :: "'q \<Rightarrow> nat"
  assumes enq_law: "invar q \<Longrightarrow> enq c q x = (q', ok) \<Longrightarrow>
      invar q' \<and> bound q' = bound q \<and> (ok \<longleftrightarrow> c \<and> length (contents q) < bound q) \<and>
      contents q' = contents q @ (if ok then [x] else []) \<and> (\<not> ok \<longrightarrow> q' = q)"
    and deq_law: "invar q \<Longrightarrow> deq c q = (q', r) \<Longrightarrow>
      invar q' \<and> bound q' = bound q \<and>
      (case r of None \<Rightarrow> q' = q \<and> (c \<longrightarrow> contents q = [])
               | Some x \<Rightarrow> c \<and> contents q = x # contents q')"
begin

lemma enq_refines:
  assumes "invar q" and "enq c q x = (q', ok)"
  shows "fifo_enq (bound q) c (contents q) x = (contents q', ok)"
  using enq_law [OF assms] by (auto simp: fifo_enq_def)

lemma deq_refines:
  assumes "invar q" and "deq c q = (q', r)"
  shows "fifo_deq c (contents q) = (contents q', r)"
  using deq_law [OF assms] by (auto simp: fifo_deq_def split: option.splits list.splits)

lemma run_refines:
  assumes "invar q" and "run_queue enq deq q ops = (q', rs)"
  shows "invar q' \<and> bound q' = bound q \<and>
    run_queue (fifo_enq (bound q)) fifo_deq (contents q) ops = (contents q', rs)"
  using assms
proof (induction ops arbitrary: q q' rs)
  case Nil
  then show ?case by simp
next
  case (Cons op ops)
  show ?case
  proof (cases op)
    case (EnqOp c x)
    obtain q1 ok where step: "enq c q x = (q1, ok)" by fastforce
    obtain rs1 where run: "run_queue enq deq q1 ops = (q', rs1)" "rs = EnqRes ok # rs1"
      using Cons.prems(2) by (auto simp: EnqOp step split: prod.splits)
    show ?thesis
      using Cons.IH [OF _ run(1)] enq_law [OF Cons.prems(1) step]
        enq_refines [OF Cons.prems(1) step]
      by (simp add: EnqOp run(2))
  next
    case (DeqOp c)
    obtain q1 r where step: "deq c q = (q1, r)" by fastforce
    obtain rs1 where run: "run_queue enq deq q1 ops = (q', rs1)" "rs = DeqRes r # rs1"
      using Cons.prems(2) by (auto simp: DeqOp step split: prod.splits)
    show ?thesis
      using Cons.IH [OF _ run(1)] deq_law [OF Cons.prems(1) step]
        deq_refines [OF Cons.prems(1) step]
      by (simp add: DeqOp run(2))
  qed
qed

end

subsection \<open>Task sources\<close>

text \<open>The loop \<open>for (i : order) if (auto* t = sources[i]->take()) return t;\<close>\<close>

fun search ::
  "('c \<Rightarrow> 's \<Rightarrow> 's \<times> 'a option) \<Rightarrow> (nat \<Rightarrow> 'c) \<Rightarrow> 's list \<Rightarrow> nat list \<Rightarrow> 's list \<times> 'a option" where
  "search grab cas ss [] = (ss, None)"
| "search grab cas ss (i # order) =
     (case grab (cas i) (ss ! i) of
        (s', Some x) \<Rightarrow> (ss[i := s'], Some x)
      | (s', None) \<Rightarrow> search grab cas (ss[i := s']) order)"

locale task_source =
  fixes grab :: "'c \<Rightarrow> 's \<Rightarrow> 's \<times> 'a option"
    and items :: "'s \<Rightarrow> 'a multiset"
    and good :: "'s \<Rightarrow> bool"
    and quiet :: "'c \<Rightarrow> bool"
  assumes grab_law: "good s \<Longrightarrow> grab c s = (s', r) \<Longrightarrow>
      good s' \<and>
      (case r of None \<Rightarrow> s' = s \<and> (quiet c \<longrightarrow> items s = {#})
               | Some x \<Rightarrow> items s = add_mset x (items s'))"
begin

text \<open>A search that finds nothing changes nothing, and if no CAS failed there was nothing.\<close>

lemma search_None:
  assumes "\<forall>s \<in> set ss. good s" "set order \<subseteq> {..<length ss}"
    and "search grab cas ss order = (ss', None)"
  shows "ss' = ss \<and> (\<forall>i \<in> set order. quiet (cas i) \<longrightarrow> items (ss ! i) = {#})"
  using assms
proof (induction order)
  case Nil
  then show ?case by simp
next
  case (Cons i order)
  obtain s' where step: "grab (cas i) (ss ! i) = (s', None)"
    using Cons.prems(3) by (auto split: prod.splits option.splits)
  have "good (ss ! i)" using Cons.prems(1,2) by simp
  from grab_law [OF this step] have "s' = ss ! i" "quiet (cas i) \<longrightarrow> items (ss ! i) = {#}"
    by simp_all
  with Cons step show ?case by simp
qed

text \<open>
  A search that finds an item took it from the first source of the order that was not passed
  over, and only that source changed.
\<close>

lemma search_Some:
  assumes "\<forall>s \<in> set ss. good s" "set order \<subseteq> {..<length ss}"
    and "search grab cas ss order = (ss', Some x)"
  shows "\<exists>pre i post s'. order = pre @ i # post \<and> grab (cas i) (ss ! i) = (s', Some x) \<and>
    ss' = ss[i := s'] \<and> good s' \<and> items (ss ! i) = add_mset x (items s') \<and>
    (\<forall>j \<in> set pre. quiet (cas j) \<longrightarrow> items (ss ! j) = {#})"
  using assms
proof (induction order)
  case Nil
  then show ?case by simp
next
  case (Cons i order)
  obtain s' r where step: "grab (cas i) (ss ! i) = (s', r)" by fastforce
  have "good (ss ! i)" using Cons.prems(1,2) by simp
  note law = grab_law [OF this step]
  show ?case
  proof (cases r)
    case None
    with law have same: "s' = ss ! i" "quiet (cas i) \<longrightarrow> items (ss ! i) = {#}" by simp_all
    with Cons.prems(3) step None have "search grab cas ss order = (ss', Some x)" by simp
    with Cons.IH Cons.prems(1,2) obtain pre j post s'' where
      "order = pre @ j # post" "grab (cas j) (ss ! j) = (s'', Some x)" "ss' = ss[j := s'']"
      "good s''" "items (ss ! j) = add_mset x (items s'')"
      "\<forall>k \<in> set pre. quiet (cas k) \<longrightarrow> items (ss ! k) = {#}"
      by auto
    with same(2) show ?thesis
      by (intro exI [of _ "i # pre"] exI [of _ j] exI [of _ post] exI [of _ s'']) simp
  next
    case (Some y)
    with Cons.prems(3) step law show ?thesis
      by (intro exI [of _ "[]"] exI [of _ i] exI [of _ order] exI [of _ s']) simp
  qed
qed

end

text \<open>Replacing one source of a list changes the total by the change of that source.\<close>

lemma sum_list_map_update:
  fixes f :: "'s \<Rightarrow> 'a :: comm_monoid_add"
  assumes "i < length ss"
  shows "sum_list (map f (ss[i := s'])) + f (ss ! i) = sum_list (map f ss) + f s'"
  using assms
proof (induction ss arbitrary: i)
  case Nil
  then show ?case by simp
next
  case (Cons s ss)
  then show ?case by (cases i) (simp_all add: ac_simps)
qed

lemma sum_list_replicate_empty [simp]: "sum_list (replicate n {#}) = ({#} :: 'a multiset)"
  by (induction n) simp_all

lemma sum_list_mset_empty_iff:
  "sum_list (map f ss) = ({#} :: 'a multiset) \<longleftrightarrow> (\<forall>s \<in> set ss. f s = {#})"
  by (induction ss) auto

end
