(* ===== verification/Task_Queue.thy ===== *)
theory Task_Queue
  imports Queue_Interface
begin

section \<open>The lock-free circular buffer queue\<close>

text \<open>
  \<open>LockFreeTaskQueue\<close> of \<open>include/task_engine/task_queue.hpp\<close>, one operation at a time: each
  operation is a function on the record of the four members of the class. The \<open>q_buffer\<close> array is
  a function on slot numbers, \<open>None\<close> for a null pointer. \<open>compare_exchange_weak\<close> may fail
  spuriously, so every operation with a CAS takes a flag that says whether the CAS may succeed.
  The theory proves that under the ring invariant the queue is a bounded FIFO list; what
  interleaved operations of several threads do is the subject of theory Queue_Interleaving.
\<close>

record 'a lfq =
  q_capacity :: size_t
  q_mask :: size_t
  q_buffer :: "nat \<Rightarrow> 'a option"
  q_head :: size_t
  q_tail :: size_t

definition LockFreeTaskQueue :: "size_t \<Rightarrow> exn + 'a lfq" where
  "LockFreeTaskQueue capacity =
     (let mask = capacity - 1 in
      if capacity AND mask \<noteq> 0
      then Inl (InvalidArgument ''Capacity must be power of 2'')
      else Inr \<lparr>q_capacity = capacity, q_mask = mask, q_buffer = (\<lambda>_. None),
                q_head = 0, q_tail = 0\<rparr>)"

definition try_enqueue :: "bool \<Rightarrow> 'a lfq \<Rightarrow> 'a \<Rightarrow> 'a lfq \<times> bool" where
  "try_enqueue cas q task =
     (let head = q_head q; tail = q_tail q; next_tail = (tail + 1) AND q_mask q in
      if next_tail = head AND q_mask q then (q, False)
      else if cas \<and> q_buffer q (unat tail) = None
      then (q\<lparr>q_buffer := (q_buffer q)(unat tail := Some task), q_tail := next_tail\<rparr>, True)
      else (q, False))"

definition try_dequeue :: "bool \<Rightarrow> 'a lfq \<Rightarrow> 'a lfq \<times> 'a option" where
  "try_dequeue cas q =
     (let head = q_head q; tail = q_tail q; slot = unat (head AND q_mask q) in
      if head = tail then (q, None)
      else (case q_buffer q slot of
              None \<Rightarrow> (q, None)
            | Some task \<Rightarrow>
                if cas
                then (q\<lparr>q_buffer := (q_buffer q)(slot := None), q_head := (head + 1) AND q_mask q\<rparr>,
                      Some task)
                else (q, None)))"

definition lfq_empty :: "'a lfq \<Rightarrow> bool" where
  "lfq_empty q \<longleftrightarrow> q_head q = q_tail q"

definition lfq_full :: "'a lfq \<Rightarrow> bool" where
  "lfq_full q \<longleftrightarrow> (q_tail q + 1) AND q_mask q = q_head q AND q_mask q"

definition lfq_size :: "'a lfq \<Rightarrow> size_t" where
  "lfq_size q = (if q_tail q \<ge> q_head q then q_tail q - q_head q
                 else (q_capacity q - q_head q) + q_tail q)"

definition lfq_slack :: "'a lfq \<Rightarrow> size_t" where
  "lfq_slack q = q_capacity q - lfq_size q"

text \<open>
  The waiting operations loop until the deadline. Each round of the loop reads the clock and then
  works on the queue as the other threads have left it, so a run of the loop is driven by a list
  of observations (clock, queue, CAS flag); \<open>None\<close> means that the loop is still running when
  the observations end.
\<close>

fun wait_enqueue_until ::
  "(time \<times> 'a lfq \<times> bool) list \<Rightarrow> 'a \<Rightarrow> time \<Rightarrow> ('a lfq \<times> bool) option" where
  "wait_enqueue_until [] task deadline = None"
| "wait_enqueue_until ((now, q, cas) # obs) task deadline =
     (if now < deadline
      then (case try_enqueue cas q task of (q', ok) \<Rightarrow>
              if ok then Some (q', True) else wait_enqueue_until obs task deadline)
      else Some (q, False))"

definition wait_enqueue_for ::
  "time \<Rightarrow> (time \<times> 'a lfq \<times> bool) list \<Rightarrow> 'a \<Rightarrow> time \<Rightarrow> ('a lfq \<times> bool) option" where
  "wait_enqueue_for now obs task timeout = wait_enqueue_until obs task (now + timeout)"

fun wait_dequeue_until ::
  "(time \<times> 'a lfq \<times> bool) list \<Rightarrow> time \<Rightarrow> ('a lfq \<times> 'a option) option" where
  "wait_dequeue_until [] deadline = None"
| "wait_dequeue_until ((now, q, cas) # obs) deadline =
     (if now < deadline
      then (case try_dequeue cas q of
              (q', Some value) \<Rightarrow> Some (q', Some value)
            | (q', None) \<Rightarrow> wait_dequeue_until obs deadline)
      else Some (q, None))"

definition wait_dequeue_for ::
  "time \<Rightarrow> (time \<times> 'a lfq \<times> bool) list \<Rightarrow> time \<Rightarrow> ('a lfq \<times> 'a option) option" where
  "wait_dequeue_for now obs timeout = wait_dequeue_until obs (now + timeout)"

fun try_enqueue_batch :: "(nat \<Rightarrow> bool) \<Rightarrow> 'a lfq \<Rightarrow> 'a list \<Rightarrow> 'a lfq \<times> bool" where
  "try_enqueue_batch cas q [] = (q, True)"
| "try_enqueue_batch cas q (task # tasks) =
     (case try_enqueue (cas 0) q task of (q', ok) \<Rightarrow>
        if \<not> ok then (q', False) else try_enqueue_batch (\<lambda>i. cas (Suc i)) q' tasks)"

text \<open>The output span of \<open>try_dequeue_batch\<close> is its length; the slots written are the list.\<close>

fun try_dequeue_batch :: "(nat \<Rightarrow> bool) \<Rightarrow> 'a lfq \<Rightarrow> nat \<Rightarrow> 'a lfq \<times> 'a list" where
  "try_dequeue_batch cas q 0 = (q, [])"
| "try_dequeue_batch cas q (Suc n) =
     (case try_dequeue (cas 0) q of
        (q', None) \<Rightarrow> (q', [])
      | (q', Some task) \<Rightarrow>
          (case try_dequeue_batch (\<lambda>i. cas (Suc i)) q' n of (q'', out) \<Rightarrow> (q'', task # out)))"

partial_function (option) clear_loop ::
  "size_t \<Rightarrow> size_t \<Rightarrow> size_t \<Rightarrow> (nat \<Rightarrow> 'a option) \<Rightarrow> (nat \<Rightarrow> 'a option) option" where
  "clear_loop msk head tail buf =
     (if head \<noteq> tail
      then clear_loop msk ((head + 1) AND msk) tail (buf(unat head := None))
      else Some buf)"

definition lfq_clear :: "'a lfq \<Rightarrow> 'a lfq option" where
  "lfq_clear q = map_option (\<lambda>buf. q\<lparr>q_buffer := buf, q_head := 0, q_tail := 0\<rparr>)
                   (clear_loop (q_mask q) (q_head q) (q_tail q) (q_buffer q))"

subsection \<open>The ring invariant and the list a ring holds\<close>

definition q_len :: "'a lfq \<Rightarrow> nat" where
  "q_len q = (unat (q_tail q) + unat (q_capacity q) - unat (q_head q)) mod unat (q_capacity q)"

definition q_slot :: "'a lfq \<Rightarrow> nat \<Rightarrow> 'a option" where
  "q_slot q i = q_buffer q ((unat (q_head q) + i) mod unat (q_capacity q))"

definition q_list :: "'a lfq \<Rightarrow> 'a list" where
  "q_list q = map (\<lambda>i. the (q_slot q i)) [0..<q_len q]"

definition q_bound :: "'a lfq \<Rightarrow> nat" where
  "q_bound q = unat (q_capacity q) - 1"

definition q_inv :: "'a lfq \<Rightarrow> bool" where
  "q_inv q \<longleftrightarrow> q_capacity q \<noteq> 0 \<and> q_capacity q AND (q_capacity q - 1) = 0 \<and>
     q_mask q = q_capacity q - 1 \<and>
     unat (q_head q) < unat (q_capacity q) \<and> unat (q_tail q) < unat (q_capacity q) \<and>
     (\<forall>i < unat (q_capacity q). q_slot q i \<noteq> None \<longleftrightarrow> i < q_len q)"

text \<open>Arithmetic of the ring, on natural numbers: \<open>h\<close> the head, \<open>t\<close> the tail, \<open>n\<close> slots.\<close>

lemma ring_tail_index:
  "h < n \<Longrightarrow> t < n \<Longrightarrow> (h + (t + n - h) mod n) mod n = (t::nat)"
  by (simp add: mod_simps)

lemma ring_len_less: "h < n \<Longrightarrow> (t + n - h) mod n < (n::nat)"
  by simp

lemma ring_len_cases:
  assumes "h < n" "t < (n::nat)"
  shows "(t + n - h) mod n = (if h \<le> t then t - h else t + n - h)"
proof (cases "h \<le> t")
  case True
  then have "t + n - h = (t - h) + n" by linarith
  then have "(t + n - h) mod n = (t - h) mod n" by (simp only: mod_add_self2)
  also have "\<dots> = t - h" using assms(2) by (intro mod_less) linarith
  finally show ?thesis using True by simp
next
  case False
  then have "t + n - h < n" using assms by linarith
  then show ?thesis using False by (simp only: mod_less if_False)
qed

lemma ring_succ_cases: "t < (n::nat) \<Longrightarrow> Suc t mod n = (if Suc t = n then 0 else Suc t)"
  by simp

lemma ring_full_iff:
  assumes "h < n" "t < (n::nat)"
  shows "Suc t mod n = h \<longleftrightarrow> Suc ((t + n - h) mod n) = n"
  unfolding ring_len_cases [OF assms] ring_succ_cases [OF assms(2)] using assms by auto

lemma ring_len_enq:
  assumes "h < n" "t < (n::nat)" "Suc ((t + n - h) mod n) < n"
  shows "(Suc t mod n + n - h) mod n = Suc ((t + n - h) mod n)"
proof -
  have "Suc t mod n < n" using assms(1) by simp
  from ring_len_cases [OF assms(1) this] show ?thesis
    using assms unfolding ring_len_cases [OF assms(1,2)] ring_succ_cases [OF assms(2)]
    by (simp split: if_splits)
qed

lemma ring_len_deq:
  assumes "h < n" "t < (n::nat)" "h \<noteq> t"
  shows "(t + n - Suc h mod n) mod n = (t + n - h) mod n - 1"
proof -
  have "Suc h mod n < n" using assms(1) by simp
  from ring_len_cases [OF this assms(2)] show ?thesis
    using assms unfolding ring_len_cases [OF assms(1,2)] ring_succ_cases [OF assms(1)]
    by (simp split: if_splits)
qed

lemma ring_len_zero_iff:
  "h < n \<Longrightarrow> t < (n::nat) \<Longrightarrow> (t + n - h) mod n = 0 \<longleftrightarrow> h = t"
  by (simp only: ring_len_cases) auto

lemma ring_index_inj:
  assumes "i < n" "j < (n::nat)" "(h + i) mod n = (h + j) mod n"
  shows "i = j"
proof -
  have le: "i = j" if "i \<le> j" "j < n" "(h + j) mod n = (h + i) mod n" for i j
  proof -
    have "n dvd (h + j) - (h + i)"
      using that mod_eq_dvd_iff_nat [of "h + i" "h + j" n] by simp
    with that dvd_imp_le [of n "j - i"] show ?thesis by (cases "j - i = 0") simp_all
  qed
  show ?thesis
    using assms le [of i j] le [of j i] by (cases "i \<le> j") simp_all
qed

lemma q_invD:
  assumes "q_inv q"
  shows "q_capacity q \<noteq> 0" "q_capacity q AND (q_capacity q - 1) = 0"
    "q_mask q = q_capacity q - 1"
    "unat (q_head q) < unat (q_capacity q)" "unat (q_tail q) < unat (q_capacity q)"
    "\<And>i. i < unat (q_capacity q) \<Longrightarrow> q_slot q i \<noteq> None \<longleftrightarrow> i < q_len q"
  using assms by (auto simp: q_inv_def)

lemma q_len_less: "q_inv q \<Longrightarrow> q_len q < unat (q_capacity q)"
  unfolding q_len_def by (rule ring_len_less) (rule q_invD)

lemma length_q_list [simp]: "length (q_list q) = q_len q"
  by (simp add: q_list_def)

lemma unat_head_mask: "q_inv q \<Longrightarrow> unat (q_head q AND q_mask q) = unat (q_head q)"
  by (simp add: q_invD unat_and_mask_mod)

lemma unat_head_succ:
  "q_inv q \<Longrightarrow> unat ((q_head q + 1) AND q_mask q) = Suc (unat (q_head q)) mod unat (q_capacity q)"
  by (simp add: q_invD unat_succ_mask_mod)

lemma unat_tail_succ:
  "q_inv q \<Longrightarrow> unat ((q_tail q + 1) AND q_mask q) = Suc (unat (q_tail q)) mod unat (q_capacity q)"
  by (simp add: q_invD unat_succ_mask_mod)

lemma full_test_iff:
  assumes "q_inv q"
  shows "(q_tail q + 1) AND q_mask q = q_head q AND q_mask q \<longleftrightarrow> q_len q = q_bound q"
proof -
  have "(q_tail q + 1) AND q_mask q = q_head q AND q_mask q \<longleftrightarrow>
      Suc (unat (q_tail q)) mod unat (q_capacity q) = unat (q_head q)"
    using unat_tail_succ [OF assms] unat_head_mask [OF assms] by (metis unat_inject)
  also have "\<dots> \<longleftrightarrow> Suc (q_len q) = unat (q_capacity q)"
    unfolding q_len_def by (intro ring_full_iff q_invD assms)
  finally show ?thesis
    using q_len_less [OF assms] by (auto simp: q_bound_def)
qed

lemma empty_test_iff: "q_inv q \<Longrightarrow> q_head q = q_tail q \<longleftrightarrow> q_len q = 0"
  unfolding q_len_def
  by (subst ring_len_zero_iff) (auto simp: q_invD unat_inject)

lemma buffer_tail: "q_inv q \<Longrightarrow> q_buffer q (unat (q_tail q)) = q_slot q (q_len q)"
  unfolding q_slot_def q_len_def by (subst ring_tail_index) (auto simp: q_invD)

lemma buffer_head: "q_inv q \<Longrightarrow> q_buffer q (unat (q_head q)) = q_slot q 0"
  by (simp add: q_slot_def q_invD)

lemma q_len_le_bound: "q_inv q \<Longrightarrow> q_len q \<le> q_bound q"
  using q_len_less [of q] by (simp add: q_bound_def)

text \<open>The state after a successful enqueue, slot by slot.\<close>

lemma enqueue_state:
  assumes inv: "q_inv q" and room: "q_len q < q_bound q"
    and q': "q' = q\<lparr>q_buffer := (q_buffer q)(unat (q_tail q) := Some x),
                 q_tail := (q_tail q + 1) AND q_mask q\<rparr>"
  shows "q_inv q'" and "q_list q' = q_list q @ [x]"
proof -
  let ?n = "unat (q_capacity q)"
  have n: "q_len q < ?n" "Suc (q_len q) < ?n"
    using room q_len_less [OF inv] by (auto simp: q_bound_def)
  have cap: "q_capacity q' = q_capacity q" by (simp add: q')
  have len: "q_len q' = Suc (q_len q)"
    using n(2) ring_len_enq [OF q_invD(4,5) [OF inv]]
    by (simp add: q' q_len_def unat_tail_succ [OF inv])
  have tail: "unat (q_tail q) = (unat (q_head q) + q_len q) mod ?n"
    unfolding q_len_def using ring_tail_index [OF q_invD(4,5) [OF inv]] by simp
  have slot: "q_slot q' i = (if i = q_len q then Some x else q_slot q i)" if "i < ?n" for i
    using that n(1) ring_index_inj [of i ?n "q_len q"]
    by (auto simp: q' q_slot_def tail)
  show "q_inv q'"
    unfolding q_inv_def
  proof (intro conjI allI impI)
    fix i assume "i < unat (q_capacity q')"
    then show "q_slot q' i \<noteq> None \<longleftrightarrow> i < q_len q'"
      using q_invD(6) [OF inv, of i] slot [of i] cap by (auto simp only: len split: if_splits)
  qed (use q_invD [OF inv] unat_tail_succ [OF inv] in \<open>simp_all add: q'\<close>)
  show "q_list q' = q_list q @ [x]"
    using n(1) by (simp add: q_list_def len slot)
qed

lemma dequeue_state:
  assumes inv: "q_inv q" and some: "0 < q_len q"
    and q': "q' = q\<lparr>q_buffer := (q_buffer q)(unat (q_head q) := None),
                 q_head := (q_head q + 1) AND q_mask q\<rparr>"
  shows "q_inv q'" and "q_list q = the (q_slot q 0) # q_list q'"
proof -
  let ?n = "unat (q_capacity q)" and ?h = "unat (q_head q)"
  have neq: "?h \<noteq> unat (q_tail q)"
    using some empty_test_iff [OF inv] by (auto simp: unat_inject)
  have cap: "q_capacity q' = q_capacity q" by (simp add: q')
  have len: "q_len q' = q_len q - 1"
    using ring_len_deq [OF q_invD(4,5) [OF inv] neq]
    by (simp add: q' q_len_def unat_head_succ [OF inv])
  have idx: "(Suc ?h mod ?n + i) mod ?n = (?h + Suc i) mod ?n" for i
    by (simp add: mod_simps)
  have same: "(?h + Suc i) mod ?n = ?h \<longleftrightarrow> Suc i = ?n" if "i < ?n" for i
    using that q_invD(4) [OF inv] ring_index_inj [of "Suc i" ?n 0 ?h]
    by (cases "Suc i = ?n") auto
  have slots: "q_buffer q' ((unat (q_head q') + i) mod unat (q_capacity q')) =
      ((q_buffer q)(?h := None)) ((?h + Suc i) mod ?n)" for i
    by (simp add: q' unat_head_succ [OF inv] idx)
  have slot: "q_slot q' i = (if Suc i = ?n then None else q_slot q (Suc i))" if "i < ?n" for i
    using same [OF that] unfolding q_slot_def slots by (simp add: cap)
  show "q_inv q'"
    unfolding q_inv_def
  proof (intro conjI allI impI)
    fix i assume "i < unat (q_capacity q')"
    then show "q_slot q' i \<noteq> None \<longleftrightarrow> i < q_len q'"
      using q_invD(6) [OF inv, of "Suc i"] slot [of i] q_len_less [OF inv]
      by (simp add: len cap) linarith
  qed (use q_invD [OF inv] unat_head_succ [OF inv] in \<open>simp_all add: q'\<close>)
  have "q_list q = map (\<lambda>i. the (q_slot q i)) (0 # map Suc [0..<q_len q - 1])"
    using some by (simp add: q_list_def upt_conv_Cons map_Suc_upt)
  also have "\<dots> = the (q_slot q 0) # q_list q'"
    using q_len_less [OF inv] by (auto simp: q_list_def len slot)
  finally show "q_list q = the (q_slot q 0) # q_list q'" .
qed

lemma try_enqueue_spec:
  assumes inv: "q_inv q" and step: "try_enqueue cas q x = (q', ok)"
  shows "q_inv q' \<and> q_bound q' = q_bound q \<and> (ok \<longleftrightarrow> cas \<and> length (q_list q) < q_bound q) \<and>
    q_list q' = q_list q @ (if ok then [x] else []) \<and> (\<not> ok \<longrightarrow> q' = q)"
proof -
  have free: "q_buffer q (unat (q_tail q)) = None"
    using buffer_tail [OF inv] q_invD(6) [OF inv, of "q_len q"] q_len_less [OF inv] by simp
  show ?thesis
  proof (cases "cas \<and> q_len q < q_bound q")
    case True
    then show ?thesis
      using step full_test_iff [OF inv] free enqueue_state [OF inv _ refl, of x] inv
      by (auto simp: try_enqueue_def Let_def q_bound_def split: if_splits)
  next
    case False
    then show ?thesis
      using step full_test_iff [OF inv] q_len_le_bound [OF inv] inv
      by (auto simp: try_enqueue_def Let_def split: if_splits)
  qed
qed

lemma try_dequeue_spec:
  assumes inv: "q_inv q" and step: "try_dequeue cas q = (q', r)"
  shows "q_inv q' \<and> q_bound q' = q_bound q \<and>
    (case r of
       None \<Rightarrow> q' = q \<and> (cas \<longrightarrow> q_list q = [])
     | Some x \<Rightarrow> cas \<and> q_list q = x # q_list q')"
proof (cases "q_len q = 0")
  case True
  then show ?thesis
    using step empty_test_iff [OF inv] inv
    by (simp add: try_dequeue_def q_list_def)
next
  case False
  then obtain x where x: "q_buffer q (unat (q_head q)) = Some x" "the (q_slot q 0) = x"
    using q_invD(6) [OF inv, of 0] q_invD(4) [OF inv] buffer_head [OF inv] by auto
  from False have ne: "q_head q \<noteq> q_tail q" using empty_test_iff [OF inv] by simp
  show ?thesis
  proof (cases cas)
    case True
    let ?q = "q\<lparr>q_buffer := (q_buffer q)(unat (q_head q) := None),
                 q_head := (q_head q + 1) AND q_mask q\<rparr>"
    have "q' = ?q" "r = Some x"
      using step ne x(1) True unat_head_mask [OF inv] by (simp_all add: try_dequeue_def Let_def)
    moreover have "q_inv ?q" "q_list q = x # q_list ?q" "q_bound ?q = q_bound q"
      using dequeue_state [OF inv _ refl] False x(2) by (simp_all add: q_bound_def)
    ultimately show ?thesis using True by simp
  next
    case False
    then show ?thesis
      using step ne x(1) inv unat_head_mask [OF inv] by (simp add: try_dequeue_def Let_def)
  qed
qed

subsection \<open>The ring as a bounded queue and as a task source\<close>

interpretation ring: bounded_queue try_enqueue try_dequeue q_list q_inv q_bound
  by unfold_locales (erule (1) try_enqueue_spec, erule (1) try_dequeue_spec)

interpretation ring_source: task_source try_dequeue "\<lambda>q. mset (q_list q)" q_inv "\<lambda>c. c"
proof unfold_locales
  fix q c and q' :: "'a lfq" and r
  assume "q_inv q" "try_dequeue c q = (q', r)"
  from ring.deq_law [OF this]
  show "q_inv q' \<and> (case r of None \<Rightarrow> q' = q \<and> (c \<longrightarrow> mset (q_list q) = {#})
      | Some x \<Rightarrow> mset (q_list q) = add_mset x (mset (q_list q')))"
    by (auto split: option.splits)
qed

subsection \<open>Construction\<close>

lemma new_queue:
  assumes "c \<noteq> 0" and "LockFreeTaskQueue c = Inr q"
  shows "q_inv q \<and> q_list q = [] \<and> q_bound q = unat c - 1"
  using assms unat_gt_0 [of c]
  by (auto simp: LockFreeTaskQueue_def Let_def q_inv_def q_slot_def q_list_def q_len_def
      q_bound_def split: if_splits)

text \<open>The constructor accepts exactly the powers of two and zero. An accepted non-zero capacity
  gives an empty queue that satisfies the ring invariant and has room for \<open>capacity - 1\<close> tasks.\<close>

theorem constructor_accepts:
  "(case LockFreeTaskQueue c :: exn + 'a lfq of
      Inl e \<Rightarrow> e = InvalidArgument ''Capacity must be power of 2'' \<and>
               c \<noteq> 0 \<and> (\<nexists>k. unat c = 2 ^ k)
    | Inr q \<Rightarrow> c = 0 \<or> (\<exists>k. unat c = 2 ^ k) \<and> q_inv q \<and> q_list q = [] \<and> q_bound q = unat c - 1)"
proof (cases "c AND (c - 1) = 0")
  case True
  then obtain q :: "'a lfq" where q: "LockFreeTaskQueue c = Inr q"
    by (simp add: LockFreeTaskQueue_def)
  show ?thesis
    using new_queue [OF _ q] True word_pow2_iff [of c] by (auto simp: q)
next
  case False
  then have "c \<noteq> 0" by auto
  with False word_pow2_iff [of c] show ?thesis
    by (simp add: LockFreeTaskQueue_def Let_def)
qed

text \<open>A queue of capacity four, used by the witnesses.\<close>

definition ring4 :: "nat lfq" where
  "ring4 = \<lparr>q_capacity = 4, q_mask = 3, q_buffer = (\<lambda>_. None), q_head = 0, q_tail = 0\<rparr>"

lemma ring4_new: "LockFreeTaskQueue 4 = Inr ring4"
  by (simp add: LockFreeTaskQueue_def ring4_def)

lemma ring4_ok: "q_inv ring4" "q_list ring4 = []" "q_bound ring4 = 3"
  using new_queue [OF _ ring4_new] by simp_all

text \<open>C9. A run of enqueue and dequeue operations, one after the other, behaves exactly as the same
  run on a FIFO list that holds at most \<open>capacity - 1\<close> elements: the same results in the same
  order, and the ring invariant and the content agree at the end.\<close>

theorem ring_refines_fifo:
  assumes "q_inv q" and "run_queue try_enqueue try_dequeue q ops = (q', rs)"
  shows "q_inv q' \<and> run_queue (fifo_enq (q_bound q)) fifo_deq (q_list q) ops = (q_list q', rs)"
  using ring.run_refines [OF assms] by simp

theorem ring_refines_fifo_witness:
  "\<exists>q'. q_inv q' \<and> run_queue (fifo_enq (q_bound ring4)) fifo_deq (q_list ring4)
       [EnqOp True 7, EnqOp False 8, EnqOp True (9::nat), DeqOp True] =
     (q_list q', [EnqRes True, EnqRes False, EnqRes True, DeqRes (Some 7)])"
  by (rule exI, rule ring_refines_fifo [OF ring4_ok(1)])
    (simp add: ring4_def try_enqueue_def try_dequeue_def Let_def)

text \<open>A capacity of zero is accepted, although zero is no power of two, and the first enqueue then
  writes slot 0 of an array of no slots.\<close>

lemma zero_capacity_writes_out_of_bounds:
  "\<exists>q. LockFreeTaskQueue 0 = Inr q \<and>
    (case try_enqueue True q x of (q', ok) \<Rightarrow>
       ok \<and> q_buffer q' 0 = Some x \<and> \<not> 0 < unat (q_capacity q'))"
  by (simp add: LockFreeTaskQueue_def try_enqueue_def)

subsection \<open>Size, empty and full\<close>

lemma unat_lfq_size: "q_inv q \<Longrightarrow> unat (lfq_size q) = q_len q"
proof -
  assume inv: "q_inv q"
  note b = q_invD(4,5) [OF inv]
  show ?thesis
  proof (cases "q_head q \<le> q_tail q")
    case True
    then show ?thesis
      using b by (simp add: lfq_size_def q_len_def ring_len_cases [OF b] unat_sub word_le_nat_alt)
  next
    case False
    then have lt: "unat (q_tail q) < unat (q_head q)" by (simp add: word_le_nat_alt)
    have sub: "unat (q_capacity q - q_head q) = unat (q_capacity q) - unat (q_head q)"
      using b by (simp add: unat_sub word_le_nat_alt)
    have "unat (q_capacity q - q_head q) + unat (q_tail q) < 2 ^ 64"
      using lt b unsigned_less [of "q_capacity q", where ?'a = nat] unfolding sub by simp
    then have "unat (q_capacity q - q_head q + q_tail q) =
        unat (q_capacity q) - unat (q_head q) + unat (q_tail q)"
      using sub by (simp add: unat_word_ariths)
    with False lt b show ?thesis
      by (simp add: lfq_size_def q_len_def ring_len_cases [OF b])
  qed
qed

text \<open>The observers agree with the content: \<open>size\<close> is its length, \<open>empty\<close> and \<open>full\<close> test it
  for no element and for the bound, and \<open>slack\<close> is the capacity less the length, so a full queue
  still reports a slack of one.\<close>

theorem observers_agree:
  assumes "q_inv q"
  shows "unat (lfq_size q) = length (q_list q) \<and> (lfq_empty q \<longleftrightarrow> q_list q = []) \<and>
    (lfq_full q \<longleftrightarrow> length (q_list q) = q_bound q) \<and>
    unat (lfq_slack q) = unat (q_capacity q) - length (q_list q) \<and>
    (lfq_full q \<longrightarrow> lfq_slack q = 1)"
proof -
  have slack: "unat (lfq_slack q) = unat (q_capacity q) - q_len q"
    using unat_lfq_size [OF assms] q_len_less [OF assms]
    by (simp add: lfq_slack_def unat_sub word_le_nat_alt)
  have full: "lfq_full q \<longleftrightarrow> q_len q = q_bound q"
    using full_test_iff [OF assms] by (simp add: lfq_full_def)
  have one: "lfq_slack q = 1" if "lfq_full q"
    using slack that q_len_less [OF assms] unfolding full q_bound_def
    by (intro unat_inject [THEN iffD1]) simp
  show ?thesis
    using unat_lfq_size [OF assms] empty_test_iff [OF assms] slack full one
    by (simp add: lfq_empty_def flip: length_0_conv)
qed

theorem observers_agree_witness:
  "unat (lfq_size ring4) = length (q_list ring4) \<and> lfq_empty ring4 \<and> \<not> lfq_full ring4"
  using observers_agree [OF ring4_ok(1)] by (simp add: ring4_ok)

subsection \<open>Batches\<close>

text \<open>With no spurious failure, \<open>try_enqueue_batch\<close> enqueues exactly the longest prefix of the
  tasks that fits, in order, keeps that prefix when it reports failure, and reports success exactly
  when all tasks fit.\<close>

theorem enqueue_batch_prefix:
  assumes "q_inv q" and "try_enqueue_batch (\<lambda>_. True) q tasks = (q', ok)"
  shows "q_inv q' \<and> q_bound q' = q_bound q \<and>
    q_list q' = q_list q @ take (q_bound q - length (q_list q)) tasks \<and>
    (ok \<longleftrightarrow> length (q_list q) + length tasks \<le> q_bound q)"
  using assms
proof (induction tasks arbitrary: q)
  case Nil
  then show ?case using q_len_le_bound by auto
next
  case (Cons t tasks)
  obtain q1 ok1 where step: "try_enqueue True q t = (q1, ok1)" by fastforce
  note law = ring.enq_law [OF Cons.prems(1) step]
  show ?case
  proof (cases ok1)
    case True
    with Cons.prems(2) step have "try_enqueue_batch (\<lambda>_. True) q1 tasks = (q', ok)" by simp
    with Cons.IH [of q1] law True show ?thesis
      by (auto simp: take_Cons' Suc_diff_Suc simp flip: length_q_list split: if_splits)
  next
    case False
    with Cons.prems(2) step law show ?thesis by auto
  qed
qed

theorem enqueue_batch_prefix_witness:
  "\<exists>q'. try_enqueue_batch (\<lambda>_. True) ring4 [1, 2, 3, 4, 5] = (q', False) \<and> q_list q' = [1, 2, 3]"
proof -
  obtain q' ok where run: "try_enqueue_batch (\<lambda>_. True) ring4 [1, 2, 3, 4, 5] = (q', ok)"
    by fastforce
  from enqueue_batch_prefix [OF ring4_ok(1) run] run show ?thesis
    by (simp add: ring4_ok)
qed

lemma dequeue_batch_prefix:
  assumes "q_inv q" and "try_dequeue_batch (\<lambda>_. True) q n = (q', out)"
  shows "q_inv q' \<and> q_bound q' = q_bound q \<and> out = take n (q_list q) \<and> q_list q' = drop n (q_list q)"
  using assms
proof (induction n arbitrary: q out)
  case 0
  then show ?case by simp
next
  case (Suc n)
  obtain q1 r where step: "try_dequeue True q = (q1, r)" by fastforce
  note law = ring.deq_law [OF Suc.prems(1) step]
  show ?case
  proof (cases r)
    case None
    with Suc.prems step law show ?thesis by auto
  next
    case (Some t)
    with Suc.prems(2) step obtain out1 where
      "try_dequeue_batch (\<lambda>_. True) q1 n = (q', out1)" "out = t # out1"
      by (auto split: prod.splits)
    with Suc.IH [of q1 out1] law Some show ?thesis by simp
  qed
qed

subsection \<open>Clearing\<close>

lemma clear_loop_terminates:
  assumes "q_inv q"
  shows "\<exists>buf. clear_loop (q_mask q) (q_head q) (q_tail q) (q_buffer q) = Some buf \<and>
    (\<forall>j < unat (q_capacity q). buf j = None)"
  using assms
proof (induction "q_len q" arbitrary: q)
  case 0
  have "q_buffer q j = None" if j: "j < unat (q_capacity q)" for j
  proof -
    let ?i = "(j + unat (q_capacity q) - unat (q_head q)) mod unat (q_capacity q)"
    have "q_slot q ?i = q_buffer q j"
      using ring_tail_index [OF q_invD(4) [OF "0.prems"] j] by (simp add: q_slot_def)
    moreover have "q_slot q ?i = None"
      using q_invD(6) [OF "0.prems", of ?i] j "0.hyps" by simp
    ultimately show ?thesis by simp
  qed
  moreover have "q_head q = q_tail q"
    using empty_test_iff [OF "0.prems"] "0.hyps" by simp
  ultimately show ?case by (simp add: clear_loop.simps)
next
  case (Suc n)
  let ?q = "q\<lparr>q_buffer := (q_buffer q)(unat (q_head q) := None),
               q_head := (q_head q + 1) AND q_mask q\<rparr>"
  have some: "0 < q_len q" using Suc.hyps(2) by simp
  note deqd = dequeue_state [OF Suc.prems some refl]
  have "n = q_len ?q"
    using arg_cong [OF deqd(2), of length] Suc.hyps(2) by simp
  from Suc.hyps(1) [OF this deqd(1)]
  have "\<exists>buf. clear_loop (q_mask q) ((q_head q + 1) AND q_mask q) (q_tail q)
      ((q_buffer q)(unat (q_head q) := None)) = Some buf \<and>
      (\<forall>j < unat (q_capacity q). buf j = None)"
    by simp
  moreover have "q_head q \<noteq> q_tail q"
    using empty_test_iff [OF Suc.prems] some by simp
  ultimately show ?case by (simp add: clear_loop.simps [of _ "q_head q"])
qed

text \<open>\<open>clear\<close> returns on every queue that satisfies the ring invariant and leaves an empty queue
  of the same bound, with head and tail back at slot zero.\<close>

theorem clear_empties:
  assumes "q_inv q"
  shows "\<exists>q'. lfq_clear q = Some q' \<and> q_inv q' \<and> q_list q' = [] \<and> q_bound q' = q_bound q \<and>
    q_head q' = 0 \<and> q_tail q' = 0"
proof -
  obtain buf where "clear_loop (q_mask q) (q_head q) (q_tail q) (q_buffer q) = Some buf"
    and "\<forall>j < unat (q_capacity q). buf j = None"
    using clear_loop_terminates [OF assms] by blast
  with q_invD(1-5) [OF assms] show ?thesis
    by (auto simp: lfq_clear_def q_inv_def q_list_def q_len_def q_slot_def q_bound_def)
qed

theorem clear_empties_witness:
  "\<exists>q'. lfq_clear (fst (try_enqueue True ring4 5)) = Some q' \<and> q_list q' = []"
proof -
  have "q_inv (fst (try_enqueue True ring4 5))"
    using try_enqueue_spec [OF ring4_ok(1), of True 5] by (metis prod.collapse)
  from clear_empties [OF this] show ?thesis by blast
qed

subsection \<open>Waiting operations\<close>

text \<open>\<open>wait_enqueue_until\<close> returns as soon as one of its clock readings reaches the deadline, and
  it returns true exactly when some earlier round enqueued the task; no round after that one and no
  failed round changes the queue it found.\<close>

theorem wait_enqueue_returns:
  assumes "\<exists>(now, q, cas) \<in> set obs. deadline \<le> now"
  shows "\<exists>q' ok pre now q cas post. wait_enqueue_until obs task deadline = Some (q', ok) \<and>
    obs = pre @ (now, q, cas) # post \<and>
    (\<forall>(now0, q0, cas0) \<in> set pre. now0 < deadline \<and> \<not> snd (try_enqueue cas0 q0 task)) \<and>
    (if ok then now < deadline \<and> try_enqueue cas q task = (q', True)
     else deadline \<le> now \<and> q' = q)"
  using assms
proof (induction obs)
  case Nil
  then show ?case by simp
next
  case (Cons ob obs)
  obtain now q cas where ob: "ob = (now, q, cas)" by (cases ob) auto
  obtain q1 ok1 where step: "try_enqueue cas q task = (q1, ok1)" by fastforce
  show ?case
  proof (cases "now < deadline \<and> \<not> ok1")
    case True
    with Cons.prems ob have "\<exists>(now, q, cas) \<in> set obs. deadline \<le> now" by auto
    from Cons.IH [OF this] obtain q' ok pre now2 q2 cas2 post where
      "wait_enqueue_until obs task deadline = Some (q', ok)" "obs = pre @ (now2, q2, cas2) # post"
      "\<forall>(now0, q0, cas0) \<in> set pre. now0 < deadline \<and> \<not> snd (try_enqueue cas0 q0 task)"
      "if ok then now2 < deadline \<and> try_enqueue cas2 q2 task = (q', True)
       else deadline \<le> now2 \<and> q' = q2"
      by blast
    with True step ob show ?thesis
      by (intro exI [of _ q'] exI [of _ ok] exI [of _ "ob # pre"] exI [of _ now2] exI [of _ q2]
          exI [of _ cas2] exI [of _ post]) auto
  next
    case False
    with step ob show ?thesis
      by (intro exI [of _ "if now < deadline then q1 else q"] exI [of _ "now < deadline"]
          exI [of _ "[]"] exI [of _ now] exI [of _ q] exI [of _ cas] exI [of _ obs]) auto
  qed
qed

theorem wait_enqueue_returns_witness:
  "\<exists>q' ok. wait_enqueue_until [(10, ring4, False), (20, ring4, True)] 5 20 = Some (q', ok) \<and> \<not> ok"
proof -
  have "\<exists>(now, q, cas) \<in> set [(10, ring4, False), (20, ring4, True)]. (20::int) \<le> now" by simp
  from wait_enqueue_returns [OF this, of 5] show ?thesis
    by (auto simp: try_enqueue_def ring4_def)
qed

end
