(* ===== verification/Queue_Interleaving.thy ===== *)
theory Queue_Interleaving
  imports Task_Queue
begin

section \<open>Interleaved producers and consumers\<close>

text \<open>
  \<open>try_enqueue\<close> and \<open>try_dequeue\<close> of \<open>include/task_engine/task_queue.hpp\<close> again, but one
  shared-memory access at a time: each atomic load, compare-and-swap or store is one action of one
  thread, and actions of different threads interleave freely (sequential consistency: the weaker
  \<open>memory_order\<close> arguments are not modelled). Local computation between two accesses belongs to
  the action before or after it. Two logs record the tasks whose CAS into and out of the buffer
  succeeded.

  With one producer and one consumer the queue is a FIFO queue under every interleaving. With a
  second producer it is not: a run of eighteen actions makes the queue lose two tasks whose
  \<open>try_enqueue\<close> returned true, and leaves it unusable.
\<close>

datatype 'a prod_pc =
    PIdle
  | PHead 'a size_t            \<comment> \<open>head loaded\<close>
  | PTail 'a size_t size_t     \<comment> \<open>head and tail loaded\<close>
  | PStore 'a size_t           \<comment> \<open>slot claimed, \<open>next_tail\<close> still to be stored\<close>

datatype 'a cons_pc =
    CIdle
  | CHead size_t
  | CTail size_t size_t
  | CTask size_t 'a            \<comment> \<open>head loaded, task read from the slot\<close>
  | CStore 'a size_t           \<comment> \<open>slot emptied, the new head still to be stored\<close>

record 'a shared =
  ring :: "'a lfq"
  prods :: "nat \<Rightarrow> 'a prod_pc"
  conss :: "nat \<Rightarrow> 'a cons_pc"
  enq_log :: "'a list"
  deq_log :: "'a list"

datatype 'a action =
    P_begin nat 'a | P_load_tail nat | P_cas nat bool | P_store nat
  | C_begin nat | C_load_tail nat | C_load_slot nat | C_cas nat bool | C_store nat

text \<open>One action of a thread; \<open>None\<close> when the thread is not at that point of its code.\<close>

fun q_exec :: "'a action \<Rightarrow> 'a shared \<Rightarrow> 'a shared option" where
  "q_exec (P_begin i task) s =
     (case prods s i of
        PIdle \<Rightarrow> Some (s\<lparr>prods := (prods s)(i := PHead task (q_head (ring s)))\<rparr>)
      | _ \<Rightarrow> None)"
| "q_exec (P_load_tail i) s =
     (case prods s i of
        PHead task head \<Rightarrow> Some (s\<lparr>prods := (prods s)(i := PTail task head (q_tail (ring s)))\<rparr>)
      | _ \<Rightarrow> None)"
| "q_exec (P_cas i cas) s =
     (case prods s i of
        PTail task head tail \<Rightarrow>
          (let q = ring s; next_tail = (tail + 1) AND q_mask q in
           if next_tail = head AND q_mask q
           then Some (s\<lparr>prods := (prods s)(i := PIdle)\<rparr>)
           else if cas \<and> q_buffer q (unat tail) = None
           then Some (s\<lparr>ring := q\<lparr>q_buffer := (q_buffer q)(unat tail := Some task)\<rparr>,
                        prods := (prods s)(i := PStore task next_tail),
                        enq_log := enq_log s @ [task]\<rparr>)
           else Some (s\<lparr>prods := (prods s)(i := PIdle)\<rparr>))
      | _ \<Rightarrow> None)"
| "q_exec (P_store i) s =
     (case prods s i of
        PStore task next_tail \<Rightarrow>
          Some (s\<lparr>ring := (ring s)\<lparr>q_tail := next_tail\<rparr>, prods := (prods s)(i := PIdle)\<rparr>)
      | _ \<Rightarrow> None)"
| "q_exec (C_begin i) s =
     (case conss s i of
        CIdle \<Rightarrow> Some (s\<lparr>conss := (conss s)(i := CHead (q_head (ring s)))\<rparr>)
      | _ \<Rightarrow> None)"
| "q_exec (C_load_tail i) s =
     (case conss s i of
        CHead head \<Rightarrow>
          (let tail = q_tail (ring s) in
           if head = tail then Some (s\<lparr>conss := (conss s)(i := CIdle)\<rparr>)
           else Some (s\<lparr>conss := (conss s)(i := CTail head tail)\<rparr>))
      | _ \<Rightarrow> None)"
| "q_exec (C_load_slot i) s =
     (case conss s i of
        CTail head tail \<Rightarrow>
          (case q_buffer (ring s) (unat (head AND q_mask (ring s))) of
             None \<Rightarrow> Some (s\<lparr>conss := (conss s)(i := CIdle)\<rparr>)
           | Some task \<Rightarrow> Some (s\<lparr>conss := (conss s)(i := CTask head task)\<rparr>))
      | _ \<Rightarrow> None)"
| "q_exec (C_cas i cas) s =
     (case conss s i of
        CTask head task \<Rightarrow>
          (let q = ring s; slot = unat (head AND q_mask q) in
           if cas \<and> q_buffer q slot = Some task
           then Some (s\<lparr>ring := q\<lparr>q_buffer := (q_buffer q)(slot := None)\<rparr>,
                        conss := (conss s)(i := CStore task ((head + 1) AND q_mask q)),
                        deq_log := deq_log s @ [task]\<rparr>)
           else Some (s\<lparr>conss := (conss s)(i := CIdle)\<rparr>))
      | _ \<Rightarrow> None)"
| "q_exec (C_store i) s =
     (case conss s i of
        CStore task next_head \<Rightarrow>
          Some (s\<lparr>ring := (ring s)\<lparr>q_head := next_head\<rparr>, conss := (conss s)(i := CIdle)\<rparr>)
      | _ \<Rightarrow> None)"

fun q_actions :: "'a action list \<Rightarrow> 'a shared \<Rightarrow> 'a shared option" where
  "q_actions [] s = Some s"
| "q_actions (a # as) s = (case q_exec a s of None \<Rightarrow> None | Some s' \<Rightarrow> q_actions as s')"

definition idle_system :: "'a lfq \<Rightarrow> 'a shared" where
  "idle_system q = \<lparr>ring = q, prods = (\<lambda>_. PIdle), conss = (\<lambda>_. CIdle),
                    enq_log = [], deq_log = []\<rparr>"

fun producer_of :: "'a action \<Rightarrow> nat option" where
  "producer_of (P_begin i _) = Some i"
| "producer_of (P_load_tail i) = Some i"
| "producer_of (P_cas i _) = Some i"
| "producer_of (P_store i) = Some i"
| "producer_of _ = None"

fun consumer_of :: "'a action \<Rightarrow> nat option" where
  "consumer_of (C_begin i) = Some i"
| "consumer_of (C_load_tail i) = Some i"
| "consumer_of (C_load_slot i) = Some i"
| "consumer_of (C_cas i _) = Some i"
| "consumer_of (C_store i) = Some i"
| "consumer_of _ = None"

text \<open>The states reachable with one producer thread and one consumer thread, both numbered 0.\<close>

inductive spsc_reach :: "'a lfq \<Rightarrow> 'a shared \<Rightarrow> bool" for q where
  start: "spsc_reach q (idle_system q)"
| act: "spsc_reach q s \<Longrightarrow> producer_of a \<in> {None, Some 0} \<Longrightarrow> consumer_of a \<in> {None, Some 0} \<Longrightarrow>
    q_exec a s = Some s' \<Longrightarrow> spsc_reach q s'"

subsection \<open>The invariant of one producer and one consumer\<close>

text \<open>
  The view is the queue in which claims already made count as done: the tail is moved past a slot
  that the producer has filled, the head past a slot that the consumer has emptied. The view
  satisfies the sequential ring invariant at every moment.
\<close>

fun claimed_tail :: "'a prod_pc \<Rightarrow> size_t \<Rightarrow> size_t" where
  "claimed_tail (PStore _ nt) t = nt"
| "claimed_tail _ t = t"

fun claimed_head :: "'a cons_pc \<Rightarrow> size_t \<Rightarrow> size_t" where
  "claimed_head (CStore _ nh) h = nh"
| "claimed_head _ h = h"

definition view :: "'a shared \<Rightarrow> 'a lfq" where
  "view s = (ring s)\<lparr>q_head := claimed_head (conss s 0) (q_head (ring s)),
                     q_tail := claimed_tail (prods s 0) (q_tail (ring s))\<rparr>"

definition dist :: "size_t \<Rightarrow> size_t \<Rightarrow> size_t \<Rightarrow> nat" where
  "dist n a b = (unat b + unat n - unat a) mod unat n"

text \<open>How far the head and the tail in memory are behind the claims.\<close>

fun tail_lag :: "'a prod_pc \<Rightarrow> nat" where
  "tail_lag (PStore _ _) = 1"
| "tail_lag _ = 0"

fun head_lag :: "'a cons_pc \<Rightarrow> nat" where
  "head_lag (CStore _ _) = 1"
| "head_lag _ = 0"

text \<open>
  What a thread still knows of the values it has loaded: the producer's head may be stale, but then
  it is farther from the tail than the head in memory; the consumer's head is current.
\<close>

fun prod_ok :: "'a lfq \<Rightarrow> size_t \<Rightarrow> 'a prod_pc \<Rightarrow> bool" where
  "prod_ok q vt (PHead _ h) \<longleftrightarrow> unat h < unat (q_capacity q) \<and>
     dist (q_capacity q) (q_head q) vt \<le> dist (q_capacity q) h vt"
| "prod_ok q vt (PTail _ h t) \<longleftrightarrow> unat h < unat (q_capacity q) \<and> t = q_tail q \<and>
     dist (q_capacity q) (q_head q) vt \<le> dist (q_capacity q) h vt"
| "prod_ok q vt _ \<longleftrightarrow> True"

fun cons_ok :: "'a lfq \<Rightarrow> 'a cons_pc \<Rightarrow> bool" where
  "cons_ok q (CHead h) \<longleftrightarrow> h = q_head q"
| "cons_ok q (CTail h t) \<longleftrightarrow> h = q_head q \<and> 0 < dist (q_capacity q) h (q_tail q)"
| "cons_ok q (CTask h x) \<longleftrightarrow> h = q_head q \<and> 0 < dist (q_capacity q) h (q_tail q) \<and>
     q_buffer q (unat h) = Some x"
| "cons_ok q _ \<longleftrightarrow> True"

definition spsc_inv :: "'a lfq \<Rightarrow> 'a shared \<Rightarrow> bool" where
  "spsc_inv q s \<longleftrightarrow> q_inv (view s) \<and> q_list q @ enq_log s = deq_log s @ q_list (view s) \<and>
     q_capacity (ring s) = q_capacity q \<and>
     unat (q_head (ring s)) < unat (q_capacity q) \<and>
     unat (q_tail (ring s)) < unat (q_capacity q) \<and>
     dist (q_capacity q) (q_head (ring s)) (q_tail (view s)) =
       q_len (view s) + head_lag (conss s 0) \<and>
     q_len (view s) = dist (q_capacity q) (q_head (view s)) (q_tail (ring s)) + tail_lag (prods s 0) \<and>
     prod_ok (ring s) (q_tail (view s)) (prods s 0) \<and> cons_ok (ring s) (conss s 0)"

lemma spsc_invD:
  assumes "spsc_inv q s"
  shows "q_inv (view s)" "q_list q @ enq_log s = deq_log s @ q_list (view s)"
    "q_capacity (ring s) = q_capacity q"
    "unat (q_head (ring s)) < unat (q_capacity q)"
    "unat (q_tail (ring s)) < unat (q_capacity q)"
    "dist (q_capacity q) (q_head (ring s)) (q_tail (view s)) = q_len (view s) + head_lag (conss s 0)"
    "q_len (view s) = dist (q_capacity q) (q_head (view s)) (q_tail (ring s)) + tail_lag (prods s 0)"
    "prod_ok (ring s) (q_tail (view s)) (prods s 0)" "cons_ok (ring s) (conss s 0)"
  using assms by (simp_all add: spsc_inv_def)

lemma q_len_dist: "q_len q = dist (q_capacity q) (q_head q) (q_tail q)"
  by (simp add: q_len_def dist_def)

lemma dist_zero_iff:
  "unat a < unat n \<Longrightarrow> unat b < unat n \<Longrightarrow> dist n a b = 0 \<longleftrightarrow> a = b"
  unfolding dist_def by (subst ring_len_zero_iff) (auto simp: unat_inject)

lemma spsc_inv_start: "q_inv q \<Longrightarrow> spsc_inv q (idle_system q)"
  using q_invD(4,5) [of q]
  by (simp add: spsc_inv_def idle_system_def view_def q_len_dist)

text \<open>Actions that neither write the ring nor claim a slot.\<close>

lemma spsc_P_begin:
  assumes inv: "spsc_inv q s" and step: "q_exec (P_begin 0 x) s = Some s'"
  shows "spsc_inv q s'"
proof -
  from step have pc: "prods s 0 = PIdle"
    and s': "s' = s\<lparr>prods := (prods s)(0 := PHead x (q_head (ring s)))\<rparr>"
    by (auto split: prod_pc.splits)
  have "view s' = view s" by (simp add: view_def s' pc)
  with inv show ?thesis by (auto simp: spsc_inv_def s' pc)
qed

lemma spsc_P_load_tail:
  assumes inv: "spsc_inv q s" and step: "q_exec (P_load_tail 0) s = Some s'"
  shows "spsc_inv q s'"
proof -
  from step obtain x h where pc: "prods s 0 = PHead x h"
    and s': "s' = s\<lparr>prods := (prods s)(0 := PTail x h (q_tail (ring s)))\<rparr>"
    by (auto split: prod_pc.splits)
  have "view s' = view s" by (simp add: view_def s' pc)
  with inv show ?thesis by (auto simp: spsc_inv_def s' pc)
qed

lemma spsc_C_begin:
  assumes inv: "spsc_inv q s" and step: "q_exec (C_begin 0) s = Some s'"
  shows "spsc_inv q s'"
proof -
  from step have pc: "conss s 0 = CIdle"
    and s': "s' = s\<lparr>conss := (conss s)(0 := CHead (q_head (ring s)))\<rparr>"
    by (auto split: cons_pc.splits)
  have "view s' = view s" by (simp add: view_def s' pc)
  with inv show ?thesis by (auto simp: spsc_inv_def s' pc)
qed

lemma spsc_C_load_tail:
  assumes inv: "spsc_inv q s" and step: "q_exec (C_load_tail 0) s = Some s'"
  shows "spsc_inv q s'"
proof -
  from step obtain h where pc: "conss s 0 = CHead h"
    and s': "s' = s\<lparr>conss := (conss s)(0 := if h = q_tail (ring s) then CIdle
                        else CTail h (q_tail (ring s)))\<rparr>"
    by (auto simp: Let_def split: cons_pc.splits if_splits)
  have h: "h = q_head (ring s)" "unat h < unat (q_capacity q)"
    "unat (q_tail (ring s)) < unat (q_capacity q)"
    using inv by (auto simp: spsc_inv_def pc)
  have "view s' = view s" by (simp add: view_def s' pc)
  with inv dist_zero_iff [OF h(2,3)] show ?thesis by (auto simp: spsc_inv_def s' pc h(1))
qed

text \<open>Both loads of the consumer are current, so it never finds an empty slot or loses a race.\<close>

lemma spsc_C_load_slot:
  assumes inv: "spsc_inv q s" and step: "q_exec (C_load_slot 0) s = Some s'"
  shows "spsc_inv q s'"
proof -
  from step obtain h t where pc: "conss s 0 = CTail h t" by (auto split: cons_pc.splits)
  have h: "h = q_head (ring s)" "0 < q_len (view s)" and vinv: "q_inv (view s)"
    using inv by (auto simp: spsc_inv_def pc view_def)
  have m: "unat (h AND q_mask (ring s)) = unat h"
    using unat_head_mask [OF vinv] by (simp add: view_def pc h(1))
  have "q_buffer (ring s) (unat h) \<noteq> None"
    using buffer_head [OF vinv] q_invD(6) [OF vinv, of 0] q_len_less [OF vinv] h
    by (simp add: view_def pc)
  then obtain x where x: "q_buffer (ring s) (unat h) = Some x" by blast
  with step pc m have s': "s' = s\<lparr>conss := (conss s)(0 := CTask h x)\<rparr>" by simp
  have "view s' = view s" by (simp add: view_def s' pc)
  with inv x show ?thesis by (auto simp: spsc_inv_def s' pc)
qed

lemma spsc_C_cas:
  assumes inv: "spsc_inv q s" and step: "q_exec (C_cas 0 cas) s = Some s'"
  shows "spsc_inv q s'"
proof -
  from step obtain h x where pc: "conss s 0 = CTask h x" by (auto split: cons_pc.splits)
  have h: "h = q_head (ring s)" "q_buffer (ring s) (unat h) = Some x"
    "0 < dist (q_capacity q) h (q_tail (ring s))" and vinv: "q_inv (view s)"
    and cap: "q_capacity (ring s) = q_capacity q"
    using inv by (auto simp: spsc_inv_def pc)
  have m: "unat (h AND q_mask (ring s)) = unat h"
    using unat_head_mask [OF vinv] by (simp add: view_def pc h(1))
  show ?thesis
  proof (cases cas)
    case False
    with step pc have s': "s' = s\<lparr>conss := (conss s)(0 := CIdle)\<rparr>" by simp
    have "view s' = view s" by (simp add: view_def s' pc)
    with inv show ?thesis by (auto simp: spsc_inv_def s' pc)
  next
    case True
    let ?nh = "(h + 1) AND q_mask (ring s)"
    let ?r = "(ring s)\<lparr>q_buffer := (q_buffer (ring s))(unat h := None)\<rparr>"
    from True step pc m h(2) have s': "s' = s\<lparr>ring := ?r,
        conss := (conss s)(0 := CStore x ?nh), deq_log := deq_log s @ [x]\<rparr>"
      by (simp add: Let_def)
    have view': "view s' = (view s)\<lparr>q_buffer := (q_buffer (view s))(unat (q_head (view s)) := None),
        q_head := (q_head (view s) + 1) AND q_mask (view s)\<rparr>"
      by (simp add: view_def s' pc h(1))
    have some: "0 < q_len (view s)" using inv h by (auto simp: spsc_inv_def view_def pc)
    note deqd = dequeue_state [OF vinv some view']
    have x: "the (q_slot (view s) 0) = x"
      using buffer_head [OF vinv] h by (simp add: view_def pc)
    have len: "q_len (view s) = Suc (q_len (view s'))"
      using arg_cong [OF deqd(2), of length] by simp
    have "unat h < unat (q_capacity q)" "unat (q_tail (ring s)) < unat (q_capacity q)"
      using inv h(1) by (auto simp: spsc_inv_def)
    moreover have "unat ?nh = Suc (unat h) mod unat (q_capacity q)"
      using unat_head_succ [OF vinv] cap by (simp add: view_def pc h(1))
    ultimately have d: "dist (q_capacity q) ?nh (q_tail (ring s)) =
        dist (q_capacity q) h (q_tail (ring s)) - 1"
      using h(3) unfolding dist_def
      by (simp only:) (rule ring_len_deq, auto)
    have s'_sel: "enq_log s' = enq_log s" "deq_log s' = deq_log s @ [x]"
      "q_capacity (ring s') = q_capacity q" "q_head (ring s') = h" "q_tail (ring s') = q_tail (ring s)"
      "prods s' = prods s" "conss s' 0 = CStore x ?nh" "q_head (view s') = ?nh"
      "q_tail (view s') = q_tail (view s)"
      by (simp_all add: s' view_def h(1) cap)
    have lag: "head_lag (conss s 0) = 0" "q_head (view s) = h" by (simp_all add: pc view_def h(1))
    have prod: "prod_ok (ring s') (q_tail (view s)) (prods s 0)"
      using spsc_invD(8) [OF inv] by (cases "prods s 0") (simp_all add: s' )
    show ?thesis
      unfolding spsc_inv_def s'_sel
      using spsc_invD [OF inv] deqd len d h prod lag x by simp
  qed
qed

lemma spsc_C_store:
  assumes inv: "spsc_inv q s" and step: "q_exec (C_store 0) s = Some s'"
  shows "spsc_inv q s'"
proof -
  from step obtain x nh where pc: "conss s 0 = CStore x nh"
    and s': "s' = s\<lparr>ring := (ring s)\<lparr>q_head := nh\<rparr>, conss := (conss s)(0 := CIdle)\<rparr>"
    by (auto split: cons_pc.splits)
  have view: "view s' = view s" and hv: "q_head (view s) = nh" and cap: "q_capacity (view s) = q_capacity q"
    using spsc_invD(3) [OF inv] by (simp_all add: view_def s' pc)
  have d: "dist (q_capacity q) nh (q_tail (view s)) = q_len (view s)"
    using q_len_dist [of "view s"] hv cap by simp
  have "prod_ok (ring s') (q_tail (view s)) (prods s 0)"
    using spsc_invD(3,6,8) [OF inv] d by (cases "prods s 0") (simp_all add: s' pc)
  moreover have "unat nh < unat (q_capacity q)"
    using q_invD(4) [OF spsc_invD(1) [OF inv]] hv cap by simp
  ultimately show ?thesis
    unfolding spsc_inv_def view using spsc_invD [OF inv] d by (simp add: s' pc)
qed

lemma spsc_P_store:
  assumes inv: "spsc_inv q s" and step: "q_exec (P_store 0) s = Some s'"
  shows "spsc_inv q s'"
proof -
  from step obtain x nt where pc: "prods s 0 = PStore x nt"
    and s': "s' = s\<lparr>ring := (ring s)\<lparr>q_tail := nt\<rparr>, prods := (prods s)(0 := PIdle)\<rparr>"
    by (auto split: prod_pc.splits)
  have view: "view s' = view s" and tv: "q_tail (view s) = nt" and cap: "q_capacity (view s) = q_capacity q"
    using spsc_invD(3) [OF inv] by (simp_all add: view_def s' pc)
  have d: "q_len (view s) = dist (q_capacity q) (q_head (view s)) nt"
    using q_len_dist [of "view s"] tv cap by simp
  have more: "0 < dist (q_capacity q) (q_head (view s)) (q_tail (ring s)) \<Longrightarrow> 0 < q_len (view s)"
    using spsc_invD(7) [OF inv] by simp
  have "cons_ok (ring s') (conss s 0)"
    using spsc_invD(3,9) [OF inv] more unfolding d
    by (cases "conss s 0") (simp_all add: s' view_def)
  moreover have "unat nt < unat (q_capacity q)"
    using q_invD(5) [OF spsc_invD(1) [OF inv]] tv cap by simp
  ultimately show ?thesis
    unfolding spsc_inv_def view using spsc_invD [OF inv] d by (simp add: s')
qed

lemma spsc_P_cas:
  assumes inv: "spsc_inv q s" and step: "q_exec (P_cas 0 cas) s = Some s'"
  shows "spsc_inv q s'"
proof -
  from step obtain x h t where pc: "prods s 0 = PTail x h t" by (auto split: prod_pc.splits)
  note I = spsc_invD [OF inv]
  have h: "unat h < unat (q_capacity q)" "t = q_tail (ring s)"
    "dist (q_capacity q) (q_head (ring s)) t \<le> dist (q_capacity q) h t"
    and tv: "q_tail (view s) = t"
    using I(8) I(3) by (auto simp: pc view_def)
  have cap: "q_capacity (view s) = q_capacity q" "q_mask (view s) = q_mask (ring s)"
    using I(3) by (simp_all add: view_def)
  let ?nt = "(t + 1) AND q_mask (ring s)"
  show ?thesis
  proof (cases "?nt \<noteq> h AND q_mask (ring s) \<and> cas \<and> q_buffer (ring s) (unat t) = None")
    case False
    with step pc have s': "s' = s\<lparr>prods := (prods s)(0 := PIdle)\<rparr>"
      by (auto simp: Let_def split: if_splits)
    have "view s' = view s" by (simp add: view_def s' pc)
    with I show ?thesis by (simp add: spsc_inv_def s' pc)
  next
    case True
    let ?r = "(ring s)\<lparr>q_buffer := (q_buffer (ring s))(unat t := Some x)\<rparr>"
    from True step pc have s': "s' = s\<lparr>ring := ?r, prods := (prods s)(0 := PStore x ?nt),
        enq_log := enq_log s @ [x]\<rparr>"
      by (auto simp: Let_def)
    have view': "view s' = (view s)\<lparr>q_buffer := (q_buffer (view s))(unat (q_tail (view s)) := Some x),
        q_tail := (q_tail (view s) + 1) AND q_mask (view s)\<rparr>"
      by (simp add: view_def s' pc h(2))
    have nt: "unat ?nt = Suc (unat t) mod unat (q_capacity q)"
      using unat_tail_succ [OF I(1)] tv cap by simp
    have hm: "unat (h AND q_mask (ring s)) = unat h"
      using q_invD(1-3) [OF I(1)] cap h(1) by (simp add: unat_and_mask_mod)
    have t: "unat t < unat (q_capacity q)" using I(5) h(2) by simp
    have "Suc (unat t) mod unat (q_capacity q) \<noteq> unat h"
      using True nt hm by (metis unat_inject)
    then have "Suc (dist (q_capacity q) h t) \<noteq> unat (q_capacity q)"
      unfolding dist_def using ring_full_iff [OF h(1) t] by simp
    moreover have "dist (q_capacity q) h t < unat (q_capacity q)"
      unfolding dist_def by (rule ring_len_less [OF h(1)])
    ultimately have room: "Suc (dist (q_capacity q) h t) < unat (q_capacity q)" by simp
    have step_dist: "dist (q_capacity q) a ?nt = Suc (dist (q_capacity q) a t)"
      if "unat a < unat (q_capacity q)" "dist (q_capacity q) a t \<le> dist (q_capacity q) h t" for a
      using that room ring_len_enq [OF that(1) t] unfolding dist_def nt by simp
    have len_le: "q_len (view s) \<le> dist (q_capacity q) h t"
      using I(6) h(3) tv by simp
    then have "q_len (view s) < q_bound (view s)" using room cap by (simp add: q_bound_def)
    note enqd = enqueue_state [OF I(1) this view']
    have len: "q_len (view s') = Suc (q_len (view s))"
      using arg_cong [OF enqd(2), of length] by simp
    have s'_sel: "enq_log s' = enq_log s @ [x]" "deq_log s' = deq_log s"
      "q_capacity (ring s') = q_capacity q" "q_head (ring s') = q_head (ring s)"
      "q_tail (ring s') = t" "prods s' 0 = PStore x ?nt" "conss s' = conss s"
      "q_head (view s') = q_head (view s)" "q_tail (view s') = ?nt"
      using I(3) by (simp_all add: s' view_def h(2))
    have "cons_ok (ring s') (conss s 0)"
      using I(9) True by (cases "conss s 0") (auto simp: s')
    then show ?thesis
      unfolding spsc_inv_def s'_sel
      using I enqd len step_dist [OF I(4) h(3)] tv by (simp add: pc h(2))
  qed
qed

lemma spsc_inv_step:
  assumes "spsc_inv q s" and "q_exec a s = Some s'"
    and "producer_of a \<in> {None, Some 0}" "consumer_of a \<in> {None, Some 0}"
  shows "spsc_inv q s'"
  using assms
  by (cases a) (auto simp del: q_exec.simps intro: spsc_P_begin spsc_P_load_tail spsc_P_cas spsc_P_store
      spsc_C_begin spsc_C_load_tail spsc_C_load_slot spsc_C_cas spsc_C_store)

lemma spsc_reach_inv:
  assumes "spsc_reach q s" and "q_inv q"
  shows "spsc_inv q s"
  using assms
  by (induction rule: spsc_reach.induct) (auto intro: spsc_inv_start spsc_inv_step)

lemma spsc_run_reach:
  assumes "spsc_reach q s" and "q_actions as s = Some s'"
    and "list_all (\<lambda>a. producer_of a \<in> {None, Some 0} \<and> consumer_of a \<in> {None, Some 0}) as"
  shows "spsc_reach q s'"
  using assms
  by (induction as arbitrary: s) (auto split: option.splits intro: spsc_reach.act)

text \<open>C4. With one producer and one consumer the queue is FIFO under every interleaving of their
  memory accesses: the tasks taken out, followed by the tasks still in the queue, are exactly the
  initial content followed by the tasks put in, in order; nothing is lost, duplicated or reordered.
  When both threads are between calls, the ring in memory itself satisfies the ring invariant.\<close>

theorem spsc_fifo:
  assumes "spsc_reach q s" and "q_inv q"
  shows "q_list q @ enq_log s = deq_log s @ q_list (view s) \<and>
    (prods s 0 = PIdle \<and> conss s 0 = CIdle \<longrightarrow> view s = ring s \<and> q_inv (ring s))"
  using spsc_invD(1,2) [OF spsc_reach_inv [OF assms]]
  by (auto simp: view_def)

theorem spsc_fifo_witness:
  "\<exists>s. q_actions [P_begin 0 5, C_begin 0, P_load_tail 0, P_cas 0 True, P_store 0, C_load_tail 0,
         P_begin 0 6, C_load_slot 0, P_load_tail 0, P_cas 0 True, C_cas 0 True, P_store 0]
       (idle_system ring4) = Some s \<and> enq_log s = [5, 6] \<and> deq_log s = [5] \<and> q_list (view s) = [6]"
proof -
  let ?as = "[P_begin 0 5, C_begin 0, P_load_tail 0, P_cas 0 True, P_store 0, C_load_tail 0,
         P_begin 0 6, C_load_slot 0, P_load_tail 0, P_cas 0 True, C_cas 0 True, P_store 0]"
  obtain s where s: "q_actions ?as (idle_system ring4) = Some s" "enq_log s = [5, 6]" "deq_log s = [5]"
    by (simp add: idle_system_def ring4_def Let_def)
  have "spsc_reach ring4 s" by (rule spsc_run_reach [OF spsc_reach.start s(1)]) simp
  from spsc_fifo [OF this ring4_ok(1)] s show ?thesis by (auto simp: ring4_ok)
qed

subsection \<open>Two producers\<close>

text \<open>
  A producer that has loaded head and tail and is then overtaken by a full round of the same slot
  (filled by another producer, emptied by the consumer) still succeeds with its CAS, because the slot
  is null again, and then moves the tail back.
\<close>

definition overtaken_producer :: "nat action list" where
  "overtaken_producer =
     [P_begin 1 2, P_load_tail 1,
      P_begin 0 1, P_load_tail 0, P_cas 0 True, P_store 0,
      C_begin 0, C_load_tail 0, C_load_slot 0, C_cas 0 True, C_store 0,
      P_begin 0 3, P_load_tail 0, P_cas 0 True, P_store 0,
      P_cas 1 True, P_store 1]"

fun refused :: "'a queue_op \<Rightarrow> 'a queue_res" where
  "refused (EnqOp _ _) = EnqRes False"
| "refused (DeqOp _) = DeqRes None"

lemma occupied_tail_refuses:
  assumes "q_head q = q_tail q" "q_buffer q (unat (q_tail q)) \<noteq> None"
  shows "run_queue try_enqueue try_dequeue q ops = (q, map refused ops)"
proof (induction ops)
  case Nil
  then show ?case by simp
next
  case (Cons op ops)
  with assms show ?case
    by (cases op) (auto simp: try_enqueue_def try_dequeue_def Let_def)
qed

text \<open>C27. With two producers the queue loses tasks and stops working. After the run
  \<open>overtaken_producer\<close> on a new queue of capacity four, three calls of \<open>try_enqueue\<close> have returned
  true and one task has been dequeued; all threads are idle, yet the queue reports that it is empty,
  and from then on every \<open>try_enqueue\<close> fails and every \<open>try_dequeue\<close> returns null.\<close>

theorem two_producers_lose_tasks:
  "\<exists>s. q_actions overtaken_producer (idle_system ring4) = Some s \<and>
    (\<forall>i. prods s i = PIdle \<and> conss s i = CIdle) \<and>
    enq_log s = [1, 3, 2] \<and> deq_log s = [1] \<and> lfq_empty (ring s) \<and>
    (\<forall>ops. run_queue try_enqueue try_dequeue (ring s) ops = (ring s, map refused ops))"
proof -
  obtain s where s: "q_actions overtaken_producer (idle_system ring4) = Some s"
    "\<forall>i. prods s i = PIdle \<and> conss s i = CIdle" "enq_log s = [1, 3, 2]" "deq_log s = [1]"
    "q_head (ring s) = q_tail (ring s)" "q_buffer (ring s) (unat (q_tail (ring s))) \<noteq> None"
    by (simp add: overtaken_producer_def idle_system_def ring4_def Let_def)
  with occupied_tail_refuses [OF s(5,6)] show ?thesis
    by (auto simp: lfq_empty_def)
qed

end
