(* ===== verification/Task.thy ===== *)
theory Task
  imports Prelude
begin

section \<open>Tasks\<close>

text \<open>
  \<open>Task\<close>, \<open>TaskOptions\<close>, \<open>TaskStatus\<close> and \<open>TaskPriority\<close> of
  \<open>include/task_engine/task.hpp\<close>. A task is a record of the members of the class; an atomic member
  is a plain field. The task function is user code: the field \<open>t_func\<close> gives the outcome of its
  call in the n-th attempt, so that a closure with its own state is covered. Callbacks are closures
  of the library or of the user and are kept as data, because those of TaskExecutor change the
  executor's state. Pointers to other tasks are numbers (\<open>task_ptr\<close>); the store that they point
  into is part of the dependency graph.
\<close>

datatype task_status = Pending | Ready | Running | Completed | Failed | Cancelled

datatype task_priority = Low | Normal | High | Critical

definition priority_index :: "task_priority \<Rightarrow> nat" where
  "priority_index p = (case p of Low \<Rightarrow> 0 | Normal \<Rightarrow> 1 | High \<Rightarrow> 2 | Critical \<Rightarrow> 3)"

lemma priority_index_less: "priority_index p < 4"
  by (cases p) (simp_all add: priority_index_def)

lemma priority_index_inject: "priority_index p = priority_index q \<longleftrightarrow> p = q"
  by (cases p; cases q) (simp_all add: priority_index_def)

instantiation task_priority :: linorder
begin

definition less_eq_task_priority :: "task_priority \<Rightarrow> task_priority \<Rightarrow> bool" where
  "less_eq_task_priority p q \<longleftrightarrow> priority_index p \<le> priority_index q"

definition less_task_priority :: "task_priority \<Rightarrow> task_priority \<Rightarrow> bool" where
  "less_task_priority p q \<longleftrightarrow> priority_index p < priority_index q"

instance
  by standard (auto simp: less_eq_task_priority_def less_task_priority_def priority_index_inject)

end

record task_options =
  opt_priority :: task_priority
  opt_max_retries :: size_t
  opt_timeout :: int              \<comment> \<open>microseconds\<close>
  opt_deadline :: "time option"
  opt_category :: string
  opt_track_metrics :: bool

definition default_options :: task_options where
  "default_options = \<lparr>opt_priority = Normal, opt_max_retries = 0, opt_timeout = 0,
     opt_deadline = None, opt_category = '''', opt_track_metrics = True\<rparr>"

text \<open>A user callback returns (\<open>None\<close>) or throws.\<close>

type_synonym user_callback = "any \<Rightarrow> exn option"
type_synonym promise_id = nat

text \<open>
  The callback of a submission: none, the user's own, or the wrapper that \<open>submit_async\<close> builds
  around a promise and the user's callback. The callback of a task: set by its user directly, or
  the closure of \<open>TaskExecutor::submit_internal\<close>, which holds the task id, a weak pointer to the
  task and the submission's callback.
\<close>

datatype submission_callback =
    NoCallback
  | UserCallback user_callback
  | AsyncCallback promise_id "user_callback option"

datatype task_callback =
    DirectCallback user_callback
  | ExecutorCallback task_id task_ptr submission_callback

record task =
  t_id :: task_id
  t_name :: string
  t_func :: "nat \<Rightarrow> exn + any"
  t_status :: task_status
  t_dependencies :: "task_ptr list"
  t_dependents :: "task_ptr list"
  t_dependencies_count :: int
  t_options :: task_options
  t_metadata :: "string \<rightharpoonup> string"
  t_cancelled :: bool
  t_enqueued :: bool
  t_attempts :: size_t
  t_callback :: "task_callback option"
  t_created_time :: time
  t_start_time :: "time option"
  t_end_time :: "time option"
  t_last_scheduled_time :: "time option"

definition new_task ::
  "task_id \<Rightarrow> (nat \<Rightarrow> exn + any) \<Rightarrow> string \<Rightarrow> task_options \<Rightarrow> time \<Rightarrow> task" where
  "new_task tid func name options now =
     \<lparr>t_id = tid,
      t_name = (if name = [] then ''Task_'' @ to_string tid else name),
      t_func = func, t_status = Pending, t_dependencies = [], t_dependents = [],
      t_dependencies_count = 0, t_options = options, t_metadata = Map.empty,
      t_cancelled = False, t_enqueued = False, t_attempts = 0, t_callback = None,
      t_created_time = now, t_start_time = None, t_end_time = None,
      t_last_scheduled_time = None\<rparr>"

subsection \<open>Execution\<close>

text \<open>The clock readings of one call of \<open>execute\<close>, in program order.\<close>

record exec_clock =
  c_start :: time
  c_check :: time
  c_finish :: time
  c_catch :: time

text \<open>
  \<open>execute\<close> in two parts, since other threads can act on the task while the user's function runs:
  up to the stores before the \<open>try\<close> block, and from there to the return or throw.
\<close>

definition execute_begin :: "time \<Rightarrow> task \<Rightarrow> (task \<times> exn) + task" where
  "execute_begin now t =
     (if t_cancelled t
      then Inl (t\<lparr>t_status := Cancelled\<rparr>, RuntimeError ''Task cancelled prior to execution'')
      else Inr (t\<lparr>t_status := Running, t_start_time := Some now, t_attempts := t_attempts t + 1,
                  t_last_scheduled_time := Some now\<rparr>))"

definition execute_try :: "exec_clock \<Rightarrow> task \<Rightarrow> task \<times> (exn + any)" where
  "execute_try c t =
     (if (case opt_deadline (t_options t) of None \<Rightarrow> False | Some d \<Rightarrow> d < c_check c)
      then (t\<lparr>t_status := Failed\<rparr>, Inl (RuntimeError ''Task deadline exceeded before execution''))
      else (case t_func t (unat (t_attempts t)) of
              Inl e \<Rightarrow> (t, Inl e)
            | Inr result \<Rightarrow>
                (let t = t\<lparr>t_end_time := Some (c_finish c)\<rparr> in
                 if 0 < opt_timeout (t_options t) \<and>
                    opt_timeout (t_options t) * 1000 < c_finish c - the (t_start_time t)
                 then (t\<lparr>t_status := Failed\<rparr>,
                       Inl (RuntimeError ''Task exceeded configured timeout''))
                 else (t\<lparr>t_status := Completed\<rparr>, Inr result))))"

definition execute_end :: "exec_clock \<Rightarrow> task \<Rightarrow> task \<times> (exn + any)" where
  "execute_end c t =
     (case execute_try c t of
        (t', Inr result) \<Rightarrow> (t', Inr result)
      | (t', Inl e) \<Rightarrow> (t'\<lparr>t_status := Failed, t_end_time := Some (c_catch c)\<rparr>, Inl e))"

definition execute :: "exec_clock \<Rightarrow> task \<Rightarrow> task \<times> (exn + any)" where
  "execute c t =
     (case execute_begin (c_start c) t of
        Inl (t', e) \<Rightarrow> (t', Inl e)
      | Inr t' \<Rightarrow> execute_end c t')"

subsection \<open>Dependencies, readiness, cancellation and retries\<close>

definition notify_dependency_completed :: "task \<Rightarrow> task" where
  "notify_dependency_completed t =
     (let remaining = t_dependencies_count t - 1;
          t = t\<lparr>t_dependencies_count := remaining\<rparr>
      in if remaining = 0 then t\<lparr>t_status := Ready\<rparr> else t)"

definition is_ready :: "task \<Rightarrow> bool" where
  "is_ready t \<longleftrightarrow> t_dependencies_count t = 0 \<and>
     (t_status t = Pending \<or> t_status t = Ready) \<and> \<not> t_enqueued t"

definition try_mark_enqueued :: "task \<Rightarrow> task \<times> bool" where
  "try_mark_enqueued t = (if t_enqueued t then (t, False) else (t\<lparr>t_enqueued := True\<rparr>, True))"

definition clear_enqueued_flag :: "task \<Rightarrow> task" where
  "clear_enqueued_flag t = t\<lparr>t_enqueued := False\<rparr>"

definition can_retry :: "task \<Rightarrow> bool" where
  "can_retry t =
     (if t_cancelled t then False
      else if opt_max_retries (t_options t) = 0 then False
      else (let retries_used = (if t_attempts t > 0 then t_attempts t - 1 else 0)
            in retries_used < opt_max_retries (t_options t)))"

definition task_cancel :: "task \<Rightarrow> task \<times> bool" where
  "task_cancel t =
     (if t_cancelled t then (t, False)
      else (t\<lparr>t_cancelled := True, t_status := Cancelled\<rparr>, True))"

definition reset_for_retry :: "task \<Rightarrow> task" where
  "reset_for_retry t =
     clear_enqueued_flag (t\<lparr>t_status := Pending, t_start_time := None, t_end_time := None\<rparr>)"

subsection \<open>Times, callbacks and annotations\<close>

definition execution_time :: "task \<Rightarrow> int" where
  "execution_time t =
     (case (t_end_time t, t_start_time t) of
        (Some e, Some s) \<Rightarrow> trunc_div (e - s) 1000
      | _ \<Rightarrow> 0)"

definition deadline_passed :: "time \<Rightarrow> task \<Rightarrow> bool" where
  "deadline_passed now t \<longleftrightarrow> (case opt_deadline (t_options t) of None \<Rightarrow> False | Some d \<Rightarrow> d < now)"

definition set_deadline :: "time \<Rightarrow> task \<Rightarrow> task" where
  "set_deadline d t = t\<lparr>t_options := (t_options t)\<lparr>opt_deadline := Some d\<rparr>\<rparr>"

definition set_timeout :: "int \<Rightarrow> task \<Rightarrow> task" where
  "set_timeout us t = t\<lparr>t_options := (t_options t)\<lparr>opt_timeout := us\<rparr>\<rparr>"

definition set_priority :: "task_priority \<Rightarrow> task \<Rightarrow> task" where
  "set_priority p t = t\<lparr>t_options := (t_options t)\<lparr>opt_priority := p\<rparr>\<rparr>"

definition set_category :: "string \<Rightarrow> task \<Rightarrow> task" where
  "set_category c t = t\<lparr>t_options := (t_options t)\<lparr>opt_category := c\<rparr>\<rparr>"

definition set_callback :: "task_callback \<Rightarrow> task \<Rightarrow> task" where
  "set_callback c t = t\<lparr>t_callback := Some c\<rparr>"

definition annotate :: "string \<Rightarrow> string \<Rightarrow> task \<Rightarrow> task" where
  "annotate key value t = t\<lparr>t_metadata := (t_metadata t)(key \<mapsto> value)\<rparr>"

definition annotation :: "string \<Rightarrow> task \<Rightarrow> string option" where
  "annotation key t = t_metadata t key"

abbreviation t_priority :: "task \<Rightarrow> task_priority" where
  "t_priority t \<equiv> opt_priority (t_options t)"

abbreviation t_max_retries :: "task \<Rightarrow> size_t" where
  "t_max_retries t \<equiv> opt_max_retries (t_options t)"

definition terminal :: "task_status \<Rightarrow> bool" where
  "terminal st \<longleftrightarrow> st = Completed \<or> st = Failed \<or> st = Cancelled"

subsection \<open>What execution does\<close>

definition deadline_missed :: "exec_clock \<Rightarrow> task \<Rightarrow> bool" where
  "deadline_missed c t \<longleftrightarrow> deadline_passed (c_check c) t"

definition timed_out :: "exec_clock \<Rightarrow> task \<Rightarrow> bool" where
  "timed_out c t \<longleftrightarrow> 0 < opt_timeout (t_options t) \<and>
     opt_timeout (t_options t) * 1000 < c_finish c - c_start c"

text \<open>C20. \<open>execute\<close> returns the function's result exactly when the task was not cancelled before it
  started, its deadline had not passed when it was checked, its function returned in this attempt
  and it finished within its timeout. Every other case throws. The status afterwards is Completed
  for a return, Cancelled for a task cancelled before it started and Failed for every other throw;
  an attempt is counted, and start and end times are set, unless the task was cancelled.\<close>

theorem execute_outcome:
  assumes "execute c t = (t', r)"
  shows "(\<forall>x. r = Inr x \<longleftrightarrow> \<not> t_cancelled t \<and> \<not> deadline_missed c t \<and>
             t_func t (unat (t_attempts t + 1)) = Inr x \<and> \<not> timed_out c t) \<and>
    t_status t' = (case r of Inr _ \<Rightarrow> Completed
                   | Inl _ \<Rightarrow> if t_cancelled t then Cancelled else Failed) \<and>
    (if t_cancelled t then t' = t\<lparr>t_status := Cancelled\<rparr>
     else t_attempts t' = t_attempts t + 1 \<and> t_start_time t' = Some (c_start c) \<and>
          t_end_time t' = Some (case r of Inr _ \<Rightarrow> c_finish c | Inl _ \<Rightarrow> c_catch c))"
  using assms
  by (auto simp: execute_def execute_begin_def execute_end_def execute_try_def Let_def
      deadline_missed_def deadline_passed_def timed_out_def split: if_splits option.splits sum.splits)

theorem execute_outcome_witness:
  "\<exists>t'. execute \<lparr>c_start = 0, c_check = 1, c_finish = 3000001, c_catch = 3000002\<rparr>
       (set_timeout 1000 (new_task 42 (\<lambda>_. Inr (AnyInt 0)) ''AnnotatedTask'' default_options 0)) =
       (t', Inl (RuntimeError ''Task exceeded configured timeout'')) \<and> t_status t' = Failed"
proof -
  let ?c = "\<lparr>c_start = 0, c_check = 1, c_finish = 3000001, c_catch = 3000002\<rparr>"
  let ?t = "set_timeout 1000 (new_task 42 (\<lambda>_. Inr (AnyInt 0)) ''AnnotatedTask'' default_options 0)"
  obtain t' where run: "execute ?c ?t = (t', Inl (RuntimeError ''Task exceeded configured timeout''))"
    by (simp add: execute_def execute_begin_def execute_end_def execute_try_def Let_def new_task_def
        default_options_def set_timeout_def)
  from execute_outcome [OF run] run show ?thesis
    by (simp add: new_task_def set_timeout_def)
qed

text \<open>After at least one attempt, a retry is allowed exactly while the attempts made do not exceed
  \<open>max_retries\<close>; so at most \<open>max_retries + 1\<close> attempts are made.\<close>

lemma can_retry_iff:
  assumes "t_attempts t \<noteq> 0"
  shows "can_retry t \<longleftrightarrow> \<not> t_cancelled t \<and> unat (t_attempts t) \<le> unat (t_max_retries t)"
proof -
  have "unat (t_attempts t - 1) = unat (t_attempts t) - 1"
    using assms by (rule unat_minus_one)
  moreover have "1 \<le> unat (t_attempts t)" using assms unat_gt_0 [of "t_attempts t"] by linarith
  ultimately have used: "unat (t_attempts t - 1) < unat (t_max_retries t) \<longleftrightarrow>
      unat (t_attempts t) \<le> unat (t_max_retries t)" by linarith
  have "t_attempts t > 0" using assms by (simp add: word_gt_0)
  moreover have "t_max_retries t = 0 \<Longrightarrow> \<not> unat (t_attempts t) \<le> unat (t_max_retries t)"
    using \<open>1 \<le> unat (t_attempts t)\<close> by simp
  ultimately show ?thesis
    using used by (auto simp: can_retry_def Let_def word_less_nat_alt)
qed

lemma is_ready_notify:
  "is_ready (notify_dependency_completed t) \<longleftrightarrow> t_dependencies_count t = 1 \<and> \<not> t_enqueued t"
  if "t_dependencies_count t \<noteq> 0" and "t_status t = Pending \<or> t_status t = Ready"
  using that by (auto simp: is_ready_def notify_dependency_completed_def Let_def)

end
