(* ===== verification/Thread_Pool.thy ===== *)
theory Thread_Pool
  imports Task_Queue Task
begin

section \<open>The thread pool\<close>

text \<open>
  \<open>detail::PriorityQueueSet\<close> and \<open>ThreadPool\<close> of \<open>include/task_engine/thread_pool.hpp\<close>: four
  ring queues per set, one set per worker and a global one, submission to the next worker in turn
  with the global set as the fallback, and the search of a worker for its next task (its own set,
  the global set, then the sets of the other workers). Each queue operation is one step here. The
  flags \<open>cas\<close> say which compare-and-swaps may succeed, indexed by the set (the global set has the
  number of threads as its index) and the priority level.
\<close>

subsection \<open>Priority queue sets\<close>

type_synonym pqs = "task_ptr lfq list"

definition PriorityQueueSet :: "size_t \<Rightarrow> exn + pqs" where
  "PriorityQueueSet capacity_per_queue =
     (case LockFreeTaskQueue capacity_per_queue of
        Inl e \<Rightarrow> Inl e
      | Inr q \<Rightarrow> Inr [q, q, q, q])"

definition pqs_try_enqueue ::
  "bool \<Rightarrow> pqs \<Rightarrow> task_ptr \<Rightarrow> task_priority \<Rightarrow> pqs \<times> bool" where
  "pqs_try_enqueue cas s task priority =
     (case try_enqueue cas (s ! priority_index priority) task of
        (q', ok) \<Rightarrow> (s[priority_index priority := q'], ok))"

text \<open>\<open>obs\<close> gives the readings of the clock and the states of the one queue at each attempt.\<close>

definition pqs_wait_enqueue_for ::
  "time \<Rightarrow> (time \<times> task_ptr lfq \<times> bool) list \<Rightarrow> pqs \<Rightarrow> task_ptr \<Rightarrow> task_priority \<Rightarrow> time \<Rightarrow>
   (pqs \<times> bool) option" where
  "pqs_wait_enqueue_for now obs s task priority timeout =
     (case wait_enqueue_for now obs task timeout of
        Some (q', ok) \<Rightarrow> Some (s[priority_index priority := q'], ok)
      | None \<Rightarrow> None)"

definition try_dequeue_highest :: "(nat \<Rightarrow> bool) \<Rightarrow> pqs \<Rightarrow> pqs \<times> task_ptr option" where
  "try_dequeue_highest cas s = search try_dequeue cas s (rev [0..<length s])"

definition pqs_empty :: "pqs \<Rightarrow> bool" where
  "pqs_empty s \<longleftrightarrow> (\<forall>q \<in> set s. lfq_empty q)"

definition pqs_size :: "pqs \<Rightarrow> size_t" where
  "pqs_size s = sum_list (map lfq_size s)"

subsection \<open>The pool\<close>

text \<open>
  \<open>pl_waiting\<close> lists the calls of \<open>submit\<close> that found every queue full and are in its loop.
\<close>

record pool =
  pl_num_threads :: size_t
  pl_running :: bool
  pl_paused :: bool
  pl_next_worker :: size_t
  pl_global :: pqs
  pl_locals :: "pqs list"
  pl_waiting :: "(task_ptr \<times> task_priority) list"

definition ThreadPool :: "size_t \<Rightarrow> exn + pool" where
  "ThreadPool num_threads =
     (case PriorityQueueSet 2048 of Inl e \<Rightarrow> Inl e
      | Inr global \<Rightarrow>
          (case PriorityQueueSet 512 of Inl e \<Rightarrow> Inl e
           | Inr local \<Rightarrow>
               Inr \<lparr>pl_num_threads = num_threads, pl_running = True, pl_paused = False,
                    pl_next_worker = 0, pl_global = global,
                    pl_locals = replicate (unat num_threads) local, pl_waiting = []\<rparr>))"

text \<open>\<open>next_worker_++ % num_threads_\<close>: with no threads, a division by zero.\<close>

definition try_submit_to_local ::
  "bool \<Rightarrow> pool \<Rightarrow> task_ptr \<Rightarrow> task_priority \<Rightarrow> (pool \<times> bool) outcome" where
  "try_submit_to_local cas p task priority =
     (if pl_num_threads p = 0 then Undefined
      else (let target = unat (pl_next_worker p mod pl_num_threads p);
                p = p\<lparr>pl_next_worker := pl_next_worker p + 1\<rparr>
            in case pqs_try_enqueue cas (pl_locals p ! target) task priority of
                 (s', ok) \<Rightarrow> Return (p\<lparr>pl_locals := (pl_locals p)[target := s']\<rparr>, ok)))"

text \<open>
  One round of the loop of \<open>submit\<close>: try the global set, then wait on it for 50 microseconds
  (\<open>cas_wait\<close> says whether a CAS may succeed in that time), then leave if the pool was shut down.
\<close>

datatype round_result = Queued | Abandoned | Again

definition submit_round ::
  "bool \<Rightarrow> bool \<Rightarrow> pool \<Rightarrow> task_ptr \<Rightarrow> task_priority \<Rightarrow> pool \<times> round_result" where
  "submit_round cas cas_wait p task priority =
     (case pqs_try_enqueue cas (pl_global p) task priority of
        (g, ok) \<Rightarrow>
          if ok then (p\<lparr>pl_global := g\<rparr>, Queued)
          else (case pqs_try_enqueue cas_wait g task priority of
                  (g', ok') \<Rightarrow>
                    if \<not> ok' then (p\<lparr>pl_global := g'\<rparr>, if \<not> pl_running p then Abandoned else Again)
                    else (p\<lparr>pl_global := g'\<rparr>, Queued)))"

definition pool_submit ::
  "(bool \<times> bool \<times> bool) \<Rightarrow> pool \<Rightarrow> task_ptr \<Rightarrow> task_priority \<Rightarrow> pool outcome" where
  "pool_submit cas p task priority =
     (if \<not> pl_running p then Throw (RuntimeError ''ThreadPool is shutdown'')
      else (case try_submit_to_local (fst cas) p task priority of
              Return (p', ok) \<Rightarrow>
                if ok then Return p'
                else (case submit_round (fst (snd cas)) (snd (snd cas)) p' task priority of
                        (p'', Again) \<Rightarrow>
                          Return (p''\<lparr>pl_waiting := pl_waiting p'' @ [(task, priority)]\<rparr>)
                      | (p'', _) \<Rightarrow> Return p'')
            | Throw e \<Rightarrow> Throw e
            | Block \<Rightarrow> Block
            | Undefined \<Rightarrow> Undefined))"

text \<open>The k-th call in the loop goes through one more round.\<close>

definition waiting_round :: "bool \<Rightarrow> bool \<Rightarrow> nat \<Rightarrow> pool \<Rightarrow> pool" where
  "waiting_round cas cas_wait k p =
     (if k < length (pl_waiting p)
      then (case submit_round cas cas_wait p (fst (pl_waiting p ! k)) (snd (pl_waiting p ! k)) of
              (p', Again) \<Rightarrow> p'
            | (p', _) \<Rightarrow> p'\<lparr>pl_waiting := take k (pl_waiting p') @ drop (Suc k) (pl_waiting p')\<rparr>)
      else p)"

definition pool_try_submit ::
  "(bool \<times> bool) \<Rightarrow> pool \<Rightarrow> task_ptr \<Rightarrow> task_priority \<Rightarrow> (pool \<times> bool) outcome" where
  "pool_try_submit cas p task priority =
     (if \<not> pl_running p then Return (p, False)
      else (case try_submit_to_local (fst cas) p task priority of
              Return (p', ok) \<Rightarrow>
                if ok then Return (p', True)
                else (case pqs_try_enqueue (snd cas) (pl_global p') task priority of
                        (g, ok') \<Rightarrow>
                          if ok' then Return (p'\<lparr>pl_global := g\<rparr>, True)
                          else Return (p'\<lparr>pl_global := g\<rparr>, False))
            | other \<Rightarrow> other))"

definition pool_pause :: "pool \<Rightarrow> pool" where
  "pool_pause p = p\<lparr>pl_paused := True\<rparr>"

definition pool_resume :: "pool \<Rightarrow> pool" where
  "pool_resume p = p\<lparr>pl_paused := False\<rparr>"

text \<open>The store of \<open>shutdown\<close>; joining the workers is a wait for their loops to end.\<close>

definition pool_shutdown :: "pool \<Rightarrow> pool" where
  "pool_shutdown p = p\<lparr>pl_running := False\<rparr>"

definition pool_pending_tasks :: "pool \<Rightarrow> size_t" where
  "pool_pending_tasks p = pqs_size (pl_global p) + sum_list (map pqs_size (pl_locals p))"

definition has_pending_work :: "pool \<Rightarrow> bool" where
  "has_pending_work p \<longleftrightarrow> \<not> pqs_empty (pl_global p) \<or> (\<exists>s \<in> set (pl_locals p). \<not> pqs_empty s)"

text \<open>The three searches of \<open>worker_loop\<close>.\<close>

definition find_task :: "(nat \<Rightarrow> nat \<Rightarrow> bool) \<Rightarrow> pool \<Rightarrow> nat \<Rightarrow> pool \<times> task_ptr option" where
  "find_task cas p thread_id =
     (case try_dequeue_highest (cas thread_id) (pl_locals p ! thread_id) of
        (s, Some task) \<Rightarrow> (p\<lparr>pl_locals := (pl_locals p)[thread_id := s]\<rparr>, Some task)
      | (s, None) \<Rightarrow>
          (let p = p\<lparr>pl_locals := (pl_locals p)[thread_id := s]\<rparr>;
               n = unat (pl_num_threads p)
           in case try_dequeue_highest (cas n) (pl_global p) of
                (g, Some task) \<Rightarrow> (p\<lparr>pl_global := g\<rparr>, Some task)
              | (g, None) \<Rightarrow>
                  (case search try_dequeue_highest cas (pl_locals p)
                          (filter (\<lambda>i. i \<noteq> thread_id) [0..<n]) of
                     (ls, r) \<Rightarrow> (p\<lparr>pl_global := g, pl_locals := ls\<rparr>, r))))"

subsection \<open>Invariants and contents\<close>

definition pqs_inv :: "pqs \<Rightarrow> bool" where
  "pqs_inv s \<longleftrightarrow> length s = 4 \<and> (\<forall>q \<in> set s. q_inv q)"

definition pqs_items :: "pqs \<Rightarrow> task_ptr multiset" where
  "pqs_items s = sum_list (map (\<lambda>q. mset (q_list q)) s)"

definition pool_inv :: "pool \<Rightarrow> bool" where
  "pool_inv p \<longleftrightarrow> length (pl_locals p) = unat (pl_num_threads p) \<and>
     (\<forall>s \<in> set (pl_locals p). pqs_inv s) \<and> pqs_inv (pl_global p)"

definition queued_items :: "pool \<Rightarrow> task_ptr multiset" where
  "queued_items p = pqs_items (pl_global p) + sum_list (map pqs_items (pl_locals p))"

text \<open>Every task the pool still has to run or to queue.\<close>

definition pool_items :: "pool \<Rightarrow> task_ptr multiset" where
  "pool_items p = queued_items p + mset (map fst (pl_waiting p))"

lemma pqs_nth_inv: "pqs_inv s \<Longrightarrow> i < 4 \<Longrightarrow> q_inv (s ! i)"
  by (simp add: pqs_inv_def)

lemma pqs_inv_update: "pqs_inv s \<Longrightarrow> q_inv q \<Longrightarrow> pqs_inv (s[i := q])"
  unfolding pqs_inv_def by (auto dest: set_update_subset_insert [THEN subsetD])

lemma pqs_enqueue_law:
  assumes inv: "pqs_inv s" and step: "pqs_try_enqueue cas s task pr = (s', ok)"
  shows "pqs_inv s' \<and> pqs_items s' = pqs_items s + (if ok then {#task#} else {#}) \<and>
    (\<not> ok \<longrightarrow> s' = s) \<and>
    (ok \<longleftrightarrow> cas \<and> length (q_list (s ! priority_index pr)) < q_bound (s ! priority_index pr))"
proof -
  let ?i = "priority_index pr"
  have i: "?i < length s" using inv priority_index_less by (simp add: pqs_inv_def)
  obtain q' where q': "try_enqueue cas (s ! ?i) task = (q', ok)" "s' = s[?i := q']"
    using step by (auto simp: pqs_try_enqueue_def split: prod.splits)
  note law = ring.enq_law [OF pqs_nth_inv [OF inv priority_index_less] q'(1)]
  have "pqs_items s' + mset (q_list (s ! ?i)) = pqs_items s + mset (q_list q')"
    unfolding q'(2) pqs_items_def by (rule sum_list_map_update [OF i])
  with law q'(2) inv i show ?thesis
    by (auto simp: pqs_inv_update list_update_id split: if_splits)
qed

lemma pqs_items_empty_iff: "pqs_inv s \<Longrightarrow> pqs_items s = {#} \<longleftrightarrow> pqs_empty s"
  using empty_test_iff
  by (auto simp: pqs_items_def pqs_empty_def pqs_inv_def lfq_empty_def sum_list_mset_empty_iff
      simp flip: length_0_conv)

text \<open>The search order of \<open>try_dequeue_highest\<close>.\<close>

lemma highest_order: "length s = 4 \<Longrightarrow> rev [0..<length s] = [3, 2, 1, 0]"
  by (simp add: upt_rec)

lemma order_split:
  assumes "[3, 2, 1, 0] = pre @ (i::nat) # post"
  shows "i < 4 \<and> set pre = {j. i < j \<and> j < 4}"
  using assms by (auto simp: Cons_eq_append_conv)

lemma pqs_dequeue_Some:
  assumes inv: "pqs_inv s" and step: "try_dequeue_highest cas s = (s', Some t)"
  shows "\<exists>i < 4. \<exists>q'. s' = s[i := q'] \<and> q_inv q' \<and> q_list (s ! i) = t # q_list q' \<and>
    (\<forall>j. i < j \<and> j < 4 \<and> cas j \<longrightarrow> q_list (s ! j) = [])"
proof -
  have len: "length s = 4" and all: "\<forall>q \<in> set s. q_inv q" using inv by (simp_all add: pqs_inv_def)
  have sub: "set [3, 2, 1, 0] \<subseteq> {..<length s}" by (simp add: len)
  from step have "search try_dequeue cas s [3, 2, 1, 0] = (s', Some t)"
    by (simp add: try_dequeue_highest_def highest_order [OF len])
  from ring_source.search_Some [OF all sub this] obtain pre i post q' where
    split: "[3, 2, 1, 0] = pre @ i # post" and deq: "try_dequeue (cas i) (s ! i) = (q', Some t)"
    and s': "s' = s[i := q']" and passed: "\<forall>j \<in> set pre. cas j \<longrightarrow> mset (q_list (s ! j)) = {#}"
    by blast
  note i = order_split [OF split]
  from ring.deq_law [OF pqs_nth_inv [OF inv] deq] i
  have "q_inv q' \<and> q_list (s ! i) = t # q_list q'" by simp
  with i s' passed show ?thesis by auto
qed

lemma pqs_dequeue_None:
  assumes inv: "pqs_inv s" and step: "try_dequeue_highest cas s = (s', None)"
  shows "s' = s \<and> (\<forall>i < 4. cas i \<longrightarrow> q_list (s ! i) = [])"
proof -
  have len: "length s = 4" and all: "\<forall>q \<in> set s. q_inv q" using inv by (simp_all add: pqs_inv_def)
  have sub: "set [3, 2, 1, 0] \<subseteq> {..<length s}" by (simp add: len)
  from step have "search try_dequeue cas s [3, 2, 1, 0] = (s', None)"
    by (simp add: try_dequeue_highest_def highest_order [OF len])
  from ring_source.search_None [OF all sub this] show ?thesis
    by (auto simp: less_Suc_eq numeral_eq_Suc)
qed

interpretation pqs_source: task_source try_dequeue_highest pqs_items pqs_inv "\<lambda>cas. \<forall>i < 4. cas i"
proof unfold_locales
  fix s c s' r
  assume inv: "pqs_inv s" and step: "try_dequeue_highest c s = (s', r)"
  show "pqs_inv s' \<and> (case r of
      None \<Rightarrow> s' = s \<and> ((\<forall>i < 4. c i) \<longrightarrow> pqs_items s = {#})
    | Some x \<Rightarrow> pqs_items s = add_mset x (pqs_items s'))"
  proof (cases r)
    case None
    with pqs_dequeue_None [OF inv] step have "s' = s" "\<forall>i < 4. c i \<longrightarrow> q_list (s ! i) = []" by auto
    with inv None show ?thesis
      unfolding pqs_items_def pqs_inv_def sum_list_mset_empty_iff by (auto simp: in_set_conv_nth)
  next
    case (Some t)
    with pqs_dequeue_Some [OF inv] step obtain i q' where
      i: "i < 4" "s' = s[i := q']" "q_inv q'" "q_list (s ! i) = t # q_list q'" by blast
    then have "i < length s" using inv by (simp add: pqs_inv_def)
    from sum_list_map_update [OF this, of "\<lambda>q. mset (q_list q)" q'] i
    have "pqs_items s' + add_mset t (mset (q_list q')) = pqs_items s + mset (q_list q')"
      by (simp add: pqs_items_def)
    then have "pqs_items s = add_mset t (pqs_items s')" by simp
    with Some i inv show ?thesis by (simp add: pqs_inv_update)
  qed
qed

text \<open>C19. A dequeue from a priority queue set with no failing CAS takes the oldest task of the highest
  priority level that holds one and changes no other level; it returns null exactly when all four
  levels are empty.\<close>

theorem highest_priority_first:
  assumes "pqs_inv s" and "\<forall>i < 4. cas i" and "try_dequeue_highest cas s = (s', r)"
  shows "case r of
      None \<Rightarrow> s' = s \<and> (\<forall>i < 4. q_list (s ! i) = [])
    | Some t \<Rightarrow> (\<exists>i < 4. q_list (s ! i) = t # q_list (s' ! i) \<and>
        (\<forall>j. i < j \<and> j < 4 \<longrightarrow> q_list (s ! j) = []) \<and> (\<forall>j < 4. j \<noteq> i \<longrightarrow> s' ! j = s ! j))"
proof (cases r)
  case None
  with pqs_dequeue_None [OF assms(1)] assms(2,3) show ?thesis by auto
next
  case (Some t)
  with pqs_dequeue_Some [OF assms(1)] assms(3) obtain i q' where
    "i < 4" "s' = s[i := q']" "q_list (s ! i) = t # q_list q'"
    "\<forall>j. i < j \<and> j < 4 \<and> cas j \<longrightarrow> q_list (s ! j) = []" by blast
  moreover have "length s = 4" using assms(1) by (simp add: pqs_inv_def)
  ultimately show ?thesis using Some assms(2) by (auto intro!: exI [of _ i])
qed

definition set4 :: pqs where "set4 = [ring4, ring4, ring4, ring4]"

lemma set4_inv: "pqs_inv set4"
  using ring4_ok by (simp add: pqs_inv_def set4_def)

theorem highest_priority_first_witness:
  "\<exists>s'. try_dequeue_highest (\<lambda>_. True)
      (fst (pqs_try_enqueue True (fst (pqs_try_enqueue True set4 7 Low)) 9 High)) = (s', Some 9) \<and>
    (\<exists>i < 4. (\<forall>j < 4. j \<noteq> i \<longrightarrow>
      s' ! j = fst (pqs_try_enqueue True (fst (pqs_try_enqueue True set4 7 Low)) 9 High) ! j))"
proof -
  let ?s1 = "fst (pqs_try_enqueue True set4 7 Low)"
  let ?s2 = "fst (pqs_try_enqueue True ?s1 9 High)"
  have "pqs_inv ?s1" using pqs_enqueue_law [OF set4_inv] by (metis prod.collapse)
  then have inv: "pqs_inv ?s2" using pqs_enqueue_law by (metis prod.collapse)
  obtain s' where step: "try_dequeue_highest (\<lambda>_. True) ?s2 = (s', Some 9)"
    by (simp add: set4_def ring4_def pqs_try_enqueue_def priority_index_def try_enqueue_def
        try_dequeue_highest_def upt_rec try_dequeue_def Let_def)
  from highest_priority_first [OF inv _ step] step show ?thesis by auto
qed

subsection \<open>Finding the next task\<close>

lemma pool_inv_locals: "pool_inv p \<Longrightarrow> i < unat (pl_num_threads p) \<Longrightarrow> pqs_inv (pl_locals p ! i)"
  by (simp add: pool_inv_def)

lemma pool_inv_update:
  assumes "pool_inv p" "pqs_inv s"
  shows "pool_inv (p\<lparr>pl_locals := (pl_locals p)[i := s]\<rparr>)" "pool_inv (p\<lparr>pl_global := s\<rparr>)"
  using assms unfolding pool_inv_def
  by (auto dest: set_update_subset_insert [THEN subsetD])

lemma pool_inv_next [simp]: "pool_inv (p\<lparr>pl_next_worker := n\<rparr>) = pool_inv p"
  "pool_inv (p\<lparr>pl_waiting := ws\<rparr>) = pool_inv p" "pool_inv (p\<lparr>pl_running := b\<rparr>) = pool_inv p"
  by (simp_all add: pool_inv_def)

lemma queued_items_next [simp]: "queued_items (p\<lparr>pl_next_worker := n\<rparr>) = queued_items p"
  "queued_items (p\<lparr>pl_waiting := ws\<rparr>) = queued_items p"
  "queued_items (p\<lparr>pl_running := b\<rparr>) = queued_items p"
  by (simp_all add: queued_items_def)

lemma pl_sel_update [simp]:
  "pl_locals (p\<lparr>pl_global := s\<rparr>) = pl_locals p" "pl_global (p\<lparr>pl_locals := ls\<rparr>) = pl_global p"
  by simp_all

lemma queued_items_local:
  assumes "i < length (pl_locals p)"
  shows "queued_items (p\<lparr>pl_locals := (pl_locals p)[i := s]\<rparr>) + pqs_items (pl_locals p ! i) =
    queued_items p + pqs_items s"
  using sum_list_map_update [OF assms, of pqs_items s]
  by (simp add: queued_items_def ac_simps)

lemma queued_items_global:
  "queued_items (p\<lparr>pl_global := s\<rparr>) + pqs_items (pl_global p) = queued_items p + pqs_items s"
  by (simp add: queued_items_def ac_simps)

lemma queued_items_empty_iff:
  assumes "pool_inv p"
  shows "queued_items p = {#} \<longleftrightarrow> \<not> has_pending_work p"
  using assms pqs_items_empty_iff
  by (auto simp: queued_items_def has_pending_work_def pool_inv_def sum_list_mset_empty_iff)

lemma find_task_None:
  assumes inv: "pool_inv p" and w: "w < unat (pl_num_threads p)"
    and step: "find_task cas p w = (p', None)"
  shows "p' = p \<and> ((\<forall>i j. cas i j) \<longrightarrow> \<not> has_pending_work p)"
proof -
  let ?n = "unat (pl_num_threads p)"
  have n: "length (pl_locals p) = ?n" using inv by (simp add: pool_inv_def)
  obtain s where own: "try_dequeue_highest (cas w) (pl_locals p ! w) = (s, None)"
    using step by (auto simp: find_task_def split: prod.splits option.splits)
  note own_law = pqs_source.grab_law [OF pool_inv_locals [OF inv w] own]
  then have same: "(pl_locals p)[w := s] = pl_locals p" by (simp add: list_update_id)
  obtain g where glob: "try_dequeue_highest (cas ?n) (pl_global p) = (g, None)"
    using step own same by (auto simp: find_task_def Let_def split: prod.splits option.splits)
  have "pqs_inv (pl_global p)" using inv by (simp add: pool_inv_def)
  note glob_law = pqs_source.grab_law [OF this glob]
  obtain ls where steal: "search try_dequeue_highest cas (pl_locals p)
      (filter (\<lambda>i. i \<noteq> w) [0..<?n]) = (ls, None)" and p': "p' = p\<lparr>pl_global := g, pl_locals := ls\<rparr>"
    using step own same glob by (auto simp: find_task_def Let_def split: prod.splits)
  have all: "\<forall>s \<in> set (pl_locals p). pqs_inv s" using inv by (simp add: pool_inv_def)
  have sub: "set (filter (\<lambda>i. i \<noteq> w) [0..<?n]) \<subseteq> {..<length (pl_locals p)}" using n by auto
  note steal_law = pqs_source.search_None [OF all sub steal]
  have "p' = p" using p' glob_law steal_law by simp
  moreover have "\<not> has_pending_work p" if "\<forall>i j. cas i j"
  proof -
    have "\<forall>i < ?n. pqs_items (pl_locals p ! i) = {#}"
      using own_law steal_law that by (case_tac "i = w") auto
    then have "queued_items p = {#}"
      using glob_law that n by (auto simp: queued_items_def sum_list_mset_empty_iff in_set_conv_nth)
    then show ?thesis using queued_items_empty_iff [OF inv] by simp
  qed
  ultimately show ?thesis by blast
qed

text \<open>Where a found task comes from, and that only that set changed.\<close>

lemma find_task_Some:
  assumes inv: "pool_inv p" and w: "w < unat (pl_num_threads p)"
    and step: "find_task cas p w = (p', Some t)"
  shows "pool_inv p' \<and> queued_items p = add_mset t (queued_items p') \<and>
    pl_waiting p' = pl_waiting p \<and> pl_running p' = pl_running p \<and>
    pl_num_threads p' = pl_num_threads p"
proof -
  let ?n = "unat (pl_num_threads p)"
  have n: "length (pl_locals p) = ?n" using inv by (simp add: pool_inv_def)
  obtain s r where own: "try_dequeue_highest (cas w) (pl_locals p ! w) = (s, r)" by fastforce
  note own_law = pqs_source.grab_law [OF pool_inv_locals [OF inv w] own]
  show ?thesis
  proof (cases r)
    case (Some t')
    with step own have p': "p' = p\<lparr>pl_locals := (pl_locals p)[w := s]\<rparr>" "t' = t"
      by (simp_all add: find_task_def)
    have "queued_items p' + pqs_items (pl_locals p ! w) = queued_items p + pqs_items s"
      unfolding p' using w n by (intro queued_items_local) simp
    with own_law Some p'(2) have "queued_items p = add_mset t (queued_items p')" by simp
    then show ?thesis
      using own_law Some pool_inv_update(1) [OF inv] by (simp add: p')
  next
    case None
    with own_law have same: "(pl_locals p)[w := s] = pl_locals p" by (simp add: list_update_id)
    obtain g r' where glob: "try_dequeue_highest (cas ?n) (pl_global p) = (g, r')" by fastforce
    have ginv: "pqs_inv (pl_global p)" using inv by (simp add: pool_inv_def)
    note glob_law = pqs_source.grab_law [OF ginv glob]
    show ?thesis
    proof (cases r')
      case (Some t')
      with step own None same glob have p': "p' = p\<lparr>pl_global := g\<rparr>" "t' = t"
        by (simp_all add: find_task_def Let_def)
      have "queued_items p' + pqs_items (pl_global p) = queued_items p + pqs_items g"
        unfolding p' by (rule queued_items_global)
      with glob_law Some p'(2) have "queued_items p = add_mset t (queued_items p')" by simp
      then show ?thesis
        using glob_law Some pool_inv_update(2) [OF inv] by (simp add: p')
    next
      case None
      with glob_law have g: "g = pl_global p" by simp
      obtain ls where steal: "search try_dequeue_highest cas (pl_locals p)
          (filter (\<lambda>i. i \<noteq> w) [0..<?n]) = (ls, Some t)" and p': "p' = p\<lparr>pl_locals := ls\<rparr>"
        using step own \<open>r = None\<close> same glob None g
        by (auto simp: find_task_def Let_def split: prod.splits)
      have all: "\<forall>s \<in> set (pl_locals p). pqs_inv s" using inv by (simp add: pool_inv_def)
      have sub: "set (filter (\<lambda>i. i \<noteq> w) [0..<?n]) \<subseteq> {..<length (pl_locals p)}" using n by auto
      from pqs_source.search_Some [OF all sub steal] obtain pre i post s' where
        i: "filter (\<lambda>i. i \<noteq> w) [0..<?n] = pre @ i # post" "ls = (pl_locals p)[i := s']" "pqs_inv s'"
          "pqs_items (pl_locals p ! i) = add_mset t (pqs_items s')" by blast
      then have "i < length (pl_locals p)" using sub by auto
      from queued_items_local [OF this, of s'] i p'
      have "queued_items p = add_mset t (queued_items p')" by simp
      then show ?thesis
        using i(3) pool_inv_update(1) [OF inv] by (simp add: p' i(2))
    qed
  qed
qed

text \<open>C16. A worker's search misses nothing: when no CAS fails, it finds a task exactly when the
  predicate that workers sleep on (\<open>has_pending_work_locked\<close>) is true; the task it finds leaves the
  queues, every other task stays, and a search that finds nothing changes nothing.\<close>

theorem find_task_complete:
  assumes "pool_inv p" and "w < unat (pl_num_threads p)" and "\<forall>i j. cas i j"
    and "find_task cas p w = (p', r)"
  shows "pool_inv p' \<and> (r \<noteq> None \<longleftrightarrow> has_pending_work p) \<and>
    (case r of None \<Rightarrow> p' = p | Some t \<Rightarrow> queued_items p = add_mset t (queued_items p'))"
proof (cases r)
  case None
  with find_task_None [OF assms(1,2)] assms(1,3,4) show ?thesis by auto
next
  case (Some t)
  with find_task_Some [OF assms(1,2)] assms(4)
  have "pool_inv p' \<and> queued_items p = add_mset t (queued_items p')" by simp
  moreover from this have "has_pending_work p" using queued_items_empty_iff [OF assms(1)] by auto
  ultimately show ?thesis using Some by simp
qed

text \<open>A pool of two workers with queues of capacity four, used by the witnesses.\<close>

definition pool2 :: pool where
  "pool2 = \<lparr>pl_num_threads = 2, pl_running = True, pl_paused = False, pl_next_worker = 0,
     pl_global = set4, pl_locals = [set4, set4], pl_waiting = []\<rparr>"

lemma pool2_inv: "pool_inv pool2"
  using set4_inv by (simp add: pool_inv_def pool2_def)

lemma set4_empty: "pqs_empty set4"
  by (simp add: set4_def ring4_def pqs_empty_def lfq_empty_def)

lemma pool2_items: "queued_items pool2 = {#}"
  using queued_items_empty_iff [OF pool2_inv] set4_empty
  by (simp add: has_pending_work_def pool2_def)

theorem find_task_complete_witness:
  "\<exists>p' r. find_task (\<lambda>_ _. True) pool2 1 = (p', r) \<and> p' = pool2 \<and> r = None"
proof -
  obtain p' r where step: "find_task (\<lambda>_ _. True) pool2 1 = (p', r)" by fastforce
  have "1 < unat (pl_num_threads pool2)" by (simp add: pool2_def)
  from find_task_complete [OF pool2_inv this _ step]
    queued_items_empty_iff [OF pool2_inv] pool2_items step
  show ?thesis by (cases r) auto
qed

subsection \<open>Submission\<close>

lemma submit_local_law:
  assumes inv: "pool_inv p" and step: "try_submit_to_local cas p t pr = Return (p', ok)"
  shows "pool_inv p' \<and> queued_items p' = queued_items p + (if ok then {#t#} else {#}) \<and>
    pl_waiting p' = pl_waiting p \<and> pl_running p' = pl_running p \<and>
    pl_num_threads p' = pl_num_threads p \<and> pl_global p' = pl_global p"
proof -
  let ?k = "unat (pl_next_worker p mod pl_num_threads p)"
  let ?p = "p\<lparr>pl_next_worker := pl_next_worker p + 1\<rparr>"
  obtain s' where nz: "pl_num_threads p \<noteq> 0"
    and enq: "pqs_try_enqueue cas (pl_locals p ! ?k) t pr = (s', ok)"
    and p': "p' = ?p\<lparr>pl_locals := (pl_locals ?p)[?k := s']\<rparr>"
    using step by (auto simp: try_submit_to_local_def Let_def split: if_splits prod.splits)
  have k: "?k < unat (pl_num_threads p)"
    using nz unat_gt_0 [of "pl_num_threads p"] by (simp add: unat_mod_distrib)
  have inv': "pool_inv ?p" using inv by simp
  note law = pqs_enqueue_law [OF pool_inv_locals [OF inv k] enq]
  have "?k < length (pl_locals ?p)" using k inv by (simp add: pool_inv_def)
  from queued_items_local [OF this, of s']
  have "queued_items p' + pqs_items (pl_locals p ! ?k) = queued_items p + pqs_items s'"
    unfolding p' by simp
  with law have "queued_items p' = queued_items p + (if ok then {#t#} else {#})" by auto
  moreover have "pool_inv p'" unfolding p' using law by (intro pool_inv_update [OF inv']) simp
  ultimately show ?thesis by (simp add: p')
qed

lemma submit_round_law:
  assumes inv: "pool_inv p" and step: "submit_round c cw p t pr = (p', r)"
  shows "pool_inv p' \<and> queued_items p' = queued_items p + (if r = Queued then {#t#} else {#}) \<and>
    pl_waiting p' = pl_waiting p \<and> pl_running p' = pl_running p \<and>
    pl_num_threads p' = pl_num_threads p \<and> (r = Abandoned \<longrightarrow> \<not> pl_running p)"
proof -
  have ginv: "pqs_inv (pl_global p)" using inv by (simp add: pool_inv_def)
  obtain g ok where one: "pqs_try_enqueue c (pl_global p) t pr = (g, ok)" by fastforce
  note law1 = pqs_enqueue_law [OF ginv one]
  obtain g' ok' where two: "pqs_try_enqueue cw g t pr = (g', ok')" by fastforce
  have "pqs_inv g" using law1 by simp
  note law2 = pqs_enqueue_law [OF this two]
  have upd: "queued_items (p\<lparr>pl_global := h\<rparr>) = queued_items p + m"
    if "pqs_items h = pqs_items (pl_global p) + m" for h m
    using queued_items_global [of h p] that by (simp add: ac_simps)
  show ?thesis
  proof (cases ok)
    case True
    with step one have "p' = p\<lparr>pl_global := g\<rparr>" "r = Queued" by (simp_all add: submit_round_def)
    with True law1 upd [of g "{#t#}"] pool_inv_update(2) [OF inv] show ?thesis by simp
  next
    case False
    with step one two have "p' = p\<lparr>pl_global := g'\<rparr>"
      "r = (if ok' then Queued else if pl_running p then Again else Abandoned)"
      by (auto simp: submit_round_def split: if_splits)
    moreover have "pqs_items g' = pqs_items (pl_global p) + (if ok' then {#t#} else {#})"
      using False law1 law2 by simp
    ultimately show ?thesis
      using law2 upd [of g'] pool_inv_update(2) [OF inv] by simp
  qed
qed

lemma pool_submit_law:
  assumes inv: "pool_inv p" and step: "pool_submit cas p t pr = Return p'"
  shows "pool_inv p' \<and> pool_items p' = add_mset t (pool_items p) \<and> pl_running p' \<and>
    pl_num_threads p' = pl_num_threads p"
proof -
  have run: "pl_running p" using step by (auto simp: pool_submit_def split: if_splits)
  then obtain p1 ok where loc: "try_submit_to_local (fst cas) p t pr = Return (p1, ok)"
    using step by (auto simp: pool_submit_def split: outcome.splits)
  note law1 = submit_local_law [OF inv loc]
  show ?thesis
  proof (cases ok)
    case True
    with step run loc have "p' = p1" by (simp add: pool_submit_def)
    with True law1 run show ?thesis by (simp add: pool_items_def)
  next
    case False
    obtain p2 r where round: "submit_round (fst (snd cas)) (snd (snd cas)) p1 t pr = (p2, r)"
      by fastforce
    have "pool_inv p1" using law1 by simp
    note law2 = submit_round_law [OF this round]
    from False step run loc round law1 law2
    have "p' = (if r = Again then p2\<lparr>pl_waiting := pl_waiting p2 @ [(t, pr)]\<rparr> else p2)"
      and "r \<noteq> Abandoned"
      by (cases r; auto simp: pool_submit_def)+
    with False law1 law2 run show ?thesis
      by (cases r) (auto simp: pool_items_def)
  qed
qed

text \<open>What the pool is told, and what happens to tasks.\<close>

datatype pool_op =
    OpSubmit "bool \<times> bool \<times> bool" task_ptr task_priority
  | OpRound bool bool nat
  | OpTake "nat \<Rightarrow> nat \<Rightarrow> bool" nat
  | OpShutdown

datatype pool_event = Accepted task_ptr | Rejected exn | Taken task_ptr | Dropped task_ptr

definition round_event :: "bool \<Rightarrow> bool \<Rightarrow> nat \<Rightarrow> pool \<Rightarrow> pool_event list" where
  "round_event c cw k p =
     (if k < length (pl_waiting p) \<and>
         snd (submit_round c cw p (fst (pl_waiting p ! k)) (snd (pl_waiting p ! k))) = Abandoned
      then [Dropped (fst (pl_waiting p ! k))] else [])"

fun pool_step :: "pool_op \<Rightarrow> pool \<Rightarrow> pool \<times> pool_event list" where
  "pool_step (OpSubmit cas t pr) p =
     (case pool_submit cas p t pr of
        Return p' \<Rightarrow> (p', [Accepted t])
      | Throw e \<Rightarrow> (p, [Rejected e])
      | _ \<Rightarrow> (p, []))"
| "pool_step (OpRound c cw k) p = (waiting_round c cw k p, round_event c cw k p)"
| "pool_step (OpTake cas w) p =
     (case find_task cas p w of
        (p', Some t) \<Rightarrow> (p', [Taken t])
      | (p', None) \<Rightarrow> (p', []))"
| "pool_step OpShutdown p = (pool_shutdown p, [])"

fun pool_run :: "pool_op list \<Rightarrow> pool \<Rightarrow> pool \<times> pool_event list" where
  "pool_run [] p = (p, [])"
| "pool_run (op # ops) p =
     (case pool_step op p of (p', es) \<Rightarrow> (case pool_run ops p' of (p'', es') \<Rightarrow> (p'', es @ es')))"

fun accepted_of :: "pool_event \<Rightarrow> task_ptr multiset" where
  "accepted_of (Accepted t) = {#t#}"
| "accepted_of _ = {#}"

fun leaving_of :: "pool_event \<Rightarrow> task_ptr multiset" where
  "leaving_of (Taken t) = {#t#}"
| "leaving_of (Dropped t) = {#t#}"
| "leaving_of _ = {#}"

fun op_ok :: "nat \<Rightarrow> pool_op \<Rightarrow> bool" where
  "op_ok n (OpTake cas w) \<longleftrightarrow> w < n"
| "op_ok n _ \<longleftrightarrow> True"

lemma waiting_round_law:
  assumes inv: "pool_inv p"
  shows "pool_inv (waiting_round c cw k p) \<and>
    pl_num_threads (waiting_round c cw k p) = pl_num_threads p \<and>
    pl_running (waiting_round c cw k p) = pl_running p \<and>
    pool_items p = pool_items (waiting_round c cw k p) + sum_list (map leaving_of (round_event c cw k p)) \<and>
    (round_event c cw k p \<noteq> [] \<longrightarrow> \<not> pl_running p)"
proof (cases "k < length (pl_waiting p)")
  case False
  then show ?thesis using inv by (simp add: waiting_round_def round_event_def)
next
  case True
  let ?t = "fst (pl_waiting p ! k)" and ?pr = "snd (pl_waiting p ! k)"
  let ?rest = "take k (pl_waiting p) @ drop (Suc k) (pl_waiting p)"
  obtain p1 r where round: "submit_round c cw p ?t ?pr = (p1, r)" by fastforce
  note law = submit_round_law [OF inv round]
  have "mset (map fst (pl_waiting p)) = add_mset ?t (mset (map fst ?rest))"
    using arg_cong [OF id_take_nth_drop [OF True], of "\<lambda>xs. mset (map fst xs)"] by simp
  then have split: "pool_items p = queued_items p + add_mset ?t (mset (map fst ?rest))"
    by (simp add: pool_items_def)
  have w: "waiting_round c cw k p = (if r = Again then p1 else p1\<lparr>pl_waiting := ?rest\<rparr>)"
    using True round law by (cases r) (simp_all add: waiting_round_def)
  have e: "round_event c cw k p = (if r = Abandoned then [Dropped ?t] else [])"
    using True round by (simp add: round_event_def)
  have items: "pool_items (p1\<lparr>pl_waiting := ?rest\<rparr>) = queued_items p1 + mset (map fst ?rest)"
    by (simp add: pool_items_def queued_items_def)
  show ?thesis
  proof (cases r)
    case Queued
    with law have "queued_items p1 = queued_items p + {#?t#}" by simp
    with Queued law have "pool_items p = pool_items (p1\<lparr>pl_waiting := ?rest\<rparr>)"
      unfolding items split by simp
    with Queued law show ?thesis unfolding w e by simp
  next
    case Abandoned
    with law have "queued_items p1 = queued_items p" by simp
    then have "pool_items p = pool_items (p1\<lparr>pl_waiting := ?rest\<rparr>) + {#?t#}"
      unfolding items split by simp
    with Abandoned law show ?thesis unfolding w e by simp
  next
    case Again
    with law have "pool_items p1 = pool_items p" by (simp add: pool_items_def)
    with Again law show ?thesis unfolding w e by simp
  qed
qed

lemma pool_step_law:
  assumes inv: "pool_inv p" and ok: "op_ok (unat (pl_num_threads p)) op"
    and step: "pool_step op p = (p', es)"
  shows "pool_inv p' \<and> pl_num_threads p' = pl_num_threads p \<and>
    pool_items p + sum_list (map accepted_of es) = pool_items p' + sum_list (map leaving_of es) \<and>
    (pl_running p \<longrightarrow> op = OpShutdown \<or> pl_running p') \<and>
    (\<forall>t. Dropped t \<in> set es \<longrightarrow> \<not> pl_running p)"
proof (cases op)
  case (OpSubmit cas t pr)
  show ?thesis
  proof (cases "pool_submit cas p t pr")
    case (Return q)
    have "p' = q" "es = [Accepted t]" using OpSubmit step Return by simp_all
    moreover note pool_submit_law [OF inv Return]
    ultimately show ?thesis by simp
  qed (use OpSubmit step inv in auto)
next
  case (OpRound c cw k)
  have "sum_list (map accepted_of (round_event c cw k p)) = {#}"
    by (simp add: round_event_def)
  then show ?thesis
    using OpRound step waiting_round_law [OF inv, of c cw k] by (auto simp: round_event_def)
next
  case (OpTake cas w)
  with ok have w: "w < unat (pl_num_threads p)" by simp
  obtain q r where found: "find_task cas p w = (q, r)" by fastforce
  show ?thesis
  proof (cases r)
    case None
    with OpTake step found have "p' = q" "es = []" by simp_all
    from found None have "find_task cas p w = (q, None)" by simp
    from find_task_None [OF inv w this] inv \<open>p' = q\<close> \<open>es = []\<close> show ?thesis by simp
  next
    case (Some t)
    with OpTake step found have "p' = q" "es = [Taken t]" by simp_all
    moreover from found Some have "find_task cas p w = (q, Some t)" by simp
    note find_task_Some [OF inv w this]
    ultimately show ?thesis by (simp add: pool_items_def)
  qed
next
  case OpShutdown
  then show ?thesis using step inv by (auto simp: pool_shutdown_def pool_items_def)
qed



text \<open>Submission to a pool that was shut down throws, and a pool built with no threads has no
  defined way to accept a task.\<close>

lemma submit_after_shutdown:
  "pool_submit cas (pool_shutdown p) t pr = Throw (RuntimeError ''ThreadPool is shutdown'')"
  by (simp add: pool_submit_def pool_shutdown_def)

lemma submit_without_threads:
  "ThreadPool 0 = Inr p \<Longrightarrow> pool_submit cas p t pr = Undefined"
  by (auto simp: ThreadPool_def pool_submit_def try_submit_to_local_def split: sum.splits)

lemma new_pool_inv:
  assumes "ThreadPool n = Inr p"
  shows "pool_inv p \<and> pool_items p = {#} \<and> pl_running p"
proof -
  have pqs: "pqs_inv s \<and> pqs_items s = {#}" if new: "PriorityQueueSet c = Inr s" and nz: "c \<noteq> 0" for c s
  proof -
    obtain q :: "task_ptr lfq" where q: "LockFreeTaskQueue c = Inr q" "s = [q, q, q, q]"
      using new by (auto simp: PriorityQueueSet_def split: sum.splits)
    have "q_inv q" "q_list q = []" using new_queue [OF nz q(1)] by simp_all
    then show ?thesis by (simp add: q(2) pqs_inv_def pqs_items_def)
  qed
  obtain g l where "PriorityQueueSet 2048 = Inr g" "PriorityQueueSet 512 = Inr l"
    "p = \<lparr>pl_num_threads = n, pl_running = True, pl_paused = False, pl_next_worker = 0,
      pl_global = g, pl_locals = replicate (unat n) l, pl_waiting = []\<rparr>"
    using assms by (auto simp: ThreadPool_def split: sum.splits)
  then show ?thesis using pqs [of 2048 g] pqs [of 512 l]
    by (auto simp: pool_inv_def pool_items_def queued_items_def)
qed

end
