(* ===== verification/Pool_Wakeups.thy ===== *)
theory Pool_Wakeups
  imports Thread_Pool
begin

section \<open>Sleeping and waking in the thread pool\<close>

text \<open>
  The two waits of \<open>ThreadPool::worker_loop\<close> in \<open>include/task_engine/thread_pool.hpp\<close> on the one
  condition variable \<open>cv_\<close>, and the calls that notify it. \<open>cv_.wait(lock, pred)\<close> is taken apart into
  the lock, the test of the predicate, and the step that gives the lock up and blocks. \<open>submit\<close>,
  \<open>try_submit\<close>, \<open>shutdown\<close> and \<open>resume\<close> change what the predicates read and notify afterwards, both
  without the mutex, so a change and its notification can come between a test and the block that
  follows it. \<open>nt_one\<close> and \<open>nt_all\<close> count the notifications that threads have still to send.
\<close>

subsection \<open>Positions of the workers\<close>

datatype position =
    Loop
  | PausedLoad
  | PauseLock | PauseTest | PauseDecided | PauseBlocked
  | Search
  | Working task_ptr
  | IdleLock | IdleTest | IdleDecided | IdleBlocked
  | Finished

record sleepers =
  nt_pool :: pool
  nt_workers :: "position list"
  nt_one :: nat
  nt_all :: nat

definition start_workers :: "pool \<Rightarrow> sleepers" where
  "start_workers p = \<lparr>nt_pool = p, nt_workers = replicate (unat (pl_num_threads p)) Loop,
     nt_one = 0, nt_all = 0\<rparr>"

definition holds_mutex :: "position \<Rightarrow> bool" where
  "holds_mutex st \<longleftrightarrow> st \<in> {PauseTest, PauseDecided, IdleTest, IdleDecided}"

definition blocked :: "position \<Rightarrow> bool" where
  "blocked st \<longleftrightarrow> st = PauseBlocked \<or> st = IdleBlocked"

definition pool_mutex_free :: "sleepers \<Rightarrow> bool" where
  "pool_mutex_free s \<longleftrightarrow> (\<forall>st \<in> set (nt_workers s). \<not> holds_mutex st)"

text \<open>A notified worker takes the lock and tests again.\<close>

fun woken :: "position \<Rightarrow> position" where
  "woken PauseBlocked = PauseLock"
| "woken IdleBlocked = IdleLock"
| "woken st = st"

subsection \<open>Steps\<close>

definition advance :: "(nat \<Rightarrow> nat \<Rightarrow> bool) \<Rightarrow> nat \<Rightarrow> sleepers \<Rightarrow> pool \<times> position" where
  "advance cas w s =
     (let p = nt_pool s
      in case nt_workers s ! w of
        Loop \<Rightarrow> (p, if pl_running p then PausedLoad else Finished)
      | PausedLoad \<Rightarrow> (p, if pl_paused p then PauseLock else Search)
      | PauseLock \<Rightarrow> (p, if pool_mutex_free s then PauseTest else PauseLock)
      | PauseTest \<Rightarrow> (p, if \<not> pl_paused p \<or> \<not> pl_running p then Search else PauseDecided)
      | PauseDecided \<Rightarrow> (p, PauseBlocked)
      | PauseBlocked \<Rightarrow> (p, PauseBlocked)
      | Search \<Rightarrow> (case find_task cas p w of
                    (p', Some t) \<Rightarrow> (p', Working t)
                  | (p', None) \<Rightarrow> (p', IdleLock))
      | Working t \<Rightarrow> (p, Loop)
      | IdleLock \<Rightarrow> (p, if pool_mutex_free s then IdleTest else IdleLock)
      | IdleTest \<Rightarrow> (p, if \<not> pl_running p \<or> has_pending_work p then Loop else IdleDecided)
      | IdleDecided \<Rightarrow> (p, IdleBlocked)
      | IdleBlocked \<Rightarrow> (p, IdleBlocked)
      | Finished \<Rightarrow> (p, Finished))"

definition worker_moves :: "(nat \<Rightarrow> nat \<Rightarrow> bool) \<Rightarrow> nat \<Rightarrow> sleepers \<Rightarrow> sleepers" where
  "worker_moves cas w s =
     (case advance cas w s of
        (p, st) \<Rightarrow> s\<lparr>nt_pool := p, nt_workers := (nt_workers s)[w := st]\<rparr>)"

text \<open>A submission that leaves its loop has a notification to send, also when it gives up.\<close>

definition submit_moves ::
  "(bool \<times> bool \<times> bool) \<Rightarrow> task_ptr \<Rightarrow> task_priority \<Rightarrow> sleepers \<Rightarrow> sleepers" where
  "submit_moves cas t pr s =
     (case pool_submit cas (nt_pool s) t pr of
        Return p \<Rightarrow> s\<lparr>nt_pool := p,
          nt_one := if length (pl_waiting p) = length (pl_waiting (nt_pool s)) then Suc (nt_one s) else nt_one s\<rparr>
      | _ \<Rightarrow> s)"

definition try_submit_moves :: "(bool \<times> bool) \<Rightarrow> task_ptr \<Rightarrow> task_priority \<Rightarrow> sleepers \<Rightarrow> sleepers" where
  "try_submit_moves cas t pr s =
     (case pool_try_submit cas (nt_pool s) t pr of
        Return (p, ok) \<Rightarrow> s\<lparr>nt_pool := p, nt_one := if ok then Suc (nt_one s) else nt_one s\<rparr>
      | _ \<Rightarrow> s)"

definition round_moves :: "bool \<Rightarrow> bool \<Rightarrow> nat \<Rightarrow> sleepers \<Rightarrow> sleepers" where
  "round_moves c cw k s =
     (let p = waiting_round c cw k (nt_pool s)
      in s\<lparr>nt_pool := p,
           nt_one := if length (pl_waiting p) = length (pl_waiting (nt_pool s)) then nt_one s else Suc (nt_one s)\<rparr>)"

text \<open>\<open>notify_one\<close> wakes a worker that is blocked, if there is one; \<open>notify_all\<close> wakes all of them.\<close>

definition notify_one :: "nat \<Rightarrow> sleepers \<Rightarrow> sleepers" where
  "notify_one w s = s\<lparr>nt_workers := (nt_workers s)[w := woken (nt_workers s ! w)], nt_one := nt_one s - 1\<rparr>"

definition notify_all :: "sleepers \<Rightarrow> sleepers" where
  "notify_all s = s\<lparr>nt_workers := map woken (nt_workers s), nt_all := nt_all s - 1\<rparr>"

definition shutdown_stores :: "sleepers \<Rightarrow> sleepers" where
  "shutdown_stores s = s\<lparr>nt_pool := pool_shutdown (nt_pool s), nt_all := Suc (nt_all s)\<rparr>"

definition resume_stores :: "sleepers \<Rightarrow> sleepers" where
  "resume_stores s = s\<lparr>nt_pool := pool_resume (nt_pool s), nt_all := Suc (nt_all s)\<rparr>"

definition shutdown_returns :: "sleepers \<Rightarrow> bool" where
  "shutdown_returns s \<longleftrightarrow> (\<forall>st \<in> set (nt_workers s). st = Finished)"

datatype wait_event =
    WMove "nat \<Rightarrow> nat \<Rightarrow> bool" nat
  | WSubmit "bool \<times> bool \<times> bool" task_ptr task_priority
  | WTrySubmit "bool \<times> bool" task_ptr task_priority
  | WRound bool bool nat
  | WNotifyOne nat
  | WNotifyAll
  | WShutdown
  | WPause
  | WResume
  | WSpurious nat

fun wait_apply :: "wait_event \<Rightarrow> sleepers \<Rightarrow> sleepers" where
  "wait_apply (WMove cas w) s = worker_moves cas w s"
| "wait_apply (WSubmit cas t pr) s = submit_moves cas t pr s"
| "wait_apply (WTrySubmit cas t pr) s = try_submit_moves cas t pr s"
| "wait_apply (WRound c cw k) s = round_moves c cw k s"
| "wait_apply (WNotifyOne w) s = notify_one w s"
| "wait_apply WNotifyAll s = notify_all s"
| "wait_apply WShutdown s = shutdown_stores s"
| "wait_apply WPause s = s\<lparr>nt_pool := pool_pause (nt_pool s)\<rparr>"
| "wait_apply WResume s = resume_stores s"
| "wait_apply (WSpurious w) s = s\<lparr>nt_workers := (nt_workers s)[w := woken (nt_workers s ! w)]\<rparr>"

fun wait_ok :: "sleepers \<Rightarrow> wait_event \<Rightarrow> bool" where
  "wait_ok s (WMove cas w) \<longleftrightarrow> w < length (nt_workers s)"
| "wait_ok s (WNotifyOne w) \<longleftrightarrow> 0 < nt_one s \<and> w < length (nt_workers s) \<and>
     (blocked (nt_workers s ! w) \<or> (\<forall>st \<in> set (nt_workers s). \<not> blocked st))"
| "wait_ok s WNotifyAll \<longleftrightarrow> 0 < nt_all s"
| "wait_ok s (WSpurious w) \<longleftrightarrow> w < length (nt_workers s)"
| "wait_ok s e \<longleftrightarrow> True"

text \<open>What the code leaves open and would be excluded if the notifying threads took the mutex: a
  change of what the predicates read while a worker is between its test and its block. \<open>orderly\<close> rules
  it out, and pausing, which lets a paused worker take a notification meant for an idle one.\<close>

definition between_test_and_block :: "sleepers \<Rightarrow> bool" where
  "between_test_and_block s \<longleftrightarrow> (\<exists>st \<in> set (nt_workers s). st = IdleDecided \<or> st = PauseDecided)"

fun orderly :: "sleepers \<Rightarrow> wait_event \<Rightarrow> bool" where
  "orderly s (WSubmit cas t pr) \<longleftrightarrow> \<not> between_test_and_block s"
| "orderly s (WTrySubmit cas t pr) \<longleftrightarrow> \<not> between_test_and_block s"
| "orderly s (WRound c cw k) \<longleftrightarrow> \<not> between_test_and_block s"
| "orderly s WShutdown \<longleftrightarrow> \<not> between_test_and_block s"
| "orderly s WPause \<longleftrightarrow> False"
| "orderly s e \<longleftrightarrow> True"

inductive orderly_reach :: "sleepers \<Rightarrow> sleepers \<Rightarrow> bool" for s0 :: sleepers where
  refl: "orderly_reach s0 s0"
| step: "orderly_reach s0 s \<Longrightarrow> wait_ok s e \<Longrightarrow> orderly s e \<Longrightarrow> orderly_reach s0 (wait_apply e s)"

fun wait_run_ok :: "wait_event list \<Rightarrow> sleepers \<Rightarrow> bool" where
  "wait_run_ok [] s \<longleftrightarrow> True"
| "wait_run_ok (e # es) s \<longleftrightarrow> wait_ok s e \<and> wait_run_ok es (wait_apply e s)"

subsection \<open>No lost wake-up in orderly runs\<close>

definition wait_inv :: "sleepers \<Rightarrow> bool" where
  "wait_inv s \<longleftrightarrow> pool_inv (nt_pool s) \<and> nt_workers s \<noteq> [] \<and>
     length (nt_workers s) = unat (pl_num_threads (nt_pool s)) \<and> \<not> pl_paused (nt_pool s) \<and>
     (\<forall>st \<in> set (nt_workers s). st \<noteq> PauseBlocked \<and> st \<noteq> PauseDecided \<and>
        (st = IdleDecided \<longrightarrow> pl_running (nt_pool s) \<and> \<not> has_pending_work (nt_pool s)) \<and>
        (st = IdleBlocked \<longrightarrow> pl_running (nt_pool s) \<or> 0 < nt_all s) \<and>
        (st = Finished \<longrightarrow> \<not> pl_running (nt_pool s))) \<and>
     (has_pending_work (nt_pool s) \<longrightarrow> 0 < nt_one s \<or> (\<exists>st \<in> set (nt_workers s). \<not> blocked st))"

text \<open>A worker's move never puts work into the queues, and a worker that blocks has seen none.\<close>

lemma advance_law:
  assumes inv: "wait_inv s" and w: "w < length (nt_workers s)" and step: "advance cas w s = (p, st)"
  shows "pool_inv p \<and> pl_num_threads p = pl_num_threads (nt_pool s) \<and> pl_running p = pl_running (nt_pool s) \<and>
    pl_paused p = pl_paused (nt_pool s) \<and> (has_pending_work p \<longrightarrow> has_pending_work (nt_pool s))"
proof (cases "nt_workers s ! w = Search")
  case True
  let ?p = "nt_pool s"
  have pinv: "pool_inv ?p" and w': "w < unat (pl_num_threads ?p)"
    using inv w by (simp_all add: wait_inv_def)
  obtain p' r where found: "find_task cas ?p w = (p', r)" by fastforce
  have p: "p' = p" using step True found by (cases r) (simp_all add: advance_def)
  have paused: "pl_paused p' = pl_paused ?p"
    using found by (auto simp: find_task_def Let_def split: prod.splits option.splits)
  show ?thesis
  proof (cases r)
    case None
    with find_task_None [OF pinv w'] found p pinv show ?thesis by auto
  next
    case (Some t)
    with found have "find_task cas ?p w = (p', Some t)" by simp
    note law = find_task_Some [OF pinv w' this]
    then have "has_pending_work ?p" using queued_items_empty_iff [OF pinv] by auto
    with law paused p show ?thesis by auto
  qed
next
  case False
  with step have "p = nt_pool s" by (auto simp: advance_def Let_def split: position.splits)
  with inv show ?thesis by (simp add: wait_inv_def)
qed

lemma in_update: "st \<in> set (xs[i := x]) \<Longrightarrow> st \<in> set xs \<or> st = x"
  using set_update_subset_insert [of xs i x] by blast

lemma advance_position:
  assumes "advance cas w s = (p, st)"
  shows "st = IdleBlocked \<Longrightarrow> nt_workers s ! w = IdleBlocked \<or> nt_workers s ! w = IdleDecided"
    "st = PauseBlocked \<Longrightarrow> nt_workers s ! w = PauseBlocked \<or> nt_workers s ! w = PauseDecided"
    "st = IdleDecided \<Longrightarrow> p = nt_pool s \<and> pl_running p \<and> \<not> has_pending_work p"
    "st = PauseDecided \<Longrightarrow> pl_paused (nt_pool s)"
    "st = Finished \<Longrightarrow> nt_workers s ! w = Finished \<or> \<not> pl_running (nt_pool s)"
  using assms
  by (cases "nt_workers s ! w"; simp add: advance_def Let_def split: if_splits prod.splits option.splits)+

lemma wait_invD:
  assumes "wait_inv s"
  shows "pool_inv (nt_pool s)" "length (nt_workers s) = unat (pl_num_threads (nt_pool s))"
    "\<not> pl_paused (nt_pool s)"
    "st \<in> set (nt_workers s) \<Longrightarrow> st \<noteq> PauseBlocked \<and> st \<noteq> PauseDecided"
    "IdleDecided \<in> set (nt_workers s) \<Longrightarrow> pl_running (nt_pool s) \<and> \<not> has_pending_work (nt_pool s)"
    "IdleBlocked \<in> set (nt_workers s) \<Longrightarrow> pl_running (nt_pool s) \<or> 0 < nt_all s"
    "Finished \<in> set (nt_workers s) \<Longrightarrow> \<not> pl_running (nt_pool s)"
    "has_pending_work (nt_pool s) \<Longrightarrow> 0 < nt_one s \<or> (\<exists>st \<in> set (nt_workers s). \<not> blocked st)"
  using assms by (auto simp: wait_inv_def)

lemma worker_moves_inv:
  assumes inv: "wait_inv s" and w: "w < length (nt_workers s)"
  shows "wait_inv (worker_moves cas w s)"
proof -
  obtain p st where step: "advance cas w s = (p, st)" by fastforce
  note law = advance_law [OF inv w step] and pos = advance_position [OF step]
  let ?old = "nt_workers s ! w"
  have old: "?old \<in> set (nt_workers s)" using w by simp
  have sides: "st \<noteq> PauseBlocked" "st \<noteq> PauseDecided" "st = Finished \<Longrightarrow> \<not> pl_running (nt_pool s)"
    using pos(2) wait_invD(4) [OF inv old] apply blast
    using pos(4) wait_invD(3) [OF inv] apply blast
    using pos(5) wait_invD(7) [OF inv] old by metis
  have idle: "pl_running (nt_pool s) \<or> 0 < nt_all s" if "st = IdleBlocked"
    using pos(1) [OF that] wait_invD(5,6) [OF inv] old by metis
  have awake: "0 < nt_one s \<or> (\<exists>st' \<in> set ((nt_workers s)[w := st]). \<not> blocked st')" if p: "has_pending_work p"
  proof (cases "st = IdleBlocked")
    case True
    have "has_pending_work (nt_pool s)" using law p by blast
    with pos(1) [OF True] wait_invD(5) [OF inv] old have "?old = st" using True by metis
    then have "(nt_workers s)[w := st] = nt_workers s" by (metis list_update_id)
    with wait_invD(8) [OF inv \<open>has_pending_work (nt_pool s)\<close>] show ?thesis by simp
  next
    case False
    with sides(1) have "\<not> blocked st" by (simp add: blocked_def)
    with w show ?thesis by (meson set_update_memI)
  qed
  have "st' \<noteq> PauseBlocked \<and> st' \<noteq> PauseDecided \<and> (st' = IdleDecided \<longrightarrow> pl_running p \<and> \<not> has_pending_work p) \<and>
      (st' = IdleBlocked \<longrightarrow> pl_running p \<or> 0 < nt_all s) \<and> (st' = Finished \<longrightarrow> \<not> pl_running p)"
    if "st' \<in> set ((nt_workers s)[w := st])" for st'
  proof (cases "st' = st")
    case True
    then show ?thesis using sides pos(3) idle law by auto
  next
    case False
    with in_update [OF that] have "st' \<in> set (nt_workers s)" by blast
    then show ?thesis using wait_invD(4-7) [OF inv] law by metis
  qed
  then show ?thesis
    using wait_invD(1-3) [OF inv] w step law awake by (auto simp: wait_inv_def worker_moves_def)
qed

text \<open>A change of the queues while no worker is between its test and its block: it comes with a
  notification, or the queues hold no more than before.\<close>

lemma queues_change_inv:
  assumes inv: "wait_inv s" and gap: "\<not> between_test_and_block s"
    and pool: "pool_inv p" "pl_num_threads p = pl_num_threads (nt_pool s)"
      "pl_running p = pl_running (nt_pool s)" "pl_paused p = pl_paused (nt_pool s)"
    and told: "n = nt_one s \<and> queued_items p = queued_items (nt_pool s) \<or> n = Suc (nt_one s)"
  shows "wait_inv (s\<lparr>nt_pool := p, nt_one := n\<rparr>)"
proof -
  have "has_pending_work p \<longrightarrow> 0 < n \<or> (\<exists>st \<in> set (nt_workers s). \<not> blocked st)"
    using told inv queued_items_empty_iff [of "nt_pool s"] queued_items_empty_iff [OF pool(1)]
    by (auto simp: wait_inv_def)
  then show ?thesis
    using inv gap pool by (auto simp: wait_inv_def between_test_and_block_def)
qed

text \<open>A submission that returns has queued its task, or waits and has changed no queue.\<close>

lemma pool_submit_queues:
  assumes inv: "pool_inv q" and step: "pool_submit cas q t pr = Return p"
  shows "queued_items p = queued_items q + (if length (pl_waiting p) = length (pl_waiting q) then {#t#} else {#}) \<and>
    pl_paused p = pl_paused q \<and> pl_running q"
proof -
  have run: "pl_running q" using step by (auto simp: pool_submit_def split: if_splits)
  obtain p1 ok where loc: "try_submit_to_local (fst cas) q t pr = Return (p1, ok)"
    using run step by (auto simp: pool_submit_def split: outcome.splits)
  note law1 = submit_local_law [OF inv loc]
  obtain p2 r where round: "submit_round (fst (snd cas)) (snd (snd cas)) p1 t pr = (p2, r)" by fastforce
  have "pool_inv p1" using law1 by simp
  note law2 = submit_round_law [OF this round]
  have paused: "pl_paused p1 = pl_paused q" "pl_paused p2 = pl_paused p1"
    using loc round by (auto simp: try_submit_to_local_def submit_round_def Let_def split: if_splits prod.splits)
  have "p = (if ok then p1 else if r = Again then p2\<lparr>pl_waiting := pl_waiting p2 @ [(t, pr)]\<rparr> else p2)"
    using step run loc round by (cases r) (auto simp: pool_submit_def split: if_splits)
  with law1 law2 run paused show ?thesis by (cases r) (auto simp: queued_items_def)
qed

lemma submit_moves_inv:
  assumes inv: "wait_inv s" and gap: "\<not> between_test_and_block s"
  shows "wait_inv (submit_moves cas t pr s)"
proof (cases "pool_submit cas (nt_pool s) t pr")
  case (Return p)
  note law = pool_submit_law [OF wait_invD(1) [OF inv] Return] pool_submit_queues [OF wait_invD(1) [OF inv] Return]
  show ?thesis
    unfolding submit_moves_def Return outcome.case
    by (rule queues_change_inv [OF inv gap]) (use law in auto)
qed (use inv in \<open>simp_all add: submit_moves_def\<close>)

lemma try_submit_law:
  assumes inv: "pool_inv p" and step: "pool_try_submit cas p t pr = Return (p', ok)"
  shows "pool_inv p' \<and> queued_items p' = queued_items p + (if ok then {#t#} else {#}) \<and>
    pl_num_threads p' = pl_num_threads p \<and> pl_running p' = pl_running p \<and> pl_paused p' = pl_paused p"
proof (cases "pl_running p")
  case True
  obtain p1 ok1 where loc: "try_submit_to_local (fst cas) p t pr = Return (p1, ok1)"
    using True step by (auto simp: pool_try_submit_def split: outcome.splits)
  have paused: "pl_paused p1 = pl_paused p"
    using loc by (auto simp: try_submit_to_local_def Let_def split: if_splits prod.splits)
  note law = submit_local_law [OF inv loc]
  obtain g ok2 where glob: "pqs_try_enqueue (snd cas) (pl_global p1) t pr = (g, ok2)" by fastforce
  have inv1: "pool_inv p1" using law by simp
  then have "pqs_inv (pl_global p1)" by (simp add: pool_inv_def)
  note law2 = pqs_enqueue_law [OF this glob]
  have "queued_items (p1\<lparr>pl_global := g\<rparr>) = queued_items p1 + (if ok2 then {#t#} else {#})"
    using queued_items_global [of g p1] law2 by (auto simp: ac_simps)
  moreover have "p' = (if ok1 then p1 else p1\<lparr>pl_global := g\<rparr>)" "ok = (ok1 \<or> ok2)"
    using step True loc glob by (auto simp: pool_try_submit_def split: if_splits)
  ultimately show ?thesis using law law2 paused inv1 pool_inv_update(2) [OF inv1] by auto
qed (use assms in \<open>simp add: pool_try_submit_def\<close>)

lemma try_submit_moves_inv:
  assumes inv: "wait_inv s" and gap: "\<not> between_test_and_block s"
  shows "wait_inv (try_submit_moves cas t pr s)"
proof (cases "pool_try_submit cas (nt_pool s) t pr")
  case (Return r)
  obtain p ok where r: "r = (p, ok)" by fastforce
  note law = try_submit_law [OF wait_invD(1) [OF inv] Return [unfolded r]]
  show ?thesis
    unfolding try_submit_moves_def Return r outcome.case prod.case
    by (rule queues_change_inv [OF inv gap]) (use law in auto)
qed (use inv in \<open>simp_all add: try_submit_moves_def\<close>)

lemma round_moves_inv:
  assumes inv: "wait_inv s" and gap: "\<not> between_test_and_block s"
  shows "wait_inv (round_moves c cw k s)"
proof (cases "k < length (pl_waiting (nt_pool s))")
  case True
  let ?t = "fst (pl_waiting (nt_pool s) ! k)" and ?pr = "snd (pl_waiting (nt_pool s) ! k)"
  obtain p1 r where round: "submit_round c cw (nt_pool s) ?t ?pr = (p1, r)" by fastforce
  note law = submit_round_law [OF wait_invD(1) [OF inv] round]
  note step = waiting_round_law [OF wait_invD(1) [OF inv], of c cw k]
  have paused: "pl_paused p1 = pl_paused (nt_pool s)"
    using round by (auto simp: submit_round_def split: if_splits prod.splits)
  have p: "waiting_round c cw k (nt_pool s) =
      (if r = Again then p1 else p1\<lparr>pl_waiting := take k (pl_waiting p1) @ drop (Suc k) (pl_waiting p1)\<rparr>)"
    using True round by (cases r) (simp_all add: waiting_round_def)
  show ?thesis
    unfolding round_moves_def Let_def
    by (rule queues_change_inv [OF inv gap]) (use step law paused p True in auto)
next
  case False
  then show ?thesis using inv by (simp add: round_moves_def waiting_round_def)
qed

lemma woken_cases: "woken st = st \<and> \<not> blocked st \<or> blocked st \<and> (woken st = PauseLock \<or> woken st = IdleLock)"
  by (cases st) (simp_all add: blocked_def)

lemma woken_awake: "\<not> blocked (woken st)"
  by (cases st) (simp_all add: blocked_def)

text \<open>Waking workers never hurts.\<close>

lemma wake_inv:
  assumes inv: "wait_inv s" and length: "length ws = length (nt_workers s)"
    and ws: "\<And>st. st \<in> set ws \<Longrightarrow> st \<in> set (nt_workers s) \<or> st = PauseLock \<or> st = IdleLock"
    and n: "has_pending_work (nt_pool s) \<Longrightarrow> 0 < n1 \<or> (\<exists>st \<in> set ws. \<not> blocked st)"
    and all: "n2 = nt_all s \<or> (\<forall>st \<in> set ws. \<not> blocked st)"
  shows "wait_inv (s\<lparr>nt_workers := ws, nt_one := n1, nt_all := n2\<rparr>)"
proof -
  have "st \<noteq> PauseBlocked \<and> st \<noteq> PauseDecided \<and>
      (st = IdleDecided \<longrightarrow> pl_running (nt_pool s) \<and> \<not> has_pending_work (nt_pool s)) \<and>
      (st = IdleBlocked \<longrightarrow> pl_running (nt_pool s) \<or> 0 < n2) \<and> (st = Finished \<longrightarrow> \<not> pl_running (nt_pool s))"
    if st: "st \<in> set ws" for st
  proof (cases "st = PauseLock \<or> st = IdleLock")
    case False
    with ws [OF st] have old: "st \<in> set (nt_workers s)" by blast
    show ?thesis
    proof (intro conjI impI)
      show "st \<noteq> PauseBlocked" "st \<noteq> PauseDecided" using wait_invD(4) [OF inv old] by blast+
      show "pl_running (nt_pool s)" "\<not> has_pending_work (nt_pool s)" if "st = IdleDecided"
        using wait_invD(5) [OF inv] old that by blast+
      show "\<not> pl_running (nt_pool s)" if "st = Finished" using wait_invD(7) [OF inv] old that by blast
      assume idle: "st = IdleBlocked"
      with all st have "n2 = nt_all s" by (auto simp: blocked_def)
      then show "pl_running (nt_pool s) \<or> 0 < n2" using wait_invD(6) [OF inv] old idle by simp
    qed
  qed auto
  moreover have "nt_workers s \<noteq> []" using inv unfolding wait_inv_def by blast
  then have "ws \<noteq> []" using length by auto
  ultimately show ?thesis
    using wait_invD(1-3) [OF inv] n length by (simp add: wait_inv_def)
qed

lemma woken_member:
  assumes "st \<in> set (xs[w := woken (xs ! w)])" and "w < length xs"
  shows "st \<in> set xs \<or> st = PauseLock \<or> st = IdleLock"
  using in_update [OF assms(1)] woken_cases [of "xs ! w"] nth_mem [OF assms(2)] by metis

lemma wait_apply_inv:
  assumes inv: "wait_inv s" and ok: "wait_ok s e" and ord: "orderly s e"
  shows "wait_inv (wait_apply e s)"
proof (cases e)
  case (WNotifyOne w)
  let ?ws = "(nt_workers s)[w := woken (nt_workers s ! w)]"
  have w: "w < length (nt_workers s)" using ok WNotifyOne by simp
  have "\<not> blocked (woken (nt_workers s ! w))" by (rule woken_awake)
  then have "\<exists>st \<in> set ?ws. \<not> blocked st" using w by (meson set_update_memI)
  then have "wait_inv (s\<lparr>nt_workers := ?ws, nt_one := nt_one s - 1, nt_all := nt_all s\<rparr>)"
    using woken_member w by (intro wake_inv [OF inv]) auto
  then show ?thesis by (simp add: WNotifyOne notify_one_def)
next
  case WNotifyAll
  let ?ws = "map woken (nt_workers s)"
  have awake: "\<forall>st \<in> set ?ws. \<not> blocked st" using woken_awake by simp
  have "wait_inv (s\<lparr>nt_workers := ?ws, nt_one := nt_one s, nt_all := nt_all s - 1\<rparr>)"
  proof (rule wake_inv [OF inv])
    show "st \<in> set (nt_workers s) \<or> st = PauseLock \<or> st = IdleLock" if "st \<in> set ?ws" for st
      using that woken_cases by auto metis
    show "0 < nt_one s \<or> (\<exists>st \<in> set ?ws. \<not> blocked st)"
      using awake inv by (cases "nt_workers s") (auto simp: wait_inv_def)
  qed (use awake in auto)
  then show ?thesis by (simp add: WNotifyAll notify_all_def)
next
  case (WSpurious w)
  let ?ws = "(nt_workers s)[w := woken (nt_workers s ! w)]"
  have w: "w < length (nt_workers s)" using ok WSpurious by simp
  have "\<not> blocked (woken (nt_workers s ! w))" by (rule woken_awake)
  then have "\<exists>st \<in> set ?ws. \<not> blocked st" using w by (meson set_update_memI)
  then have "wait_inv (s\<lparr>nt_workers := ?ws, nt_one := nt_one s, nt_all := nt_all s\<rparr>)"
    using woken_member w by (intro wake_inv [OF inv]) auto
  then show ?thesis by (simp add: WSpurious)
next
  case WShutdown
  then show ?thesis
    using inv ord by (auto simp: wait_inv_def shutdown_stores_def pool_shutdown_def between_test_and_block_def
        has_pending_work_def)
next
  case WResume
  then show ?thesis
    using inv by (auto simp: wait_inv_def resume_stores_def pool_resume_def has_pending_work_def pool_inv_def)
qed (use assms worker_moves_inv submit_moves_inv try_submit_moves_inv round_moves_inv in simp_all)

lemma orderly_inv:
  assumes "orderly_reach (start_workers p) s" and "pool_inv p" and "pl_num_threads p \<noteq> 0"
    and "pl_running p" and "\<not> pl_paused p"
  shows "wait_inv s"
  using assms(1)
proof (induction rule: orderly_reach.induct)
  case refl
  show ?case using assms(2-5) by (simp add: wait_inv_def start_workers_def blocked_def unat_eq_0)
qed (rule wait_apply_inv)

text \<open>C17. When no submission and no shutdown falls between the test and the block of a worker, and
  the pool is not paused, no wake-up is lost: if there is work in the queues and no notification is
  still to be sent, some worker is neither blocked nor at its end as long as the pool runs; and once
  the pool is shut down and all notifications are sent, no worker is blocked.\<close>

theorem no_lost_wakeup:
  assumes "pool_inv p" and "pl_num_threads p \<noteq> 0" and "pl_running p" and "\<not> pl_paused p"
    and "orderly_reach (start_workers p) s"
  shows "(has_pending_work (nt_pool s) \<and> pl_running (nt_pool s) \<and> nt_one s = 0 \<longrightarrow>
      (\<exists>st \<in> set (nt_workers s). \<not> blocked st \<and> st \<noteq> Finished)) \<and>
    (\<not> pl_running (nt_pool s) \<and> nt_all s = 0 \<longrightarrow> (\<forall>st \<in> set (nt_workers s). \<not> blocked st))"
proof -
  note inv = orderly_inv [OF assms(5,1-4)]
  have "\<exists>st \<in> set (nt_workers s). \<not> blocked st \<and> st \<noteq> Finished"
    if work: "has_pending_work (nt_pool s)" "pl_running (nt_pool s)" "nt_one s = 0"
  proof -
    obtain st where "st \<in> set (nt_workers s)" "\<not> blocked st"
      using wait_invD(8) [OF inv work(1)] work(3) by auto
    moreover from this(1) have "st \<noteq> Finished" using wait_invD(7) [OF inv] work(2) by blast
    ultimately show ?thesis by blast
  qed
  moreover have "\<not> blocked st" if "\<not> pl_running (nt_pool s)" "nt_all s = 0" "st \<in> set (nt_workers s)" for st
    using wait_invD(4) [OF inv that(3)] wait_invD(6) [OF inv] that by (auto simp: blocked_def)
  ultimately show ?thesis by blast
qed

subsection \<open>Lost wake-ups\<close>

text \<open>Events that neither change a flag with a notification to all nor wake a worker by chance.\<close>

fun no_call_to_all :: "wait_event \<Rightarrow> bool" where
  "no_call_to_all WShutdown \<longleftrightarrow> False"
| "no_call_to_all WResume \<longleftrightarrow> False"
| "no_call_to_all (WSpurious w) \<longleftrightarrow> False"
| "no_call_to_all e \<longleftrightarrow> True"

definition asleep_for_good :: "nat \<Rightarrow> sleepers \<Rightarrow> bool" where
  "asleep_for_good w s \<longleftrightarrow> w < length (nt_workers s) \<and> nt_workers s ! w = IdleBlocked \<and>
     \<not> pl_running (nt_pool s) \<and> nt_one s = 0 \<and> nt_all s = 0 \<and> pl_waiting (nt_pool s) = []"

lemma asleep_step:
  assumes s: "asleep_for_good w s" and ok: "wait_ok s e" and e: "no_call_to_all e"
  shows "asleep_for_good w (wait_apply e s)"
proof (cases e)
  case (WMove cas v)
  obtain p st where step: "advance cas v s = (p, st)" by fastforce
  have "pl_running p = pl_running (nt_pool s) \<and> pl_waiting p = pl_waiting (nt_pool s)"
    using step by (cases "nt_workers s ! v")
      (auto simp: advance_def Let_def find_task_def split: if_splits prod.splits option.splits)
  moreover have "v = w \<Longrightarrow> st = IdleBlocked" using s step by (simp add: asleep_for_good_def advance_def)
  ultimately show ?thesis
    using s step by (cases "v = w") (auto simp: WMove worker_moves_def asleep_for_good_def)
next
  case (WSubmit cas t pr)
  then show ?thesis using s by (simp add: submit_moves_def pool_submit_def asleep_for_good_def)
next
  case (WTrySubmit cas t pr)
  then show ?thesis using s by (simp add: try_submit_moves_def pool_try_submit_def asleep_for_good_def)
next
  case (WRound c cw k)
  then show ?thesis using s by (simp add: round_moves_def waiting_round_def asleep_for_good_def)
qed (use s ok e in \<open>simp_all add: asleep_for_good_def pool_pause_def\<close>)

lemma asleep_run: "asleep_for_good w s \<Longrightarrow> wait_run_ok es s \<Longrightarrow> \<forall>e \<in> set es. no_call_to_all e \<Longrightarrow>
   asleep_for_good w (fold wait_apply es s)"
  by (induction es arbitrary: s) (simp_all add: asleep_step)

lemma asleep_not_joined:
  assumes "asleep_for_good w s"
  shows "nt_workers s ! w = IdleBlocked \<and> \<not> shutdown_returns s"
proof -
  from assms have "w < length (nt_workers s)" "nt_workers s ! w = IdleBlocked"
    by (simp_all add: asleep_for_good_def)
  moreover from this have "IdleBlocked \<in> set (nt_workers s)" by (metis nth_mem)
  ultimately show ?thesis by (auto simp: shutdown_returns_def)
qed

text \<open>C18. \<open>shutdown\<close> may never return. When a worker has found no work and the pool running, and
  \<open>shutdown\<close> stores and notifies before that worker blocks, the worker sleeps through every further
  run of workers, submissions and notifications, and is never joined; only another \<open>shutdown\<close> or
  \<open>resume\<close> from a different thread, or a spurious wake-up, can end that.\<close>

theorem shutdown_may_hang:
  assumes "w < length (nt_workers s)" and "nt_workers s ! w = IdleDecided"
    and "nt_one s = 0" and "nt_all s = 0" and "pl_waiting (nt_pool s) = []"
    and "wait_run_ok es (fold wait_apply [WShutdown, WNotifyAll, WMove cas w] s)"
    and "\<forall>e \<in> set es. no_call_to_all e"
  shows "let s' = fold wait_apply ([WShutdown, WNotifyAll, WMove cas w] @ es) s
    in nt_workers s' ! w = IdleBlocked \<and> \<not> shutdown_returns s'"
proof -
  have "asleep_for_good w (fold wait_apply [WShutdown, WNotifyAll, WMove cas w] s)"
    using assms(1-5)
    by (simp add: asleep_for_good_def shutdown_stores_def notify_all_def worker_moves_def advance_def
        pool_shutdown_def)
  from asleep_run [OF this assms(6,7)]
  have "asleep_for_good w (fold wait_apply ([WShutdown, WNotifyAll, WMove cas w] @ es) s)" by simp
  from asleep_not_joined [OF this] show ?thesis unfolding Let_def .
qed

definition pool1 :: pool where
  "pool1 = pool2\<lparr>pl_num_threads := 1, pl_locals := [set4]\<rparr>"

definition idle_moves :: "wait_event list" where
  "idle_moves = replicate 5 (WMove (\<lambda>_ _. True) 0)"

definition decided1 :: sleepers where
  "decided1 = fold wait_apply idle_moves (start_workers pool1)"

lemma decided1_facts: "nt_workers decided1 = [IdleDecided]" "nt_one decided1 = 0" "nt_all decided1 = 0"
  "pl_waiting (nt_pool decided1) = []"
  by code_simp+

theorem shutdown_may_hang_witness:
  "\<not> shutdown_returns (fold wait_apply ([WShutdown, WNotifyAll, WMove (\<lambda>_ _. True) 0] @
     [WMove (\<lambda>_ _. True) 0, WSubmit (True, True, True) 7 Normal]) decided1)"
proof -
  have run: "wait_run_ok [WMove (\<lambda>_ _. True) 0, WSubmit (True, True, True) 7 Normal]
      (fold wait_apply [WShutdown, WNotifyAll, WMove (\<lambda>_ _. True) 0] decided1)" by code_simp
  have "0 < length (nt_workers decided1)" "nt_workers decided1 ! 0 = IdleDecided"
    by (simp_all add: decided1_facts(1))
  from shutdown_may_hang [OF this decided1_facts(2-4) run] show ?thesis by (simp add: Let_def)
qed

definition orderly1 :: sleepers where
  "orderly1 = fold wait_apply (idle_moves @ [WMove (\<lambda>_ _. True) 0, WSubmit (True, True, True) 7 Normal,
     WNotifyOne 0]) (start_workers pool1)"

fun orderly_run_ok :: "wait_event list \<Rightarrow> sleepers \<Rightarrow> bool" where
  "orderly_run_ok [] s \<longleftrightarrow> True"
| "orderly_run_ok (e # es) s \<longleftrightarrow> wait_ok s e \<and> orderly s e \<and> orderly_run_ok es (wait_apply e s)"

lemma orderly_run: "orderly_reach s0 s \<Longrightarrow> orderly_run_ok es s \<Longrightarrow> orderly_reach s0 (fold wait_apply es s)"
  by (induction es arbitrary: s) (auto intro: orderly_reach.step)

lemma orderly1_reach: "orderly_reach (start_workers pool1) orderly1"
  unfolding orderly1_def by (rule orderly_run [OF orderly_reach.refl]) code_simp

lemma pool1_facts: "pool_inv pool1" "pl_num_threads pool1 \<noteq> 0" "pl_running pool1" "\<not> pl_paused pool1"
  using pool2_inv by (simp_all add: pool_inv_def pool1_def pool2_def)

lemma decided1_pool: "pool_inv (nt_pool decided1)"
proof -
  have "orderly_reach (start_workers pool1) decided1"
    unfolding decided1_def by (rule orderly_run [OF orderly_reach.refl]) code_simp
  from orderly_inv [OF this pool1_facts] show ?thesis by (rule wait_invD(1))
qed

theorem no_lost_wakeup_witness:
  "has_pending_work (nt_pool orderly1) \<and> (\<exists>st \<in> set (nt_workers orderly1). \<not> blocked st)"
proof -
  have "has_pending_work (nt_pool orderly1)" "pl_running (nt_pool orderly1)" "nt_one orderly1 = 0"
    by code_simp+
  with no_lost_wakeup [OF pool1_facts orderly1_reach] show ?thesis by blast
qed

text \<open>A submission may be forgotten. When the only worker that is not asleep has found no work,
  and \<open>submit\<close> queues a task and notifies before that worker blocks, every worker is asleep while
  the task is in the queue and no notification is left to be sent.\<close>

theorem submit_loses_wakeup:
  assumes "nt_workers s = [IdleDecided]" and "nt_one s = 0" and "pool_inv (nt_pool s)"
    and "pool_submit cas (nt_pool s) t pr = Return p"
    and "length (pl_waiting p) = length (pl_waiting (nt_pool s))"
  shows "let s' = fold wait_apply [WSubmit cas t pr, WNotifyOne 0, WMove cw 0] s
    in wait_run_ok [WSubmit cas t pr, WNotifyOne 0, WMove cw 0] s \<and>
       nt_workers s' = [IdleBlocked] \<and> nt_one s' = 0 \<and> t \<in># queued_items (nt_pool s')"
proof -
  have "t \<in># queued_items p"
    using pool_submit_queues [OF assms(3,4)] assms(5) by simp
  then show ?thesis
    using assms(1,2,4,5)
    by (simp add: submit_moves_def notify_one_def worker_moves_def advance_def blocked_def Let_def)
qed

theorem submit_loses_wakeup_witness:
  "\<exists>p s'. pool_submit (True, True, True) (nt_pool decided1) 7 Normal = Return p \<and>
     s' = fold wait_apply [WSubmit (True, True, True) 7 Normal, WNotifyOne 0, WMove (\<lambda>_ _. True) 0] decided1 \<and>
     nt_workers s' = [IdleBlocked] \<and> 7 \<in># queued_items (nt_pool s')"
proof -
  have "case pool_submit (True, True, True) (nt_pool decided1) 7 Normal of
      Return p \<Rightarrow> length (pl_waiting p) = length (pl_waiting (nt_pool decided1)) | _ \<Rightarrow> False"
    by code_simp
  then obtain p where sub: "pool_submit (True, True, True) (nt_pool decided1) 7 Normal = Return p"
    "length (pl_waiting p) = length (pl_waiting (nt_pool decided1))" by (auto split: outcome.splits)
  from submit_loses_wakeup [OF decided1_facts(1,2) decided1_pool sub] sub(1) show ?thesis by (simp add: Let_def)
qed

end
