(* ===== verification/Dependency_Graph.thy ===== *)
theory Dependency_Graph
  imports Task
begin

section \<open>The dependency graph\<close>

text \<open>
  \<open>DependencyGraph\<close> of \<open>include/task_engine/dependency_graph.hpp\<close>, together with
  \<open>Task::add_dependency\<close>. The graph's map from ids to tasks is an association list in the order of
  its iteration, and \<open>g_heap\<close> is the store that the task pointers refer to: edges are kept twice, as
  the \<open>dependencies_\<close> of a task and as the \<open>dependents_\<close> of the other one, and every operation
  mutates tasks through pointers. The graph's mutex makes each operation one step.
\<close>

record dep_graph =
  g_heap :: "task_ptr \<Rightarrow> task"
  g_tasks :: "(task_id \<times> task_ptr) list"

definition empty_graph :: "(task_ptr \<Rightarrow> task) \<Rightarrow> dep_graph" where
  "empty_graph h = \<lparr>g_heap = h, g_tasks = []\<rparr>"

definition on_task :: "task_ptr \<Rightarrow> (task \<Rightarrow> task) \<Rightarrow> (task_ptr \<Rightarrow> task) \<Rightarrow> task_ptr \<Rightarrow> task" where
  "on_task p f h = h(p := f (h p))"

subsection \<open>Operations\<close>

definition add_task :: "task_ptr \<Rightarrow> dep_graph \<Rightarrow> dep_graph" where
  "add_task p g = g\<lparr>g_tasks := AList.update (t_id (g_heap g p)) p (g_tasks g)\<rparr>"

text \<open>\<open>Task::add_dependency\<close>, called on the task \<open>p\<close>.\<close>

definition task_add_dependency ::
  "task_ptr \<Rightarrow> task_ptr \<Rightarrow> (task_ptr \<Rightarrow> task) \<Rightarrow> task_ptr \<Rightarrow> task" where
  "task_add_dependency p dependency h =
     on_task p (\<lambda>t. t\<lparr>t_dependencies_count := t_dependencies_count t + 1\<rparr>)
       (on_task dependency (\<lambda>t. t\<lparr>t_dependents := t_dependents t @ [p]\<rparr>)
         (on_task p (\<lambda>t. t\<lparr>t_dependencies := t_dependencies t @ [dependency]\<rparr>) h))"

definition graph_add_dependency :: "task_id \<Rightarrow> task_id \<Rightarrow> dep_graph \<Rightarrow> dep_graph" where
  "graph_add_dependency tid dependency_id g =
     (case (map_of (g_tasks g) tid, map_of (g_tasks g) dependency_id) of
        (Some p, Some d) \<Rightarrow> g\<lparr>g_heap := task_add_dependency p d (g_heap g)\<rparr>
      | _ \<Rightarrow> g)"

definition get_ready_tasks :: "dep_graph \<Rightarrow> task_ptr list" where
  "get_ready_tasks g = filter (\<lambda>p. is_ready (g_heap g p)) (map snd (g_tasks g))"

definition notify_task_completed :: "task_id \<Rightarrow> dep_graph \<Rightarrow> dep_graph" where
  "notify_task_completed tid g =
     (case map_of (g_tasks g) tid of
        Some p \<Rightarrow> g\<lparr>g_heap := fold (\<lambda>d. on_task d notify_dependency_completed)
                                (t_dependents (g_heap g p)) (g_heap g)\<rparr>
      | None \<Rightarrow> g)"

definition all_completed :: "dep_graph \<Rightarrow> bool" where
  "all_completed g \<longleftrightarrow> (\<forall>p \<in> set (map snd (g_tasks g)).
     let status = t_status (g_heap g p)
     in \<not> (status \<noteq> Completed \<and> status \<noteq> Failed \<and> status \<noteq> Cancelled))"

definition get_task :: "task_id \<Rightarrow> dep_graph \<Rightarrow> task_ptr option" where
  "get_task tid g = map_of (g_tasks g) tid"

definition remove_task :: "task_id \<Rightarrow> dep_graph \<Rightarrow> dep_graph \<times> bool" where
  "remove_task tid g =
     (case map_of (g_tasks g) tid of
        None \<Rightarrow> (g, False)
      | Some p \<Rightarrow>
          (let h = fold (\<lambda>d. on_task d (\<lambda>t. t\<lparr>t_dependents := removeAll p (t_dependents t)\<rparr>))
                     (t_dependencies (g_heap g p)) (g_heap g);
               h = fold (\<lambda>d. on_task d (\<lambda>t. t\<lparr>t_dependencies := removeAll p (t_dependencies t),
                                              t_dependencies_count := t_dependencies_count t - 1\<rparr>))
                     (t_dependents (h p)) h
           in (g\<lparr>g_heap := h, g_tasks := AList.delete tid (g_tasks g)\<rparr>, True)))"

definition task_count :: "dep_graph \<Rightarrow> nat" where
  "task_count g = length (g_tasks g)"

definition graph_contains :: "task_id \<Rightarrow> dep_graph \<Rightarrow> bool" where
  "graph_contains tid g \<longleftrightarrow> map_of (g_tasks g) tid \<noteq> None"

definition graph_dependents :: "task_id \<Rightarrow> dep_graph \<Rightarrow> task_id list" where
  "graph_dependents tid g =
     (case map_of (g_tasks g) tid of
        Some p \<Rightarrow> map (\<lambda>d. t_id (g_heap g d)) (t_dependents (g_heap g p))
      | None \<Rightarrow> [])"

definition graph_clear :: "dep_graph \<Rightarrow> dep_graph" where
  "graph_clear g = g\<lparr>g_tasks := []\<rparr>"

subsection \<open>Well-formed graphs\<close>

text \<open>
  Ids and pointers are in bijection, edges stay inside the graph, and the two records of an edge
  agree, as often as it was added. \<open>counts_fresh\<close> holds as long as nothing has completed.
\<close>

abbreviation g_ptrs :: "dep_graph \<Rightarrow> task_ptr set" where
  "g_ptrs g \<equiv> snd ` set (g_tasks g)"

definition edges_ok :: "task_ptr set \<Rightarrow> (task_ptr \<Rightarrow> task) \<Rightarrow> bool" where
  "edges_ok P h \<longleftrightarrow>
     (\<forall>p \<in> P. set (t_dependencies (h p)) \<subseteq> P \<and> set (t_dependents (h p)) \<subseteq> P) \<and>
     (\<forall>p \<in> P. \<forall>q \<in> P. count_list (t_dependencies (h p)) q = count_list (t_dependents (h q)) p)"

definition graph_wf :: "dep_graph \<Rightarrow> bool" where
  "graph_wf g \<longleftrightarrow> distinct (map fst (g_tasks g)) \<and> distinct (map snd (g_tasks g)) \<and>
     (\<forall>(i, p) \<in> set (g_tasks g). t_id (g_heap g p) = i) \<and> edges_ok (g_ptrs g) (g_heap g)"

definition counts_fresh :: "dep_graph \<Rightarrow> bool" where
  "counts_fresh g \<longleftrightarrow> (\<forall>p \<in> g_ptrs g.
     t_dependencies_count (g_heap g p) = int (length (t_dependencies (g_heap g p))))"

lemma on_task_same [simp]: "on_task p f h p = f (h p)"
  by (simp add: on_task_def)

lemma on_task_other [simp]: "q \<noteq> p \<Longrightarrow> on_task p f h q = h q"
  by (simp add: on_task_def)

lemma fold_on_task: "fold (\<lambda>d. on_task d f) ds h p = (f ^^ count_list ds p) (h p)"
  by (induction ds arbitrary: h) (simp_all add: on_task_def funpow_swap1)

lemma count_list_removeAll: "count_list (removeAll x xs) y = (if x = y then 0 else count_list xs y)"
  by (induction xs) auto

lemma count_list_zero_iff: "count_list xs x = 0 \<longleftrightarrow> x \<notin> set xs"
  by (rule count_list_0_iff)

lemma map_of_wf:
  assumes "graph_wf g" and "map_of (g_tasks g) i = Some p"
  shows "p \<in> g_ptrs g" "t_id (g_heap g p) = i"
  using assms map_of_SomeD [OF assms(2)] by (force simp: graph_wf_def)+

lemma wf_edge:
  assumes "graph_wf g" and "p \<in> g_ptrs g" and "q \<in> g_ptrs g"
  shows "count_list (t_dependents (g_heap g q)) p = count_list (t_dependencies (g_heap g p)) q"
proof -
  have "edges_ok (g_ptrs g) (g_heap g)" using assms(1) by (simp add: graph_wf_def)
  with assms(2,3) show ?thesis unfolding edges_ok_def by metis
qed

lemma wf_closed:
  assumes "graph_wf g" and "p \<in> g_ptrs g"
  shows "set (t_dependencies (g_heap g p)) \<subseteq> g_ptrs g" "set (t_dependents (g_heap g p)) \<subseteq> g_ptrs g"
proof -
  have "edges_ok (g_ptrs g) (g_heap g)" using assms(1) by (simp add: graph_wf_def)
  with assms(2) show "set (t_dependencies (g_heap g p)) \<subseteq> g_ptrs g"
    "set (t_dependents (g_heap g p)) \<subseteq> g_ptrs g" unfolding edges_ok_def by metis+
qed

lemma graph_wf_cong:
  assumes "graph_wf g" and "g_tasks g' = g_tasks g"
    and "\<And>q. t_dependencies (g_heap g' q) = t_dependencies (g_heap g q)"
    and "\<And>q. t_dependents (g_heap g' q) = t_dependents (g_heap g q)"
    and "\<And>q. t_id (g_heap g' q) = t_id (g_heap g q)"
  shows "graph_wf g'"
  using assms(1) unfolding graph_wf_def edges_ok_def assms(2-5) .

lemma map_of_id:
  assumes "graph_wf g" and "p \<in> g_ptrs g"
  shows "map_of (g_tasks g) (t_id (g_heap g p)) = Some p"
proof -
  from assms(2) obtain i where "(i, p) \<in> set (g_tasks g)" by force
  with assms(1) show ?thesis by (auto simp: graph_wf_def)
qed

lemma edges_add_dependency:
  assumes ok: "edges_ok P h" and p: "p \<in> P" and d: "d \<in> P"
  shows "edges_ok P (task_add_dependency p d h)"
proof -
  have deps: "t_dependencies (task_add_dependency p d h q) =
      t_dependencies (h q) @ (if q = p then [d] else [])" for q
    by (simp add: task_add_dependency_def on_task_def)
  have dpts: "t_dependents (task_add_dependency p d h q) =
      t_dependents (h q) @ (if q = d then [p] else [])" for q
    by (simp add: task_add_dependency_def on_task_def)
  show ?thesis
    using assms by (auto simp: edges_ok_def deps dpts)
qed

lemma add_dependency_frame:
  "t_id (task_add_dependency p d h q) = t_id (h q)"
  "t_status (task_add_dependency p d h q) = t_status (h q)"
  "t_dependencies (task_add_dependency p d h q) = t_dependencies (h q) @ (if q = p then [d] else [])"
  "t_dependencies_count (task_add_dependency p d h q) =
     t_dependencies_count (h q) + (if q = p then 1 else 0)"
  by (simp_all add: task_add_dependency_def on_task_def)


subsection \<open>Adding tasks and dependencies\<close>

text \<open>A task just made: no edges, not in the graph, and an id of its own.\<close>

definition fresh_task :: "task_ptr \<Rightarrow> dep_graph \<Rightarrow> bool" where
  "fresh_task p g \<longleftrightarrow> p \<notin> g_ptrs g \<and> map_of (g_tasks g) (t_id (g_heap g p)) = None \<and>
     t_dependencies (g_heap g p) = [] \<and> t_dependents (g_heap g p) = [] \<and>
     t_dependencies_count (g_heap g p) = 0"

lemma update_fresh: "map_of al k = None \<Longrightarrow> AList.update k v al = al @ [(k, v)]"
  by (induction al) (auto split: if_splits)

lemma count_list_notin: "set xs \<subseteq> P \<Longrightarrow> p \<notin> P \<Longrightarrow> count_list xs p = 0"
  by (auto simp: count_list_zero_iff)

lemma edges_ok_insert:
  assumes ok: "edges_ok P h" and p: "p \<notin> P" "t_dependencies (h p) = []" "t_dependents (h p) = []"
  shows "edges_ok (insert p P) h"
proof -
  have "set (t_dependencies (h q)) \<subseteq> P" "set (t_dependents (h q)) \<subseteq> P" if "q \<in> P" for q
    using ok that by (simp_all add: edges_ok_def)
  then have "count_list (t_dependencies (h q)) p = 0 \<and> count_list (t_dependents (h q)) p = 0"
    if "q \<in> P" for q using that p(1) by (meson count_list_notin)
  then show ?thesis using ok p by (auto simp: edges_ok_def)
qed

lemma add_fresh_task:
  assumes wf: "graph_wf g" and fresh: "fresh_task p g"
  shows "g_tasks (add_task p g) = g_tasks g @ [(t_id (g_heap g p), p)]"
    "g_heap (add_task p g) = g_heap g" "graph_wf (add_task p g)"
proof -
  show upd: "g_tasks (add_task p g) = g_tasks g @ [(t_id (g_heap g p), p)]"
    using fresh by (simp add: add_task_def update_fresh fresh_task_def)
  show heap: "g_heap (add_task p g) = g_heap g" by (simp add: add_task_def)
  have "edges_ok (insert p (g_ptrs g)) (g_heap g)"
    using wf fresh by (intro edges_ok_insert) (simp_all add: graph_wf_def fresh_task_def)
  then show "graph_wf (add_task p g)"
    using wf fresh unfolding graph_wf_def upd heap
    by (auto simp: fresh_task_def map_of_eq_None_iff)
qed

lemma add_dependency_wf:
  assumes wf: "graph_wf g"
  shows "graph_wf (graph_add_dependency i j g)"
  using wf map_of_wf(1) [OF wf] edges_add_dependency
  by (auto simp: graph_add_dependency_def graph_wf_def add_dependency_frame split: option.splits)


text \<open>Three tasks in a chain, and the graph that the witnesses use.\<close>

definition heap3 :: "task_ptr \<Rightarrow> task" where
  "heap3 p = new_task (of_nat p) (\<lambda>_. Inr AnyEmpty) ''t'' default_options 0"

definition chain3 :: dep_graph where
  "chain3 = graph_add_dependency 3 2 (graph_add_dependency 2 1
     (add_task 3 (add_task 2 (add_task 1 (empty_graph heap3)))))"

lemma chain3_tasks: "g_tasks chain3 = [(1, 1), (2, 2), (3, 3)]"
  by (simp add: chain3_def graph_add_dependency_def add_task_def empty_graph_def heap3_def
      new_task_def)

lemma chain3_heap:
  "g_heap chain3 = task_add_dependency 3 2 (task_add_dependency 2 1 heap3)"
  by (simp add: chain3_def graph_add_dependency_def add_task_def empty_graph_def heap3_def
      new_task_def)

lemma chain3_wf: "graph_wf chain3 \<and> counts_fresh chain3"
  unfolding graph_wf_def counts_fresh_def edges_ok_def chain3_tasks chain3_heap
  by (simp add: task_add_dependency_def on_task_def heap3_def new_task_def)


subsection \<open>Completion\<close>

lemma notify_pow:
  "t_id ((notify_dependency_completed ^^ k) t) = t_id t"
  "t_dependencies ((notify_dependency_completed ^^ k) t) = t_dependencies t"
  "t_dependents ((notify_dependency_completed ^^ k) t) = t_dependents t"
  "t_enqueued ((notify_dependency_completed ^^ k) t) = t_enqueued t"
  "t_dependencies_count ((notify_dependency_completed ^^ k) t) = t_dependencies_count t - int k"
  "t_status ((notify_dependency_completed ^^ k) t) =
     (if 0 < t_dependencies_count t \<and> t_dependencies_count t \<le> int k then Ready else t_status t)"
  by (induction k) (auto simp: notify_dependency_completed_def Let_def)

lemma notify_tasks [simp]: "g_tasks (notify_task_completed i g) = g_tasks g"
  by (simp add: notify_task_completed_def split: option.splits)

lemma notify_unknown: "map_of (g_tasks g) i = None \<Longrightarrow> notify_task_completed i g = g"
  by (simp add: notify_task_completed_def)

lemma notify_heap:
  assumes wf: "graph_wf g" and p: "map_of (g_tasks g) i = Some p" and q: "q \<in> g_ptrs g"
  shows "g_heap (notify_task_completed i g) q =
    (notify_dependency_completed ^^ count_list (t_dependencies (g_heap g q)) p) (g_heap g q)"
  using wf_edge [OF wf q map_of_wf(1) [OF wf p]]
  by (simp add: notify_task_completed_def p fold_on_task)

lemma notify_wf:
  assumes wf: "graph_wf g"
  shows "graph_wf (notify_task_completed i g)"
proof (cases "map_of (g_tasks g) i")
  case (Some p)
  have "g_heap (notify_task_completed i g) q =
      (notify_dependency_completed ^^ count_list (t_dependents (g_heap g p)) q) (g_heap g q)" for q
    by (simp add: notify_task_completed_def Some fold_on_task)
  then show ?thesis using wf by (simp add: graph_wf_def edges_ok_def notify_pow)
qed (simp add: notify_task_completed_def wf)

text \<open>C15. Completing a task lowers the count of each task in the graph by the number of times it
  depends on the completed one, makes Ready exactly the tasks whose count reaches zero in between,
  and changes no edge; completing an unknown id changes nothing.\<close>

theorem notify_completed_counts:
  assumes "graph_wf g"
  shows "graph_wf (notify_task_completed i g) \<and>
    g_tasks (notify_task_completed i g) = g_tasks g \<and>
    (get_task i g = None \<longrightarrow> notify_task_completed i g = g) \<and>
    (\<forall>p q. get_task i g = Some p \<and> q \<in> g_ptrs g \<longrightarrow>
      (let n = int (count_list (t_dependencies (g_heap g q)) p);
           t = g_heap g q; t' = g_heap (notify_task_completed i g) q
       in t_dependencies_count t' = t_dependencies_count t - n \<and>
          t_status t' = (if 0 < t_dependencies_count t \<and> t_dependencies_count t \<le> n
                         then Ready else t_status t) \<and>
          t_dependencies t' = t_dependencies t \<and> t_dependents t' = t_dependents t))"
  using notify_wf [OF assms] notify_heap [OF assms]
  by (auto simp: get_task_def Let_def notify_pow notify_unknown)

theorem notify_completed_counts_witness:
  "t_status (g_heap (notify_task_completed 1 chain3) 2) = Ready \<and>
   t_status (g_heap (notify_task_completed 1 chain3) 3) = Pending"
proof -
  have "get_task 1 chain3 = Some 1" "2 \<in> g_ptrs chain3" "3 \<in> g_ptrs chain3"
    by (simp_all add: get_task_def chain3_tasks)
  then show ?thesis
    using notify_completed_counts [of chain3 1] chain3_wf
    by (simp add: Let_def chain3_heap add_dependency_frame) (simp add: heap3_def new_task_def)
qed

text \<open>In a graph where nothing has completed, the tasks with no dependency are the ready ones.\<close>

lemma ready_when_fresh:
  assumes "counts_fresh g" and "p \<in> g_ptrs g" and "t_status (g_heap g p) = Pending"
    and "\<not> t_enqueued (g_heap g p)"
  shows "p \<in> set (get_ready_tasks g) \<longleftrightarrow> t_dependencies (g_heap g p) = []"
  using assms by (auto simp: get_ready_tasks_def is_ready_def counts_fresh_def)

subsection \<open>Removal\<close>

lemma pow_remove_dependents:
  "((\<lambda>t. t\<lparr>t_dependents := removeAll p (t_dependents t)\<rparr>) ^^ k) t =
   t\<lparr>t_dependents := (if k = 0 then t_dependents t else removeAll p (t_dependents t))\<rparr>"
  by (induction k) simp_all

lemma pow_remove_dependencies:
  "((\<lambda>t. t\<lparr>t_dependencies := removeAll p (t_dependencies t),
           t_dependencies_count := t_dependencies_count t - 1\<rparr>) ^^ k) t =
   t\<lparr>t_dependencies := (if k = 0 then t_dependencies t else removeAll p (t_dependencies t)),
     t_dependencies_count := t_dependencies_count t - int k\<rparr>"
  by (induction k) simp_all

lemma removeAll_trivial: "x \<notin> set xs \<Longrightarrow> removeAll x xs = xs"
  by simp

lemma length_removeAll: "length (removeAll x xs) + count_list xs x = length xs"
  by (induction xs) auto

lemma remove_task_heap:
  assumes wf: "graph_wf g" and p: "map_of (g_tasks g) i = Some p"
    and q: "q \<in> g_ptrs g" "q \<noteq> p"
  shows "g_heap (fst (remove_task i g)) q = (g_heap g q)
    \<lparr>t_dependencies := removeAll p (t_dependencies (g_heap g q)),
     t_dependents := removeAll p (t_dependents (g_heap g q)),
     t_dependencies_count := t_dependencies_count (g_heap g q) -
       int (count_list (t_dependencies (g_heap g q)) p)\<rparr>"
proof -
  let ?h = "g_heap g"
  have sym: "count_list (t_dependencies (?h p)) q = count_list (t_dependents (?h q)) p"
    "count_list (t_dependencies (?h q)) p = count_list (t_dependents (?h p)) q"
    using wf_edge [OF wf q(1) map_of_wf(1) [OF wf p]] wf_edge [OF wf map_of_wf(1) [OF wf p] q(1)]
    by simp_all
  have one: "t_dependents (?h q) = removeAll p (t_dependents (?h q))"
    if "count_list (t_dependencies (?h p)) q = 0"
    using that sym(1) by (simp add: count_list_zero_iff)
  have two: "t_dependencies (?h q) = removeAll p (t_dependencies (?h q))"
    if "count_list (t_dependents (?h p)) q = 0"
    using that sym(2) by (simp add: count_list_zero_iff)
  have three: "count_list (if b then xs else removeAll p xs) q = count_list xs q" for b xs
    using q(2) by (simp add: count_list_removeAll)
  show ?thesis
    using one two q(2)
    by (simp add: remove_task_def p fold_on_task pow_remove_dependents pow_remove_dependencies
        three sym(2))
qed


lemma remove_task_tasks:
  assumes "map_of (g_tasks g) i = Some p"
  shows "g_tasks (fst (remove_task i g)) = AList.delete i (g_tasks g)" "snd (remove_task i g)"
  using assms by (simp_all add: remove_task_def Let_def)

lemma set_delete: "set (AList.delete k al) = {x \<in> set al. fst x \<noteq> k}"
  by (auto simp: AList.delete_eq)

lemma distinct_snd_delete: "distinct (map snd al) \<Longrightarrow> distinct (map snd (AList.delete k al))"
  by (simp add: AList.delete_eq distinct_map_filter)

lemma wf_unique:
  assumes "graph_wf g" and "(i, p) \<in> set (g_tasks g)" and "(j, q) \<in> set (g_tasks g)"
  shows "i = j \<longleftrightarrow> p = q"
proof
  assume "i = j"
  then show "p = q" using assms eq_key_imp_eq_value [of "g_tasks g" i] by (simp add: graph_wf_def)
next
  assume "p = q"
  have "\<forall>(i, p) \<in> set (g_tasks g). t_id (g_heap g p) = i" using assms(1) by (simp add: graph_wf_def)
  from bspec [OF this assms(2)] bspec [OF this assms(3)] \<open>p = q\<close> show "i = j" by simp
qed

lemma remove_task_ptrs:
  assumes wf: "graph_wf g" and p: "map_of (g_tasks g) i = Some p"
  shows "g_ptrs (fst (remove_task i g)) = g_ptrs g - {p}"
proof -
  have "(i, p) \<in> set (g_tasks g)" using p by (rule map_of_SomeD)
  from wf_unique [OF wf this] show ?thesis
    unfolding remove_task_tasks(1) [OF p] set_delete by force
qed

lemma remove_task_fields:
  assumes "graph_wf g" and "map_of (g_tasks g) i = Some p" and "q \<in> g_ptrs (fst (remove_task i g))"
  shows "g_heap (fst (remove_task i g)) q = (g_heap g q)
    \<lparr>t_dependencies := removeAll p (t_dependencies (g_heap g q)),
     t_dependents := removeAll p (t_dependents (g_heap g q)),
     t_dependencies_count := t_dependencies_count (g_heap g q) -
       int (count_list (t_dependencies (g_heap g q)) p)\<rparr>"
  using assms(3) remove_task_ptrs [OF assms(1,2)] by (intro remove_task_heap [OF assms(1,2)]) simp_all

lemma remove_task_wf:
  assumes wf: "graph_wf g" and known: "map_of (g_tasks g) i = Some p"
  defines "g' \<equiv> fst (remove_task i g)"
  shows "graph_wf g'"
proof -
  note ptrs = remove_task_ptrs [OF wf known, folded g'_def]
  note tasks = remove_task_tasks(1) [OF known, folded g'_def]
  note heap = remove_task_fields [OF wf known, folded g'_def]
  have "edges_ok (g_ptrs g') (g_heap g')"
    unfolding edges_ok_def
  proof (intro conjI ballI)
    fix q assume q: "q \<in> g_ptrs g'"
    then have "q \<in> g_ptrs g" by (simp add: ptrs)
    from wf_closed [OF wf this] show "set (t_dependencies (g_heap g' q)) \<subseteq> g_ptrs g'"
      "set (t_dependents (g_heap g' q)) \<subseteq> g_ptrs g'"
      unfolding heap [OF q] by (auto simp: ptrs)
    fix r assume r: "r \<in> g_ptrs g'"
    then show "count_list (t_dependencies (g_heap g' q)) r = count_list (t_dependents (g_heap g' r)) q"
      using q wf_edge [OF wf, of q r] by (simp add: heap ptrs count_list_removeAll)
  qed
  moreover have "distinct (map fst (g_tasks g'))" "distinct (map snd (g_tasks g'))"
    using wf by (simp_all add: tasks graph_wf_def distinct_delete distinct_snd_delete)
  moreover have "\<forall>(j, q) \<in> set (g_tasks g'). t_id (g_heap g' q) = j"
  proof (clarify)
    fix j q assume jq: "(j, q) \<in> set (g_tasks g')"
    then have "q \<in> g_ptrs g'" by force
    moreover have "(j, q) \<in> set (g_tasks g)" using jq by (simp add: tasks set_delete)
    ultimately show "t_id (g_heap g' q) = j" using wf heap by (auto simp: graph_wf_def)
  qed
  ultimately show ?thesis unfolding graph_wf_def by blast
qed

text \<open>C31. Removing a known task keeps the graph well formed and detaches it: its id is unknown and no
  remaining task has an edge to it, while every other id keeps its task, every other edge stays and
  the count of a remaining task falls by exactly the number of its edges that went away. Removing an
  unknown id returns false and changes nothing.\<close>

theorem remove_task_detaches:
  assumes wf: "graph_wf g" and step: "remove_task i g = (g', ok)"
  shows "graph_wf g' \<and> (ok \<longleftrightarrow> graph_contains i g) \<and> (\<not> ok \<longrightarrow> g' = g) \<and>
    (\<forall>j. get_task j g' = (if j = i then None else get_task j g)) \<and>
    (\<forall>p q. get_task i g = Some p \<and> q \<in> g_ptrs g' \<longrightarrow>
      t_dependencies (g_heap g' q) = removeAll p (t_dependencies (g_heap g q)) \<and>
      t_dependents (g_heap g' q) = removeAll p (t_dependents (g_heap g q)) \<and>
      t_dependencies_count (g_heap g' q) - int (length (t_dependencies (g_heap g' q))) =
        t_dependencies_count (g_heap g q) - int (length (t_dependencies (g_heap g q))))"
proof (cases "map_of (g_tasks g) i")
  case None
  with step wf show ?thesis by (auto simp: remove_task_def graph_contains_def get_task_def)
next
  case (Some p)
  have g': "g' = fst (remove_task i g)" using step by simp
  note heap = remove_task_fields [OF wf Some, folded g']
  have "get_task j g' = (if j = i then None else get_task j g)" for j
    using remove_task_tasks(1) [OF Some] by (simp add: g' get_task_def map_of_delete)
  moreover have "t_dependencies_count (g_heap g' q) - int (length (t_dependencies (g_heap g' q))) =
      t_dependencies_count (g_heap g q) - int (length (t_dependencies (g_heap g q)))"
    if "q \<in> g_ptrs g'" for q
    using length_removeAll [of p "t_dependencies (g_heap g q)"] by (simp add: heap [OF that])
  ultimately show ?thesis
    using remove_task_wf [OF wf Some, folded g'] Some heap step remove_task_tasks(2) [OF Some]
    by (simp add: graph_contains_def get_task_def)
qed

theorem remove_task_detaches_witness:
  "graph_wf (fst (remove_task 2 chain3)) \<and> \<not> graph_contains 2 (fst (remove_task 2 chain3))"
  using remove_task_detaches [of chain3 2] chain3_wf
  by (cases "remove_task 2 chain3") (auto simp: graph_contains_def get_task_def)

text \<open>Removing a dependency that has already completed lowers the count a second time: the count of
  the dependent is -1, so the scheduler never finds it ready.\<close>

lemma remove_after_completion_undercounts:
  "t_dependencies_count (g_heap (fst (remove_task 1 (notify_task_completed 1 chain3))) 2) = -1 \<and>
   2 \<notin> set (get_ready_tasks (fst (remove_task 1 (notify_task_completed 1 chain3))))"
proof -
  let ?g = "notify_task_completed 1 chain3"
  have wf: "graph_wf ?g" and tasks: "g_tasks ?g = [(1, 1), (2, 2), (3, 3)]"
    using notify_wf [of chain3 1] chain3_wf by (simp_all add: chain3_tasks)
  have "t_dependencies_count (g_heap ?g 2) = 0" "t_dependencies (g_heap ?g 2) = [1]"
    by (simp_all add: notify_task_completed_def chain3_tasks chain3_heap task_add_dependency_def
        on_task_def heap3_def new_task_def notify_dependency_completed_def Let_def)
  with remove_task_heap [OF wf, of 1 1 2] tasks
  have "t_dependencies_count (g_heap (fst (remove_task 1 ?g)) 2) = -1" by simp
  then show ?thesis by (auto simp: get_ready_tasks_def is_ready_def)
qed

end
