(* ===== verification/Topological_Order.thy ===== *)
theory Topological_Order
  imports Dependency_Graph
begin

section \<open>Topological order and cycles\<close>

text \<open>
  \<open>DependencyGraph::topological_order\<close> and \<open>has_cycles\<close>: Kahn's algorithm over a map of indegrees
  and a map of adjacency lists, both keyed by task id. The loop is a \<open>partial_function\<close>, so that a
  loop that does not end would be \<open>None\<close>. The iteration order of the indegree map is the parameter
  \<open>iter\<close>. Indegrees are 64-bit and \<open>operator[]\<close> inserts 0 for a missing key, both written out.
\<close>

subsection \<open>The algorithm\<close>

type_synonym degrees = "task_id \<Rightarrow> size_t option"

definition initial_indegree :: "dep_graph \<Rightarrow> degrees" where
  "initial_indegree g =
     map_of (map (\<lambda>(i, p). (i, of_nat (length (t_dependencies (g_heap g p))))) (g_tasks g))"

definition adjacency :: "dep_graph \<Rightarrow> task_id \<Rightarrow> task_id list" where
  "adjacency g i = (case map_of (g_tasks g) i of
       Some p \<Rightarrow> map (\<lambda>d. t_id (g_heap g d)) (t_dependents (g_heap g p))
     | None \<Rightarrow> [])"

fun relax :: "task_id list \<Rightarrow> degrees \<times> task_id list \<Rightarrow> degrees \<times> task_id list" where
  "relax [] (deg, ready) = (deg, ready)"
| "relax (d # ds) (deg, ready) =
     (let degree = (case deg d of Some k \<Rightarrow> k | None \<Rightarrow> 0) - 1
      in relax ds (deg(d \<mapsto> degree), if degree = 0 then ready @ [d] else ready))"

partial_function (option) kahn_loop ::
  "(task_id \<Rightarrow> task_id list) \<Rightarrow> degrees \<Rightarrow> task_id list \<Rightarrow> task_id list \<Rightarrow> task_id list option" where
  "kahn_loop adj deg ready order =
     (case ready of
        [] \<Rightarrow> Some order
      | i # rest \<Rightarrow>
          (case relax (adj i) (deg, rest) of
             (deg', ready') \<Rightarrow> kahn_loop adj deg' ready' (order @ [i])))"

declare kahn_loop.simps [code]

definition topological_order ::
  "((task_id \<times> task_ptr) list \<Rightarrow> (task_id \<times> task_ptr) list) \<Rightarrow> dep_graph \<Rightarrow> task_id list option" where
  "topological_order iter g =
     kahn_loop (adjacency g) (initial_indegree g)
       (filter (\<lambda>i. initial_indegree g i = Some 0) (map fst (iter (g_tasks g)))) []"

definition has_cycles ::
  "((task_id \<times> task_ptr) list \<Rightarrow> (task_id \<times> task_ptr) list) \<Rightarrow> dep_graph \<Rightarrow> bool option" where
  "has_cycles iter g = map_option (\<lambda>order. length order \<noteq> length (g_tasks g)) (topological_order iter g)"

subsection \<open>The loop invariant\<close>

text \<open>\<open>waits adj U v\<close> counts the edges into \<open>v\<close> from tasks not yet output.\<close>

definition waits :: "(task_id \<Rightarrow> task_id list) \<Rightarrow> task_id set \<Rightarrow> task_id \<Rightarrow> nat" where
  "waits adj U v = (\<Sum>u \<in> U. count_list (adj u) v)"

definition topo_sorted :: "task_id set \<Rightarrow> (task_id \<Rightarrow> task_id list) \<Rightarrow> task_id list \<Rightarrow> bool" where
  "topo_sorted V adj order \<longleftrightarrow>
     (\<forall>xs v ys. order = xs @ v # ys \<longrightarrow> (\<forall>u \<in> V. v \<in> set (adj u) \<longrightarrow> u \<in> set xs))"

definition kahn_inv ::
  "task_id set \<Rightarrow> (task_id \<Rightarrow> task_id list) \<Rightarrow> degrees \<Rightarrow> task_id list \<Rightarrow> task_id list \<Rightarrow> bool" where
  "kahn_inv V adj deg ready order \<longleftrightarrow>
     distinct (order @ ready) \<and> set (order @ ready) \<subseteq> V \<and> topo_sorted V adj order \<and>
     (\<forall>v \<in> V. deg v = Some (of_nat (waits adj (V - set order) v)) \<and>
        (waits adj (V - set order) v = 0 \<longleftrightarrow> v \<in> set (order @ ready)))"

lemma waits_zero: "finite U \<Longrightarrow> waits adj U v = 0 \<longleftrightarrow> (\<forall>u \<in> U. v \<notin> set (adj u))"
  by (auto simp: waits_def count_list_zero_iff)

lemma waits_remove:
  "finite U \<Longrightarrow> i \<in> U \<Longrightarrow> waits adj U v = count_list (adj i) v + waits adj (U - {i}) v"
  by (simp add: waits_def sum.remove)

lemma waits_mono: "finite V \<Longrightarrow> U \<subseteq> V \<Longrightarrow> waits adj U v \<le> waits adj V v"
  by (simp add: waits_def sum_mono2)

lemma of_nat_64_zero: "n < 2 ^ 64 \<Longrightarrow> (of_nat n :: size_t) = 0 \<longleftrightarrow> n = 0"
  by (auto simp: word_of_nat_eq_0_iff dest: dvd_imp_le)


text \<open>The inner loop: \<open>w\<close> is the number of edges that remain after the whole list \<open>ds\<close> is counted.\<close>

definition relax_inv ::
  "task_id set \<Rightarrow> task_id list \<Rightarrow> (task_id \<Rightarrow> nat) \<Rightarrow> task_id list \<Rightarrow> degrees \<Rightarrow> task_id list \<Rightarrow> bool" where
  "relax_inv V out w ds deg ready \<longleftrightarrow>
     distinct (out @ ready) \<and> set (out @ ready) \<subseteq> V \<and> set ds \<subseteq> V \<and>
     (\<forall>v \<in> V. deg v = Some (of_nat (w v + count_list ds v)) \<and> w v + count_list ds v < 2 ^ 64 \<and>
        (w v + count_list ds v = 0 \<longleftrightarrow> v \<in> set (out @ ready)))"

lemma relax_step:
  assumes inv: "relax_inv V out w (d # ds) deg ready"
  shows "relax_inv V out w ds (deg(d \<mapsto> (case deg d of Some k \<Rightarrow> k | None \<Rightarrow> 0) - 1))
    (if (case deg d of Some k \<Rightarrow> k | None \<Rightarrow> 0) - 1 = 0 then ready @ [d] else ready)"
proof -
  have d: "d \<in> V" using inv by (simp add: relax_inv_def)
  with inv have deg: "deg d = Some (of_nat (Suc (w d + count_list ds d)))"
    and lt: "w d + count_list ds d < 2 ^ 64" and new: "d \<notin> set (out @ ready)"
    unfolding relax_inv_def by force+
  have dec: "(case deg d of Some k \<Rightarrow> k | None \<Rightarrow> 0) - 1 = (of_nat (w d + count_list ds d) :: size_t)"
    by (simp add: deg)
  note z = of_nat_64_zero [OF lt]
  show ?thesis
    unfolding dec z
  proof (cases "w d + count_list ds d = 0")
    case True
    then show "relax_inv V out w ds (deg(d \<mapsto> of_nat (w d + count_list ds d)))
        (if w d + count_list ds d = 0 then ready @ [d] else ready)"
      using inv new d unfolding relax_inv_def by auto
  next
    case False
    then show "relax_inv V out w ds (deg(d \<mapsto> of_nat (w d + count_list ds d)))
        (if w d + count_list ds d = 0 then ready @ [d] else ready)"
      using inv new d unfolding relax_inv_def by auto
  qed
qed

lemma relax_law:
  "relax_inv V out w ds deg ready \<Longrightarrow> relax ds (deg, ready) = (deg', ready') \<Longrightarrow>
   relax_inv V out w [] deg' ready'"
proof (induction ds arbitrary: deg ready)
  case Nil
  then show ?case by simp
next
  case (Cons d ds)
  from Cons.prems(2) show ?case
    unfolding relax.simps Let_def by (rule Cons.IH [OF relax_step [OF Cons.prems(1)]])
qed

lemma topo_sorted_snoc:
  assumes "topo_sorted V adj order" and "\<forall>u \<in> V. i \<in> set (adj u) \<longrightarrow> u \<in> set order"
  shows "topo_sorted V adj (order @ [i])"
  unfolding topo_sorted_def
proof (intro allI impI)
  fix xs v ys assume split: "order @ [i] = xs @ v # ys"
  show "\<forall>u \<in> V. v \<in> set (adj u) \<longrightarrow> u \<in> set xs"
  proof (cases ys rule: rev_cases)
    case Nil
    with split assms(2) show ?thesis by simp
  next
    case (snoc zs z)
    with split have "order = xs @ v # zs" by simp
    with assms(1) show ?thesis unfolding topo_sorted_def by blast
  qed
qed

lemma kahn_step:
  assumes fin: "finite V" and closed: "\<forall>v \<in> V. set (adj v) \<subseteq> V"
    and small: "\<forall>v \<in> V. waits adj V v < 2 ^ 64"
    and inv: "kahn_inv V adj deg (i # rest) order"
    and step: "relax (adj i) (deg, rest) = (deg', ready')"
  shows "kahn_inv V adj deg' ready' (order @ [i])"
proof -
  let ?U = "V - set order" and ?U' = "V - set (order @ [i])"
  have i: "i \<in> V" "i \<in> ?U" using inv by (auto simp: kahn_inv_def)
  have U': "?U' = ?U - {i}" by auto
  have w: "waits adj ?U v = waits adj ?U' v + count_list (adj i) v" for v
    unfolding U' using waits_remove [OF _ i(2)] fin by simp
  have le: "waits adj ?U v \<le> waits adj V v" for v using fin by (intro waits_mono) auto
  have lt: "waits adj ?U v < 2 ^ 64" if "v \<in> V" for v
    using le [of v] small that by (meson le_less_trans)
  have iz: "waits adj ?U i = 0" using inv i(1) unfolding kahn_inv_def by simp
  have "relax_inv V (order @ [i]) (waits adj ?U') (adj i) deg rest"
    using inv closed i(1) lt unfolding relax_inv_def kahn_inv_def w by auto
  from relax_law [OF this step] have rel: "relax_inv V (order @ [i]) (waits adj ?U') [] deg' ready'" .
  have "\<forall>u \<in> V. i \<in> set (adj u) \<longrightarrow> u \<in> set order"
    using iz waits_zero [of ?U adj i] fin by auto
  with inv have "topo_sorted V adj (order @ [i])"
    by (intro topo_sorted_snoc) (simp_all add: kahn_inv_def)
  with rel show ?thesis unfolding kahn_inv_def relax_inv_def by simp
qed

lemma kahn_loop_ends:
  assumes fin: "finite V" and closed: "\<forall>v \<in> V. set (adj v) \<subseteq> V"
    and small: "\<forall>v \<in> V. waits adj V v < 2 ^ 64"
  shows "kahn_inv V adj deg ready order \<Longrightarrow>
    \<exists>order' deg'. kahn_loop adj deg ready order = Some order' \<and> kahn_inv V adj deg' [] order'"
proof (induction "card V - length order" arbitrary: deg ready order rule: less_induct)
  case less
  show ?case
  proof (cases ready)
    case Nil
    with less.prems show ?thesis by (auto simp: kahn_loop.simps)
  next
    case (Cons i rest)
    obtain deg' ready' where step: "relax (adj i) (deg, rest) = (deg', ready')" by fastforce
    have inv': "kahn_inv V adj deg' ready' (order @ [i])"
      using kahn_step [OF fin closed small _ step] less.prems by (simp add: Cons)
    have "distinct (order @ [i])" "set (order @ [i]) \<subseteq> V"
      using less.prems by (auto simp: kahn_inv_def Cons)
    from card_mono [OF fin this(2)] distinct_card [OF this(1)]
    have "length order < card V" by simp
    then have "card V - length (order @ [i]) < card V - length order" by simp
    from less.hyps [OF this inv'] step show ?thesis
      by (simp add: Cons kahn_loop.simps [of adj deg "i # rest"])
  qed
qed


subsection \<open>What the final state says about cycles\<close>

definition edges_of :: "task_id set \<Rightarrow> (task_id \<Rightarrow> task_id list) \<Rightarrow> (task_id \<times> task_id) set" where
  "edges_of V adj = {(u, v). u \<in> V \<and> v \<in> set (adj u)}"

lemma topo_sorted_acyclic:
  assumes sorted: "topo_sorted V adj order" and dist: "distinct order" and all: "set order = V"
    and closed: "\<forall>v \<in> V. set (adj v) \<subseteq> V"
  shows "acyclic (edges_of V adj)"
proof -
  have "length (takeWhile (\<lambda>x. x \<noteq> u) order) < length (takeWhile (\<lambda>x. x \<noteq> v) order)"
    if "(u, v) \<in> edges_of V adj" for u v
  proof -
    have uv: "u \<in> V" "v \<in> set (adj u)" "v \<in> set order"
      using that closed all by (auto simp: edges_of_def)
    then obtain xs ys where split: "order = xs @ v # ys" by (meson split_list)
    with sorted uv have "u \<in> set xs" unfolding topo_sorted_def by blast
    then obtain as bs where xs: "xs = as @ u # bs" by (meson split_list)
    with dist split have "takeWhile (\<lambda>x. x \<noteq> v) order = xs" "takeWhile (\<lambda>x. x \<noteq> u) order = as"
      by (auto simp: takeWhile_append)
    then show ?thesis using xs by simp
  qed
  then have "acyclic ((edges_of V adj)\<inverse>)"
    by (intro acyclicI_order [where f = "\<lambda>x. length (takeWhile (\<lambda>y. y \<noteq> x) order)"]) auto
  then show ?thesis by simp
qed

lemma kahn_final:
  assumes fin: "finite V" and closed: "\<forall>v \<in> V. set (adj v) \<subseteq> V"
    and inv: "kahn_inv V adj deg [] order"
  shows "set order = V \<longleftrightarrow> acyclic (edges_of V adj)"
proof
  assume "set order = V"
  with inv closed show "acyclic (edges_of V adj)"
    by (intro topo_sorted_acyclic) (simp_all add: kahn_inv_def)
next
  assume acyclic: "acyclic (edges_of V adj)"
  have "edges_of V adj \<subseteq> V \<times> V" using closed by (auto simp: edges_of_def)
  then have "finite (edges_of V adj)" by (rule finite_subset) (simp add: fin)
  from finite_acyclic_wf [OF this acyclic] have wf: "wf (edges_of V adj)" .
  have sub: "set order \<subseteq> V" using inv by (simp add: kahn_inv_def)
  show "set order = V"
  proof (rule ccontr)
    assume "set order \<noteq> V"
    with sub obtain x where "x \<in> V - set order" by blast
    from wfE_min [OF wf this] obtain z where z: "z \<in> V - set order"
      and min: "\<And>y. (y, z) \<in> edges_of V adj \<Longrightarrow> y \<notin> V - set order" by blast
    from z inv have "waits adj (V - set order) z \<noteq> 0" by (simp add: kahn_inv_def)
    with waits_zero [of "V - set order" adj z] fin obtain y where
      "y \<in> V - set order" "z \<in> set (adj y)" by auto
    with min show False by (auto simp: edges_of_def)
  qed
qed

subsection \<open>The graph's maps\<close>

abbreviation g_ids :: "dep_graph \<Rightarrow> task_id set" where
  "g_ids g \<equiv> fst ` set (g_tasks g)"

text \<open>The pairs of a dependency's id and the id of a task that depends on it.\<close>

definition dependency_edges :: "dep_graph \<Rightarrow> (task_id \<times> task_id) set" where
  "dependency_edges g = {(j, i). \<exists>p q. (i, p) \<in> set (g_tasks g) \<and> (j, q) \<in> set (g_tasks g) \<and>
     q \<in> set (t_dependencies (g_heap g p))}"

lemma wf_map_of: "graph_wf g \<Longrightarrow> (i, p) \<in> set (g_tasks g) \<Longrightarrow> map_of (g_tasks g) i = Some p"
  by (simp add: graph_wf_def)

lemma wf_id: "graph_wf g \<Longrightarrow> (i, p) \<in> set (g_tasks g) \<Longrightarrow> t_id (g_heap g p) = i"
  using map_of_wf(2) wf_map_of by blast

lemma wf_inj: "graph_wf g \<Longrightarrow> inj_on (\<lambda>p. t_id (g_heap g p)) (g_ptrs g)"
  by (intro inj_onI) (metis map_of_id option.inject)

lemma wf_ids: "graph_wf g \<Longrightarrow> g_ids g = (\<lambda>p. t_id (g_heap g p)) ` g_ptrs g"
  by (force simp: image_iff wf_id)

lemma count_list_map_inj:
  "inj_on f A \<Longrightarrow> set xs \<subseteq> A \<Longrightarrow> y \<in> A \<Longrightarrow> count_list (map f xs) (f y) = count_list xs y"
  by (induction xs) (auto simp: inj_on_def)

lemma adjacency_id:
  "graph_wf g \<Longrightarrow> p \<in> g_ptrs g \<Longrightarrow>
   adjacency g (t_id (g_heap g p)) = map (\<lambda>d. t_id (g_heap g d)) (t_dependents (g_heap g p))"
  by (simp add: adjacency_def map_of_id)

lemma adjacency_count:
  assumes wf: "graph_wf g" and p: "p \<in> g_ptrs g" and q: "q \<in> g_ptrs g"
  shows "count_list (adjacency g (t_id (g_heap g q))) (t_id (g_heap g p)) =
    count_list (t_dependencies (g_heap g p)) q"
  using count_list_map_inj [OF wf_inj [OF wf] wf_closed(2) [OF wf q] p] wf_edge [OF wf p q]
  by (simp add: adjacency_id [OF wf q])

lemma adjacency_closed:
  assumes wf: "graph_wf g"
  shows "\<forall>i \<in> g_ids g. set (adjacency g i) \<subseteq> g_ids g"
proof
  fix i assume "i \<in> g_ids g"
  then obtain p where p: "p \<in> g_ptrs g" "i = t_id (g_heap g p)" using wf_ids [OF wf] by auto
  have "set (adjacency g i) = (\<lambda>d. t_id (g_heap g d)) ` set (t_dependents (g_heap g p))"
    using adjacency_id [OF wf p(1)] p(2) by simp
  also have "\<dots> \<subseteq> (\<lambda>d. t_id (g_heap g d)) ` g_ptrs g" by (rule image_mono [OF wf_closed(2) [OF wf p(1)]])
  finally show "set (adjacency g i) \<subseteq> g_ids g" by (simp only: wf_ids [OF wf])
qed

lemma waits_total:
  assumes wf: "graph_wf g" and p: "p \<in> g_ptrs g"
  shows "waits (adjacency g) (g_ids g) (t_id (g_heap g p)) = length (t_dependencies (g_heap g p))"
proof -
  have "waits (adjacency g) (g_ids g) (t_id (g_heap g p)) =
      (\<Sum>q \<in> g_ptrs g. count_list (adjacency g (t_id (g_heap g q))) (t_id (g_heap g p)))"
    unfolding waits_def wf_ids [OF wf] by (rule sum.reindex_cong [OF wf_inj [OF wf]]) simp_all
  also have "\<dots> = (\<Sum>q \<in> g_ptrs g. count_list (t_dependencies (g_heap g p)) q)"
    using adjacency_count [OF wf p] by (intro sum.cong) simp_all
  also have "\<dots> = length (t_dependencies (g_heap g p))"
    using wf_closed(1) [OF wf p] by (rule sum_count_set) simp
  finally show ?thesis .
qed

lemma map_of_snd_map: "map_of (map (\<lambda>(i, p). (i, f p)) al) k = map_option f (map_of al k)"
  by (induction al) auto

lemma initial_indegree_id:
  assumes "graph_wf g" and "p \<in> g_ptrs g"
  shows "initial_indegree g (t_id (g_heap g p)) = Some (of_nat (length (t_dependencies (g_heap g p))))"
  using map_of_id [OF assms] by (simp add: initial_indegree_def map_of_snd_map)

lemma wf_edge_mem:
  "graph_wf g \<Longrightarrow> p \<in> g_ptrs g \<Longrightarrow> q \<in> g_ptrs g \<Longrightarrow>
   p \<in> set (t_dependents (g_heap g q)) \<longleftrightarrow> q \<in> set (t_dependencies (g_heap g p))"
  using wf_edge [of g p q] by (metis count_list_zero_iff)

lemma edges_agree:
  assumes wf: "graph_wf g"
  shows "edges_of (g_ids g) (adjacency g) = dependency_edges g"
proof (intro equalityI subrelI)
  fix u v assume "(u, v) \<in> edges_of (g_ids g) (adjacency g)"
  then obtain q where q: "(u, q) \<in> set (g_tasks g)" "v \<in> set (adjacency g u)"
    by (auto simp: edges_of_def)
  then have qp: "q \<in> g_ptrs g" by force
  have "u = t_id (g_heap g q)" using wf_id [OF wf q(1)] by simp
  with q(2) obtain p where p: "p \<in> set (t_dependents (g_heap g q))" "v = t_id (g_heap g p)"
    using adjacency_id [OF wf qp] by auto
  then have pp: "p \<in> g_ptrs g" using wf_closed(2) [OF wf qp] by blast
  then have "(v, p) \<in> set (g_tasks g)" using p(2) wf_id [OF wf] by force
  with q(1) p wf_edge_mem [OF wf pp qp] show "(u, v) \<in> dependency_edges g"
    by (auto simp: dependency_edges_def)
next
  fix u v assume "(u, v) \<in> dependency_edges g"
  then obtain p q where pq: "(v, p) \<in> set (g_tasks g)" "(u, q) \<in> set (g_tasks g)"
    "q \<in> set (t_dependencies (g_heap g p))" by (auto simp: dependency_edges_def)
  then have "p \<in> g_ptrs g" "q \<in> g_ptrs g" by force+
  with pq wf_edge_mem [OF wf] have "p \<in> set (t_dependents (g_heap g q))" by simp
  then have "v \<in> set (adjacency g u)"
    using adjacency_id [OF wf \<open>q \<in> g_ptrs g\<close>] wf_id [OF wf pq(1)] wf_id [OF wf pq(2)] by force
  with pq(2) show "(u, v) \<in> edges_of (g_ids g) (adjacency g)" by (force simp: edges_of_def)
qed

subsection \<open>Correctness\<close>

text \<open>\<open>small_graph\<close>: no task has 2^64 dependencies, which no address space could hold.\<close>

definition small_graph :: "dep_graph \<Rightarrow> bool" where
  "small_graph g \<longleftrightarrow> (\<forall>p \<in> g_ptrs g. length (t_dependencies (g_heap g p)) < 2 ^ 64)"

lemma kahn_start:
  assumes wf: "graph_wf g" and small: "small_graph g" and iter: "mset (iter (g_tasks g)) = mset (g_tasks g)"
  shows "kahn_inv (g_ids g) (adjacency g) (initial_indegree g)
    (filter (\<lambda>i. initial_indegree g i = Some 0) (map fst (iter (g_tasks g)))) []"
proof -
  have "mset (map fst (iter (g_tasks g))) = mset (map fst (g_tasks g))" using iter by simp
  with wf have dist: "distinct (map fst (iter (g_tasks g)))"
    unfolding graph_wf_def by (metis mset_eq_imp_distinct_iff)
  have ids: "fst ` set (iter (g_tasks g)) = g_ids g" using iter by (metis mset_eq_setD)
  have deg: "initial_indegree g v = Some (of_nat (waits (adjacency g) (g_ids g) v)) \<and>
      waits (adjacency g) (g_ids g) v < 2 ^ 64" if "v \<in> g_ids g" for v
  proof -
    from that obtain p where p: "p \<in> g_ptrs g" "v = t_id (g_heap g p)" using wf_ids [OF wf] by auto
    moreover have "length (t_dependencies (g_heap g p)) < 2 ^ 64"
      using small p(1) unfolding small_graph_def by blast
    ultimately show ?thesis
      using initial_indegree_id [OF wf p(1)] waits_total [OF wf p(1)] by simp
  qed
  have "topo_sorted (g_ids g) (adjacency g) []" by (simp add: topo_sorted_def)
  then show ?thesis
    using dist ids deg of_nat_64_zero unfolding kahn_inv_def by (auto simp: distinct_map_filter)
qed

lemma topological_order_final:
  assumes wf: "graph_wf g" and small: "small_graph g" and iter: "mset (iter (g_tasks g)) = mset (g_tasks g)"
  shows "\<exists>order deg. topological_order iter g = Some order \<and>
    kahn_inv (g_ids g) (adjacency g) deg [] order"
proof -
  have "\<forall>v \<in> g_ids g. waits (adjacency g) (g_ids g) v < 2 ^ 64"
  proof
    fix v assume "v \<in> g_ids g"
    then obtain p where p: "p \<in> g_ptrs g" "v = t_id (g_heap g p)" using wf_ids [OF wf] by auto
    then show "waits (adjacency g) (g_ids g) v < 2 ^ 64"
      using waits_total [OF wf p(1)] small unfolding small_graph_def by metis
  qed
  from kahn_loop_ends [OF _ adjacency_closed [OF wf] this kahn_start [of g iter, OF wf small iter]]
  show ?thesis by (auto simp: topological_order_def)
qed

text \<open>C10. \<open>topological_order\<close> ends on every well-formed graph, cyclic or not, whatever the iteration
  order of its map. What it returns are ids of the graph, each once, and a task comes after all the
  tasks it depends on: whenever an id is in the result, each of its dependencies is before it.\<close>

theorem topological_order_sound:
  assumes "graph_wf g" and "small_graph g" and "mset (iter (g_tasks g)) = mset (g_tasks g)"
  shows "\<exists>order. topological_order iter g = Some order \<and> distinct order \<and> set order \<subseteq> g_ids g \<and>
    (\<forall>xs i ys j. order = xs @ i # ys \<and> (j, i) \<in> dependency_edges g \<longrightarrow> j \<in> set xs)"
proof -
  obtain order deg where run: "topological_order iter g = Some order"
    and inv: "kahn_inv (g_ids g) (adjacency g) deg [] order"
    using topological_order_final [of g iter, OF assms] by blast
  from inv have "topo_sorted (g_ids g) (adjacency g) order" by (simp add: kahn_inv_def)
  then have "\<forall>xs i ys j. order = xs @ i # ys \<and> (j, i) \<in> dependency_edges g \<longrightarrow> j \<in> set xs"
    unfolding edges_agree [OF assms(1), symmetric] edges_of_def topo_sorted_def by auto
  with run inv show ?thesis by (auto simp: kahn_inv_def)
qed

text \<open>C11. \<open>has_cycles\<close> is exact: it returns, and it returns true if and only if some task depends on
  itself through a chain of dependencies. When there is no cycle the topological order contains
  every task.\<close>

theorem has_cycles_exact:
  assumes "graph_wf g" and "small_graph g" and "mset (iter (g_tasks g)) = mset (g_tasks g)"
  shows "has_cycles iter g = Some (\<not> acyclic (dependency_edges g)) \<and>
    (acyclic (dependency_edges g) \<longrightarrow>
      (\<exists>order. topological_order iter g = Some order \<and> set order = g_ids g))"
proof -
  obtain order deg where run: "topological_order iter g = Some order"
    and inv: "kahn_inv (g_ids g) (adjacency g) deg [] order"
    using topological_order_final [of g iter, OF assms] by blast
  have "set order = g_ids g \<longleftrightarrow> acyclic (dependency_edges g)"
    using kahn_final [OF _ adjacency_closed [OF assms(1)] inv] edges_agree [OF assms(1)] by simp
  moreover have "set order = g_ids g \<longleftrightarrow> length order = length (g_tasks g)"
  proof -
    have "card (g_ids g) = length (g_tasks g)"
      using assms(1) distinct_card [of "map fst (g_tasks g)"] by (simp add: graph_wf_def)
    moreover have "card (set order) = length order" "set order \<subseteq> g_ids g"
      using inv distinct_card by (auto simp: kahn_inv_def)
    ultimately show ?thesis using card_subset_eq [of "g_ids g" "set order"] by auto
  qed
  ultimately show ?thesis using run by (auto simp: has_cycles_def)
qed

lemma chain3_small: "small_graph chain3"
  by (simp add: small_graph_def chain3_tasks chain3_heap add_dependency_frame)
    (simp add: heap3_def new_task_def)

theorem topological_order_sound_witness:
  "\<exists>order. topological_order rev chain3 = Some order \<and> distinct order \<and>
    (\<forall>xs ys. order = xs @ 2 # ys \<longrightarrow> 1 \<in> set xs)"
proof -
  have "(1, 2) \<in> dependency_edges chain3"
    by (simp add: dependency_edges_def chain3_tasks chain3_heap add_dependency_frame)
  with topological_order_sound [OF _ chain3_small, of rev] chain3_wf show ?thesis by fastforce
qed

text \<open>Closing the chain into a cycle.\<close>

theorem has_cycles_exact_witness:
  "has_cycles rev (graph_add_dependency 1 3 chain3) =
     Some (\<not> acyclic (dependency_edges (graph_add_dependency 1 3 chain3))) \<and>
   \<not> acyclic (dependency_edges (graph_add_dependency 1 3 chain3))"
proof -
  let ?g = "graph_add_dependency 1 3 chain3"
  have wf: "graph_wf ?g" using add_dependency_wf chain3_wf by simp
  have tasks: "g_tasks ?g = [(1, 1), (2, 2), (3, 3)]"
    and heap: "g_heap ?g = task_add_dependency 1 3 (g_heap chain3)"
    by (simp_all add: graph_add_dependency_def chain3_tasks)
  have small: "small_graph ?g"
    by (simp add: small_graph_def tasks heap chain3_heap add_dependency_frame)
      (simp add: heap3_def new_task_def)
  have "(1, 2) \<in> dependency_edges ?g" "(2, 3) \<in> dependency_edges ?g" "(3, 1) \<in> dependency_edges ?g"
    by (simp_all add: dependency_edges_def tasks heap chain3_heap add_dependency_frame)
  then have "(1, 1) \<in> (dependency_edges ?g)\<^sup>+" by (meson r_into_trancl trancl_into_trancl)
  then have "\<not> acyclic (dependency_edges ?g)" by (auto simp: acyclic_def)
  with has_cycles_exact [OF wf small, of rev] show ?thesis by simp
qed

end
