(* ===== verification/Performance_Monitor.thy ===== *)
theory Performance_Monitor
  imports Prelude "HOL-Library.Sublist"
begin

section \<open>The performance monitor\<close>

text \<open>
  \<open>PerformanceMonitor\<close> of \<open>include/task_engine/performance_monitor.hpp\<close>: eleven 64-bit counters,
  each updated atomically. The operations are modelled as single steps first; then the
  compare-and-swap loops that maintain the extrema are modelled step by step for any number of
  threads. A \<open>double\<close> is an exact rational here.
\<close>

record metrics =
  m_submitted :: u64
  m_completed :: u64
  m_failed :: u64
  m_retried :: u64
  m_cancelled :: u64
  m_total_execution_time :: u64
  m_max_execution_time :: u64
  m_min_execution_time :: u64
  m_queue_wait_time :: u64
  m_inflight :: u64
  m_peak_inflight :: u64

record monitor =
  pm_metrics :: metrics
  pm_start_time :: time

definition UINT64_MAX :: u64 where "UINT64_MAX = - 1"

definition zero_metrics :: metrics where
  "zero_metrics = \<lparr>m_submitted = 0, m_completed = 0, m_failed = 0, m_retried = 0, m_cancelled = 0,
     m_total_execution_time = 0, m_max_execution_time = 0, m_min_execution_time = UINT64_MAX,
     m_queue_wait_time = 0, m_inflight = 0, m_peak_inflight = 0\<rparr>"

definition new_monitor :: "time \<Rightarrow> monitor" where
  "new_monitor now = \<lparr>pm_metrics = zero_metrics, pm_start_time = now\<rparr>"

definition record_submission :: "metrics \<Rightarrow> metrics" where
  "record_submission m = m\<lparr>m_submitted := m_submitted m + 1\<rparr>"

definition record_start :: "metrics \<Rightarrow> metrics" where
  "record_start m =
     (let inflight = m_inflight m + 1; peak = m_peak_inflight m
      in m\<lparr>m_inflight := inflight, m_peak_inflight := (if inflight > peak then inflight else peak)\<rparr>)"

definition update_extrema :: "u64 \<Rightarrow> metrics \<Rightarrow> metrics" where
  "update_extrema exec_time_us m =
     (let current_max = m_max_execution_time m; current_min = m_min_execution_time m
      in m\<lparr>m_max_execution_time := (if exec_time_us > current_max then exec_time_us else current_max),
           m_min_execution_time := (if exec_time_us < current_min then exec_time_us else current_min)\<rparr>)"

definition record_completion :: "int \<Rightarrow> metrics \<Rightarrow> metrics" where
  "record_completion execution_time_us m =
     (let m = (if execution_time_us > 0
               then m\<lparr>m_total_execution_time := m_total_execution_time m + word_of_int execution_time_us\<rparr>
               else m);
          m = m\<lparr>m_completed := m_completed m + 1\<rparr>;
          m = m\<lparr>m_inflight := m_inflight m - 1\<rparr>
      in update_extrema (word_of_int execution_time_us) m)"

definition record_failure :: "metrics \<Rightarrow> metrics" where
  "record_failure m = m\<lparr>m_failed := m_failed m + 1, m_inflight := m_inflight m - 1\<rparr>"

definition record_retry :: "metrics \<Rightarrow> metrics" where
  "record_retry m = m\<lparr>m_retried := m_retried m + 1\<rparr>"

definition record_cancellation :: "metrics \<Rightarrow> metrics" where
  "record_cancellation m = m\<lparr>m_cancelled := m_cancelled m + 1\<rparr>"

definition record_queue_wait :: "u64 \<Rightarrow> metrics \<Rightarrow> metrics" where
  "record_queue_wait wait_time_us m = m\<lparr>m_queue_wait_time := m_queue_wait_time m + wait_time_us\<rparr>"

record metrics_snapshot =
  tasks_submitted :: u64
  tasks_completed :: u64
  tasks_failed :: u64
  tasks_retried :: u64
  tasks_cancelled :: u64
  total_execution_time_us :: u64
  max_execution_time_us :: u64
  min_execution_time_us :: u64
  total_queue_wait_time_us :: u64
  inflight_tasks :: u64
  peak_inflight :: u64

definition get_metrics :: "metrics \<Rightarrow> metrics_snapshot" where
  "get_metrics m =
     \<lparr>tasks_submitted = m_submitted m,
      tasks_completed = m_completed m,
      tasks_failed = m_failed m,
      tasks_retried = m_retried m,
      tasks_cancelled = m_cancelled m,
      total_execution_time_us = m_total_execution_time m,
      max_execution_time_us = m_max_execution_time m,
      min_execution_time_us = m_min_execution_time m,
      total_queue_wait_time_us = m_queue_wait_time m,
      inflight_tasks = m_inflight m,
      peak_inflight = m_peak_inflight m\<rparr>"

definition average_execution_time :: "metrics \<Rightarrow> rat" where
  "average_execution_time m =
     (if m_completed m = 0 then 0
      else rat_of_nat (unat (m_total_execution_time m)) / rat_of_nat (unat (m_completed m)))"

definition average_queue_wait_time :: "metrics \<Rightarrow> rat" where
  "average_queue_wait_time m =
     (if m_submitted m = 0 then 0
      else rat_of_nat (unat (m_queue_wait_time m)) / rat_of_nat (unat (m_submitted m)))"

definition throughput_per_second :: "time \<Rightarrow> monitor \<Rightarrow> rat" where
  "throughput_per_second now pm =
     (let elapsed = rat_of_int (now - pm_start_time pm) / 1000000000
      in if elapsed \<le> 0 then 0
         else rat_of_nat (unat (m_completed (pm_metrics pm))) / elapsed)"

definition monitor_reset :: "time \<Rightarrow> monitor \<Rightarrow> monitor" where
  "monitor_reset now pm =
     pm\<lparr>pm_metrics := (pm_metrics pm)
          \<lparr>m_submitted := 0, m_completed := 0, m_failed := 0, m_retried := 0, m_cancelled := 0,
           m_total_execution_time := 0, m_max_execution_time := 0,
           m_min_execution_time := UINT64_MAX, m_queue_wait_time := 0, m_inflight := 0,
           m_peak_inflight := 0\<rparr>,
        pm_start_time := now\<rparr>"

subsection \<open>What the counters mean\<close>

datatype monitor_op =
    MSubmission | MStart | MCompletion int | MFailure | MRetry | MCancellation | MQueueWait u64

fun monitor_step :: "monitor_op \<Rightarrow> metrics \<Rightarrow> metrics" where
  "monitor_step MSubmission m = record_submission m"
| "monitor_step MStart m = record_start m"
| "monitor_step (MCompletion t) m = record_completion t m"
| "monitor_step MFailure m = record_failure m"
| "monitor_step MRetry m = record_retry m"
| "monitor_step MCancellation m = record_cancellation m"
| "monitor_step (MQueueWait w) m = record_queue_wait w m"

fun exec_times :: "monitor_op list \<Rightarrow> u64 list" where
  "exec_times (MCompletion t # ops) = word_of_int t # exec_times ops"
| "exec_times (_ # ops) = exec_times ops"
| "exec_times [] = []"

fun total_time :: "monitor_op list \<Rightarrow> int" where
  "total_time (MCompletion t # ops) = (if 0 < t then t else 0) + total_time ops"
| "total_time (_ # ops) = total_time ops"
| "total_time [] = 0"

fun total_wait :: "monitor_op list \<Rightarrow> nat" where
  "total_wait (MQueueWait w # ops) = unat w + total_wait ops"
| "total_wait (_ # ops) = total_wait ops"
| "total_wait [] = 0"

fun is_end :: "monitor_op \<Rightarrow> bool" where
  "is_end (MCompletion t) = True"
| "is_end MFailure = True"
| "is_end _ = False"

fun is_completion :: "monitor_op \<Rightarrow> bool" where
  "is_completion (MCompletion t) = True"
| "is_completion _ = False"

definition counted :: "(monitor_op \<Rightarrow> bool) \<Rightarrow> monitor_op list \<Rightarrow> u64" where
  "counted P ops = of_nat (length (filter P ops))"

definition inflight_after :: "monitor_op list \<Rightarrow> u64" where
  "inflight_after ops = counted (\<lambda>op. op = MStart) ops - counted is_end ops"

definition start_levels :: "monitor_op list \<Rightarrow> u64 list" where
  "start_levels ops = map inflight_after (filter (\<lambda>pre. pre \<noteq> [] \<and> last pre = MStart) (prefixes ops))"

lemma counted_simps [simp]:
  "counted P [] = 0" "counted P (ops @ [op]) = counted P ops + (if P op then 1 else 0)"
  by (simp_all add: counted_def)

lemma inflight_after_snoc [simp]:
  "inflight_after [] = 0"
  "inflight_after (ops @ [op]) =
     inflight_after ops + (if op = MStart then 1 else 0) - (if is_end op then 1 else 0)"
  by (simp_all add: inflight_after_def)

lemma start_levels_snoc [simp]:
  "start_levels [] = []"
  "start_levels (ops @ [op]) =
     start_levels ops @ (if op = MStart then [inflight_after ops + 1] else [])"
  by (auto simp: start_levels_def)

lemma exec_times_snoc [simp]: "exec_times (ops @ [op]) = exec_times ops @ exec_times [op]"
  by (induction ops rule: exec_times.induct) simp_all

lemma total_time_snoc [simp]: "total_time (ops @ [op]) = total_time ops + total_time [op]"
  by (induction ops rule: total_time.induct) simp_all

lemma total_wait_snoc [simp]: "total_wait (ops @ [op]) = total_wait ops + total_wait [op]"
  by (induction ops rule: total_wait.induct) simp_all

lemma Max_insert2: "finite A \<Longrightarrow> Max (insert z (insert x A)) = max x (Max (insert z A))" for x z :: u64
  by (subst insert_commute) simp

lemma Min_insert2: "finite A \<Longrightarrow> Min (insert z (insert x A)) = min x (Min (insert z A))" for x z :: u64
  by (subst insert_commute) simp

lemma if_max: "(if y < x then x else y) = max x y" for x y :: u64
  by (auto simp: max_def)

lemma if_min: "(if x < y then x else y) = min x y" for x y :: u64
  by (auto simp: min_def)

lemmas monitor_defs = record_submission_def record_start_def record_completion_def
  record_failure_def record_retry_def record_cancellation_def record_queue_wait_def
  update_extrema_def Let_def


text \<open>Resetting makes a monitor as good as new.\<close>

lemma reset_is_new: "monitor_reset now pm = new_monitor now"
  by (simp add: monitor_reset_def new_monitor_def zero_metrics_def)


subsection \<open>The compare-and-swap loops under concurrency\<close>

text \<open>
  The loop \<open>while (x better than current) if (cas_weak(current, x)) break;\<close>, which the monitor runs
  for its maximum, its minimum and its peak. A thread first loads the shared value, then each step
  is one test of the loop condition with the CAS behind it; the CAS may fail spuriously, and a failed
  CAS reloads \<open>current\<close>.
\<close>

datatype cas_pc = CLoad u64 | CLoop u64 u64 | CDone u64

fun cas_step :: "(u64 \<Rightarrow> u64 \<Rightarrow> bool) \<Rightarrow> bool \<Rightarrow> u64 \<Rightarrow> cas_pc \<Rightarrow> u64 \<times> cas_pc" where
  "cas_step better spurious v (CLoad x) = (v, CLoop x v)"
| "cas_step better spurious v (CLoop x current) =
     (if better x current
      then (if v = current \<and> \<not> spurious then (x, CDone x) else (v, CLoop x v))
      else (v, CDone x))"
| "cas_step better spurious v (CDone x) = (v, CDone x)"

fun cas_target :: "cas_pc \<Rightarrow> u64" where
  "cas_target (CLoad x) = x" | "cas_target (CLoop x current) = x" | "cas_target (CDone x) = x"

fun cas_done :: "cas_pc \<Rightarrow> bool" where
  "cas_done (CDone x) = True" | "cas_done _ = False"

inductive cas_reach :: "(u64 \<Rightarrow> u64 \<Rightarrow> bool) \<Rightarrow> u64 \<Rightarrow> u64 list \<Rightarrow> u64 \<Rightarrow> cas_pc list \<Rightarrow> bool"
  for better :: "u64 \<Rightarrow> u64 \<Rightarrow> bool" and init :: u64 and xs :: "u64 list" where
  start: "cas_reach better init xs init (map CLoad xs)"
| step: "cas_reach better init xs v pcs \<Longrightarrow> i < length pcs \<Longrightarrow>
    cas_step better spurious v (pcs ! i) = (v', pc') \<Longrightarrow> cas_reach better init xs v' (pcs[i := pc'])"

fun cas_pc_ok :: "(u64 \<Rightarrow> u64 \<Rightarrow> bool) \<Rightarrow> u64 \<Rightarrow> cas_pc \<Rightarrow> bool" where
  "cas_pc_ok better v (CLoad x) \<longleftrightarrow> True"
| "cas_pc_ok better v (CLoop x current) \<longleftrightarrow> \<not> better current v"
| "cas_pc_ok better v (CDone x) \<longleftrightarrow> \<not> better x v"

locale extremum =
  fixes better :: "u64 \<Rightarrow> u64 \<Rightarrow> bool"
  assumes irrefl: "\<not> better x x"
    and trans: "better x y \<Longrightarrow> better y z \<Longrightarrow> better x z"
    and total: "x \<noteq> y \<Longrightarrow> better x y \<or> better y x"
begin

lemma not_better_trans: "\<not> better x y \<Longrightarrow> \<not> better y z \<Longrightarrow> \<not> better x z"
  by (metis irrefl trans total)

lemma step_improves:
  assumes "cas_step better spurious v pc = (v', pc')" and "cas_pc_ok better v pc"
  shows "\<not> better v v' \<and> cas_pc_ok better v' pc' \<and> cas_target pc' = cas_target pc \<and>
    (v' = v \<or> v' = cas_target pc)"
proof (cases pc)
  case (CLoop x current)
  show ?thesis
  proof (cases "better x current")
    case True
    then show ?thesis using assms irrefl trans [of x] CLoop by (auto split: if_splits)
  next
    case False
    then show ?thesis using assms irrefl not_better_trans [OF False] CLoop by auto
  qed
qed (use assms irrefl in auto)

lemma ok_mono: "cas_pc_ok better v pc \<Longrightarrow> \<not> better v v' \<Longrightarrow> cas_pc_ok better v' pc"
  using not_better_trans by (cases pc) auto

lemma reach_inv:
  assumes "cas_reach better init xs v pcs"
  shows "map cas_target pcs = xs \<and> v \<in> set (init # xs) \<and> \<not> better init v \<and>
    (\<forall>pc \<in> set pcs. cas_pc_ok better v pc)"
  using assms
proof (induction rule: cas_reach.induct)
  case start
  then show ?case by (auto simp: irrefl comp_def)
next
  case (step v pcs i spurious v' pc')
  have ok: "cas_pc_ok better v (pcs ! i)" using step by simp
  note law = step_improves [OF step.hyps(3) ok]
  have "cas_target (pcs ! i) \<in> set xs" using step.IH step.hyps(2) by (metis length_map nth_map nth_mem)
  then have mem: "v' \<in> set (init # xs)" using law step.IH by auto
  have "map cas_target (pcs[i := pc']) = (map cas_target pcs)[i := cas_target pc']" by (simp add: map_update)
  also have "\<dots> = xs" using law step.IH step.hyps(2) by (metis list_update_id nth_map)
  finally have targets: "map cas_target (pcs[i := pc']) = xs" .
  have "cas_pc_ok better v' pc" if "pc \<in> set (pcs[i := pc'])" for pc
  proof -
    have "pc = pc' \<or> pc \<in> set pcs" using that set_update_subset_insert [of pcs i pc'] by auto
    then show ?thesis using law step.IH ok_mono by auto
  qed
  then show ?case using mem targets law step.IH not_better_trans by blast
qed

text \<open>When every thread is done, the shared value is the best of all.\<close>

lemma all_done_best:
  assumes "cas_reach better init xs v pcs" and "\<forall>pc \<in> set pcs. cas_done pc"
  shows "v \<in> set (init # xs) \<and> (\<forall>y \<in> set (init # xs). \<not> better y v)"
proof -
  note inv = reach_inv [OF assms(1)]
  have "\<not> better (cas_target pc) v" if "pc \<in> set pcs" for pc
    using inv assms(2) that by (cases pc) auto
  then have "\<forall>y \<in> set xs. \<not> better y v" using inv by auto
  with inv show ?thesis by auto
qed

end

interpretation raise: extremum "(>)"
  by unfold_locales auto

interpretation lower: extremum "(<)"
  by unfold_locales auto

text \<open>C26. The extrema are right under concurrency. Let any number of threads run the loop on the
  maximum with values \<open>xs\<close>, and others on the minimum with the same values, in any interleaving and
  with any spurious failures: once all are done, the shared values are the maximum and the minimum of
  \<open>xs\<close> and the values before, which is what \<open>update_extrema\<close> gives for one value after the other.\<close>

theorem concurrent_extrema:
  assumes "cas_reach (>) (m_max_execution_time m) xs hi pcs" and "\<forall>pc \<in> set pcs. cas_done pc"
    and "cas_reach (<) (m_min_execution_time m) xs lo pcs'" and "\<forall>pc \<in> set pcs'. cas_done pc"
  shows "hi = Max (set (m_max_execution_time m # xs)) \<and> lo = Min (set (m_min_execution_time m # xs)) \<and>
    fold update_extrema xs m = m\<lparr>m_max_execution_time := hi, m_min_execution_time := lo\<rparr>"
proof -
  have hi: "hi = Max (set (m_max_execution_time m # xs))"
    using raise.all_done_best [OF assms(1,2)] by (intro Max_eqI [symmetric]) (auto simp: not_less)
  have lo: "lo = Min (set (m_min_execution_time m # xs))"
    using lower.all_done_best [OF assms(3,4)] by (intro Min_eqI [symmetric]) (auto simp: not_less)
  have "fold update_extrema xs m = m\<lparr>m_max_execution_time := Max (set (m_max_execution_time m # xs)),
      m_min_execution_time := Min (set (m_min_execution_time m # xs))\<rparr>"
  proof (induction xs arbitrary: m)
    case Nil
    then show ?case by simp
  next
    case (Cons x xs)
    have "update_extrema x m = m\<lparr>m_max_execution_time := max x (m_max_execution_time m),
        m_min_execution_time := min x (m_min_execution_time m)\<rparr>"
      by (simp add: update_extrema_def Let_def if_max if_min)
    moreover have "Max (insert (max x z) A) = Max (insert z (insert x A))"
      "Min (insert (min x z) A) = Min (insert z (insert x A))" if "finite A" for z :: u64 and A
      using that by (cases "A = {}"; simp add: ac_simps)+
    ultimately show ?case using Cons.IH [of "update_extrema x m"] by simp
  qed
  with hi lo show ?thesis by simp
qed

theorem concurrent_extrema_witness:
  "fold update_extrema [5, 3] zero_metrics =
     zero_metrics\<lparr>m_max_execution_time := 5, m_min_execution_time := 3\<rparr>"
proof -
  have one: "cas_reach (>) 0 [5, 3] 5 [CDone 5, CDone 3]"
  proof -
    have "cas_reach (>) 0 [5, 3] 0 [CLoad 5, CLoad 3]"
      using cas_reach.start [of "(>)" 0 "[5, 3]"] by simp
    from cas_reach.step [OF this, of 0 False 0 "CLoop 5 0"]
    have "cas_reach (>) 0 [5, 3] 0 [CLoop 5 0, CLoad 3]" by simp
    from cas_reach.step [OF this, of 1 False 0 "CLoop 3 0"]
    have "cas_reach (>) 0 [5, 3] 0 [CLoop 5 0, CLoop 3 0]" by simp
    from cas_reach.step [OF this, of 0 False 5 "CDone 5"]
    have "cas_reach (>) 0 [5, 3] 5 [CDone 5, CLoop 3 0]" by simp
    from cas_reach.step [OF this, of 1 False 5 "CLoop 3 5"]
    have "cas_reach (>) 0 [5, 3] 5 [CDone 5, CLoop 3 5]" by simp
    from cas_reach.step [OF this, of 1 False 5 "CDone 3"]
    show ?thesis by simp
  qed
  have two: "cas_reach (<) UINT64_MAX [5, 3] 3 [CDone 5, CDone 3]"
  proof -
    have "cas_reach (<) UINT64_MAX [5, 3] UINT64_MAX [CLoad 5, CLoad 3]"
      using cas_reach.start [of "(<)" UINT64_MAX "[5, 3]"] by simp
    from cas_reach.step [OF this, of 0 False UINT64_MAX "CLoop 5 UINT64_MAX"]
    have "cas_reach (<) UINT64_MAX [5, 3] UINT64_MAX [CLoop 5 UINT64_MAX, CLoad 3]" by simp
    from cas_reach.step [OF this, of 0 False 5 "CDone 5"]
    have "cas_reach (<) UINT64_MAX [5, 3] 5 [CDone 5, CLoad 3]" by (simp add: UINT64_MAX_def)
    from cas_reach.step [OF this, of 1 False 5 "CLoop 3 5"]
    have "cas_reach (<) UINT64_MAX [5, 3] 5 [CDone 5, CLoop 3 5]" by simp
    from cas_reach.step [OF this, of 1 False 3 "CDone 3"]
    show ?thesis by simp
  qed
  have z: "m_max_execution_time zero_metrics = 0" "m_min_execution_time zero_metrics = UINT64_MAX"
    by (simp_all add: zero_metrics_def)
  show ?thesis
    using concurrent_extrema [of zero_metrics "[5, 3]" 5 "[CDone 5, CDone 3]" 3 "[CDone 5, CDone 3]"] one two
    unfolding z by simp
qed

text \<open>A thread that runs alone, with no spurious failure, is out of the loop after three steps.\<close>

lemma loop_exits_alone:
  "\<exists>v1 v2 v3 p1 p2 x. cas_step better False v pc = (v1, p1) \<and> cas_step better False v1 p1 = (v2, p2) \<and>
     cas_step better False v2 p2 = (v3, CDone x)"
  by (cases pc) auto

end
