(* ===== verification/Task_Executor.thy ===== *)
theory Task_Executor
  imports Thread_Pool Topological_Order Performance_Monitor
begin

section \<open>The task executor\<close>

text \<open>
  \<open>TaskExecutor\<close> of \<open>include/task_engine/task_executor.hpp\<close> with the worker loop of
  \<open>thread_pool.hpp\<close> that calls its hooks. The state holds the pool, the graph with the store of
  tasks, the monitor (a pointer that may be null), the map from task ids to promises and the shared
  states of the promises. A worker is where it stands in its loop: \<open>LoopHead\<close>, \<open>PauseCheck\<close>,
  \<open>Searching\<close> for a task, \<open>Sleeping\<close> on the condition variable, \<open>Executing\<close> inside the user's
  function, \<open>Returned\<close> or \<open>Threw\<close> between \<open>execute\<close> and the end of the hook that follows, \<open>Exited\<close>. An operation that may throw returns the state it leaves behind together with what it
  throws, since its effects up to the throw stay. \<open>ex_terminated\<close> is set when an exception leaves a
  thread, which calls \<open>std::terminate\<close>, and when the behaviour is undefined.
\<close>

datatype promise_state = Unset | PromiseValue any | PromiseException exn

datatype worker =
    LoopHead
  | PauseCheck
  | Searching
  | Sleeping
  | Executing task_ptr
  | Returned task_ptr any
  | Threw task_ptr exn
  | Exited

record executor =
  ex_pool :: pool
  ex_graph :: dep_graph
  ex_monitor :: "metrics option"
  ex_scheduler_running :: bool
  ex_next_task_id :: task_id
  ex_task_promises :: "task_id \<Rightarrow> promise_id option"
  ex_promises :: "promise_id \<Rightarrow> promise_state"
  ex_next_ptr :: task_ptr
  ex_next_promise :: promise_id
  ex_workers :: "worker list"
  ex_terminated :: bool

abbreviation ex_heap :: "executor \<Rightarrow> task_ptr \<Rightarrow> task" where
  "ex_heap ex \<equiv> g_heap (ex_graph ex)"

definition on_ptr :: "task_ptr \<Rightarrow> (task \<Rightarrow> task) \<Rightarrow> executor \<Rightarrow> executor" where
  "on_ptr p f ex = ex\<lparr>ex_graph := (ex_graph ex)\<lparr>g_heap := on_task p f (ex_heap ex)\<rparr>\<rparr>"

definition on_graph :: "(dep_graph \<Rightarrow> dep_graph) \<Rightarrow> executor \<Rightarrow> executor" where
  "on_graph f ex = ex\<lparr>ex_graph := f (ex_graph ex)\<rparr>"

definition monitored :: "(metrics \<Rightarrow> metrics) \<Rightarrow> executor \<Rightarrow> executor" where
  "monitored f ex = ex\<lparr>ex_monitor := map_option f (ex_monitor ex)\<rparr>"

definition set_worker :: "nat \<Rightarrow> worker \<Rightarrow> executor \<Rightarrow> executor" where
  "set_worker w st ex = ex\<lparr>ex_workers := (ex_workers ex)[w := st]\<rparr>"

text \<open>The constructor that is given a pool; the other one makes the pool first.\<close>

definition executor_on_pool :: "pool \<Rightarrow> metrics option \<Rightarrow> executor" where
  "executor_on_pool p m =
     \<lparr>ex_pool = p, ex_graph = empty_graph (\<lambda>_. new_task 0 (\<lambda>_. Inr AnyEmpty) [] default_options 0),
      ex_monitor = m, ex_scheduler_running = False, ex_next_task_id = 1,
      ex_task_promises = Map.empty, ex_promises = (\<lambda>_. Unset), ex_next_ptr = 0, ex_next_promise = 0,
      ex_workers = replicate (unat (pl_num_threads p)) LoopHead, ex_terminated = False\<rparr>"

definition TaskExecutor :: "size_t \<Rightarrow> exn + executor" where
  "TaskExecutor num_threads =
     (case ThreadPool num_threads of
        Inl e \<Rightarrow> Inl e
      | Inr p \<Rightarrow> Inr (executor_on_pool p (Some zero_metrics)))"

definition executor_start :: "executor \<Rightarrow> executor" where
  "executor_start ex = ex\<lparr>ex_scheduler_running := True\<rparr>"

definition executor_stop :: "executor \<Rightarrow> executor" where
  "executor_stop ex = ex\<lparr>ex_scheduler_running := False, ex_pool := pool_shutdown (ex_pool ex)\<rparr>"

subsection \<open>Promises\<close>

fun continue ::
  "executor \<times> exn option \<Rightarrow> (executor \<Rightarrow> executor \<times> exn option) \<Rightarrow> executor \<times> exn option" where
  "continue (ex, None) k = k ex"
| "continue (ex, Some e) k = (ex, Some e)"

text \<open>\<open>set_value\<close> and \<open>set_exception\<close> throw when the promise was already satisfied.\<close>

definition promise_satisfied :: exn where
  "promise_satisfied = FutureError ''promise_already_satisfied''"

definition set_promise :: "promise_id \<Rightarrow> promise_state \<Rightarrow> executor \<Rightarrow> executor \<times> exn option" where
  "set_promise pr st ex =
     (if ex_promises ex pr = Unset then (ex\<lparr>ex_promises := (ex_promises ex)(pr := st)\<rparr>, None)
      else (ex, Some promise_satisfied))"

definition register_promise :: "task_id \<Rightarrow> promise_id \<Rightarrow> executor \<Rightarrow> executor" where
  "register_promise tid pr ex = ex\<lparr>ex_task_promises := (ex_task_promises ex)(tid \<mapsto> pr)\<rparr>"

definition fulfill_promise :: "task_id \<Rightarrow> any \<Rightarrow> executor \<Rightarrow> executor \<times> exn option" where
  "fulfill_promise tid result ex =
     (case ex_task_promises ex tid of
        None \<Rightarrow> (ex, None)
      | Some pr \<Rightarrow> set_promise pr (PromiseValue result)
                    (ex\<lparr>ex_task_promises := (ex_task_promises ex)(tid := None)\<rparr>))"

definition fail_promise :: "task_id \<Rightarrow> exn \<Rightarrow> executor \<Rightarrow> executor \<times> exn option" where
  "fail_promise tid error ex =
     (case ex_task_promises ex tid of
        None \<Rightarrow> (ex, None)
      | Some pr \<Rightarrow> set_promise pr (PromiseException error)
                    (ex\<lparr>ex_task_promises := (ex_task_promises ex)(tid := None)\<rparr>))"

subsection \<open>Callbacks\<close>

text \<open>The callback of a submission; \<open>AsyncCallback\<close> is the wrapper that \<open>submit_async\<close> builds.\<close>

definition run_submission_callback ::
  "submission_callback \<Rightarrow> any \<Rightarrow> executor \<Rightarrow> executor \<times> exn option" where
  "run_submission_callback cb result ex =
     (case cb of
        NoCallback \<Rightarrow> (ex, None)
      | UserCallback f \<Rightarrow> (ex, f result)
      | AsyncCallback pr user \<Rightarrow>
          continue (case user of Some f \<Rightarrow> (ex, f result) | None \<Rightarrow> (ex, None))
            (set_promise pr (PromiseValue result)))"

text \<open>The task is alive as long as the graph holds it.\<close>

definition clear_if_alive :: "task_ptr \<Rightarrow> executor \<Rightarrow> executor" where
  "clear_if_alive p ex =
     (if p \<in> set (map snd (g_tasks (ex_graph ex))) then on_ptr p clear_enqueued_flag ex else ex)"

definition run_task_callback :: "task_callback \<Rightarrow> any \<Rightarrow> executor \<Rightarrow> executor \<times> exn option" where
  "run_task_callback c result ex =
     (case c of
        DirectCallback f \<Rightarrow> (ex, f result)
      | ExecutorCallback tid p cb \<Rightarrow>
          continue (run_submission_callback cb result ex) (\<lambda>ex.
          continue (fulfill_promise tid result ex) (\<lambda>ex.
            (clear_if_alive p (on_graph (notify_task_completed tid) ex), None))))"

definition invoke_callback :: "task_ptr \<Rightarrow> any \<Rightarrow> executor \<Rightarrow> executor \<times> exn option" where
  "invoke_callback p result ex =
     (case t_callback (ex_heap ex p) of
        Some c \<Rightarrow> run_task_callback c result ex
      | None \<Rightarrow> (ex, None))"

subsection \<open>Submission\<close>

type_synonym cas3 = "bool \<times> bool \<times> bool"

definition submit_to_pool :: "cas3 \<Rightarrow> task_ptr \<Rightarrow> executor \<Rightarrow> executor \<times> unit outcome" where
  "submit_to_pool cas p ex =
     (case pool_submit cas (ex_pool ex) p (t_priority (ex_heap ex p)) of
        Return pool \<Rightarrow> (ex\<lparr>ex_pool := pool\<rparr>, Return ())
      | Throw e \<Rightarrow> (ex, Throw e)
      | Block \<Rightarrow> (ex, Block)
      | Undefined \<Rightarrow> (ex, Undefined))"

text \<open>\<open>if (task->try_mark_enqueued()) thread_pool_->submit(task, task->priority())\<close>\<close>

definition mark_and_submit :: "cas3 \<Rightarrow> task_ptr \<Rightarrow> executor \<Rightarrow> executor \<times> unit outcome" where
  "mark_and_submit cas p ex =
     (case try_mark_enqueued (ex_heap ex p) of
        (t, True) \<Rightarrow> submit_to_pool cas p (on_ptr p (\<lambda>_. t) ex)
      | (t, False) \<Rightarrow> (ex, Return ()))"

record submission =
  sub_dependencies :: "task_id list"
  sub_options :: task_options
  sub_callback :: submission_callback

text \<open>\<open>submit_internal\<close> up to the call of \<open>add_task\<close>.\<close>

definition create_task ::
  "time \<Rightarrow> (nat \<Rightarrow> exn + any) \<Rightarrow> string \<Rightarrow> submission \<Rightarrow> promise_id option \<Rightarrow> executor \<Rightarrow> executor" where
  "create_task now func name sub promise ex =
     (let tid = ex_next_task_id ex; p = ex_next_ptr ex;
          ex = ex\<lparr>ex_next_task_id := tid + 1, ex_next_ptr := Suc p\<rparr>;
          ex = on_ptr p (\<lambda>_. new_task tid func name (sub_options sub) now) ex;
          ex = monitored record_submission ex;
          ex = (case promise of Some pr \<Rightarrow> register_promise tid pr ex | None \<Rightarrow> ex);
          ex = on_ptr p (set_callback (ExecutorCallback tid p (sub_callback sub))) ex
      in on_graph (add_task p) ex)"

definition add_dependencies :: "task_id \<Rightarrow> task_id list \<Rightarrow> executor \<Rightarrow> executor" where
  "add_dependencies tid deps ex = fold (\<lambda>dep. on_graph (graph_add_dependency tid dep)) deps ex"

definition enqueue_if_ready :: "cas3 \<Rightarrow> task_ptr \<Rightarrow> executor \<Rightarrow> executor \<times> unit outcome" where
  "enqueue_if_ready cas p ex =
     (if is_ready (ex_heap ex p) then mark_and_submit cas p ex else (ex, Return ()))"

definition submit_internal ::
  "cas3 \<Rightarrow> time \<Rightarrow> (nat \<Rightarrow> exn + any) \<Rightarrow> string \<Rightarrow> submission \<Rightarrow> promise_id option \<Rightarrow> executor \<Rightarrow>
   executor \<times> task_id outcome" where
  "submit_internal cas now func name sub promise ex =
     (let tid = ex_next_task_id ex; p = ex_next_ptr ex;
          ex = create_task now func name sub promise ex;
          ex = add_dependencies tid (sub_dependencies sub) ex
      in case enqueue_if_ready cas p ex of
           (ex, Return ()) \<Rightarrow> (ex, Return tid)
         | (ex, Throw e) \<Rightarrow> (ex, Throw e)
         | (ex, Block) \<Rightarrow> (ex, Block)
         | (ex, Undefined) \<Rightarrow> (ex, Undefined))"

definition submit ::
  "cas3 \<Rightarrow> time \<Rightarrow> (nat \<Rightarrow> exn + any) \<Rightarrow> string \<Rightarrow> task_options \<Rightarrow> submission_callback \<Rightarrow> executor \<Rightarrow>
   executor \<times> task_id outcome" where
  "submit cas now func name options callback ex =
     submit_internal cas now func name
       \<lparr>sub_dependencies = [], sub_options = options, sub_callback = callback\<rparr> None ex"

definition submit_with_dependencies ::
  "cas3 \<Rightarrow> time \<Rightarrow> (nat \<Rightarrow> exn + any) \<Rightarrow> task_id list \<Rightarrow> string \<Rightarrow> task_options \<Rightarrow>
   submission_callback \<Rightarrow> executor \<Rightarrow> executor \<times> task_id outcome" where
  "submit_with_dependencies cas now func dependencies name options callback ex =
     submit_internal cas now func name
       \<lparr>sub_dependencies = dependencies, sub_options = options, sub_callback = callback\<rparr> None ex"

text \<open>The handle is the task id and the promise behind its future.\<close>

definition submit_async ::
  "cas3 \<Rightarrow> time \<Rightarrow> (nat \<Rightarrow> exn + any) \<Rightarrow> string \<Rightarrow> task_id list \<Rightarrow> task_options \<Rightarrow>
   user_callback option \<Rightarrow> executor \<Rightarrow> executor \<times> (task_id \<times> promise_id) outcome" where
  "submit_async cas now func name dependencies options user_callback ex =
     (let pr = ex_next_promise ex;
          ex = ex\<lparr>ex_next_promise := Suc pr, ex_promises := (ex_promises ex)(pr := Unset)\<rparr>
      in case submit_internal cas now func name
                \<lparr>sub_dependencies = dependencies, sub_options = options,
                  sub_callback = AsyncCallback pr user_callback\<rparr> (Some pr) ex of
           (ex, Return tid) \<Rightarrow> (ex, Return (tid, pr))
         | (ex, Throw e) \<Rightarrow> (ex, Throw e)
         | (ex, Block) \<Rightarrow> (ex, Block)
         | (ex, Undefined) \<Rightarrow> (ex, Undefined))"

subsection \<open>Status, waiting and cancellation\<close>

definition get_task_status :: "task_id \<Rightarrow> executor \<Rightarrow> task_status" where
  "get_task_status tid ex =
     (case get_task tid (ex_graph ex) of Some p \<Rightarrow> t_status (ex_heap ex p) | None \<Rightarrow> Failed)"

text \<open>One test of the loop condition: the call returns or goes on waiting.\<close>

definition wait_for_completion :: "executor \<Rightarrow> unit outcome" where
  "wait_for_completion ex = (if all_completed (ex_graph ex) then Return () else Block)"

definition executor_cancel :: "task_id \<Rightarrow> executor \<Rightarrow> executor \<times> bool outcome" where
  "executor_cancel tid ex =
     (case get_task tid (ex_graph ex) of
        None \<Rightarrow> (ex, Return False)
      | Some p \<Rightarrow>
          (case task_cancel (ex_heap ex p) of
             (t, False) \<Rightarrow> (ex, Return False)
           | (t, True) \<Rightarrow>
               (case fail_promise tid (RuntimeError ''Task cancelled'') (on_ptr p (\<lambda>_. t) ex) of
                  (ex, Some e) \<Rightarrow> (ex, Throw e)
                | (ex, None) \<Rightarrow>
                    (on_ptr p clear_enqueued_flag
                      (on_graph (notify_task_completed tid) (monitored record_cancellation ex)),
                     Return True))))"

definition executor_metrics :: "executor \<Rightarrow> metrics_snapshot outcome" where
  "executor_metrics ex =
     (case ex_monitor ex of Some m \<Rightarrow> Return (get_metrics m) | None \<Rightarrow> Undefined)"

definition executor_pending_tasks :: "executor \<Rightarrow> size_t" where
  "executor_pending_tasks ex = pool_pending_tasks (ex_pool ex)"

subsection \<open>The scheduler\<close>

fun submit_all :: "(task_ptr \<Rightarrow> cas3) \<Rightarrow> task_ptr list \<Rightarrow> executor \<Rightarrow> executor" where
  "submit_all cas [] ex = ex"
| "submit_all cas (p # ps) ex =
     (case mark_and_submit (cas p) p ex of
        (ex', Return ()) \<Rightarrow> submit_all cas ps ex'
      | (ex', _) \<Rightarrow> ex'\<lparr>ex_terminated := True\<rparr>)"

definition scheduler_round :: "(task_ptr \<Rightarrow> cas3) \<Rightarrow> executor \<Rightarrow> executor" where
  "scheduler_round cas ex =
     (if ex_scheduler_running ex then submit_all cas (get_ready_tasks (ex_graph ex)) ex else ex)"

subsection \<open>The hooks and the worker loop\<close>

definition on_start :: "time \<Rightarrow> task_ptr \<Rightarrow> executor \<Rightarrow> executor" where
  "on_start now p ex =
     (let wait = trunc_div (now - t_created_time (ex_heap ex p)) 1000
      in monitored (\<lambda>m. if 0 < wait then record_queue_wait (word_of_int wait) (record_start m)
                         else record_start m) ex)"

definition on_success :: "task_ptr \<Rightarrow> any \<Rightarrow> executor \<Rightarrow> executor \<times> exn option" where
  "on_success p result ex =
     invoke_callback p result (monitored (record_completion (execution_time (ex_heap ex p))) ex)"

definition handle_failure :: "cas3 \<Rightarrow> task_ptr \<Rightarrow> exn \<Rightarrow> executor \<Rightarrow> executor \<times> unit outcome" where
  "handle_failure cas p error ex =
     (if can_retry (ex_heap ex p)
      then mark_and_submit cas p (on_ptr p reset_for_retry (monitored record_retry ex))
      else (let tid = t_id (ex_heap ex p)
            in case fail_promise tid error ex of
                 (ex, Some e) \<Rightarrow> (ex, Throw e)
               | (ex, None) \<Rightarrow>
                   (on_ptr p clear_enqueued_flag (on_graph (notify_task_completed tid) ex), Return ())))"

definition on_failure :: "cas3 \<Rightarrow> task_ptr \<Rightarrow> exn \<Rightarrow> executor \<Rightarrow> executor \<times> unit outcome" where
  "on_failure cas p error ex = handle_failure cas p error (monitored record_failure ex)"

text \<open>
  The loop of a worker, cut where other threads may come in between: the loop condition; the wait
  while the pool is paused; finding a task, the start hook and the first part of \<open>execute\<close>; the rest
  of \<open>execute\<close>; the success hook; the failure hook; the wait for work. An exception of the success
  hook is caught by the same \<open>catch\<close> as one of \<open>execute\<close>; one of the failure hook leaves the thread.
\<close>

definition worker_loop_head :: "nat \<Rightarrow> executor \<Rightarrow> executor" where
  "worker_loop_head w ex =
     (case ex_workers ex ! w of
        LoopHead \<Rightarrow> set_worker w (if pl_running (ex_pool ex) then PauseCheck else Exited) ex
      | _ \<Rightarrow> ex)"

definition worker_pause_check :: "nat \<Rightarrow> executor \<Rightarrow> executor" where
  "worker_pause_check w ex =
     (case ex_workers ex ! w of
        PauseCheck \<Rightarrow>
          (if \<not> pl_paused (ex_pool ex) \<or> \<not> pl_running (ex_pool ex) then set_worker w Searching ex else ex)
      | _ \<Rightarrow> ex)"

definition worker_take :: "(nat \<Rightarrow> nat \<Rightarrow> bool) \<Rightarrow> time \<Rightarrow> nat \<Rightarrow> executor \<Rightarrow> executor" where
  "worker_take cas now w ex =
     (case ex_workers ex ! w of
        Searching \<Rightarrow>
          (case find_task cas (ex_pool ex) w of
             (pool, None) \<Rightarrow> set_worker w Sleeping (ex\<lparr>ex_pool := pool\<rparr>)
           | (pool, Some p) \<Rightarrow>
               (let ex = on_start now p (ex\<lparr>ex_pool := pool\<rparr>)
                in case execute_begin now (ex_heap ex p) of
                     Inl (t, e) \<Rightarrow> set_worker w (Threw p e) (on_ptr p (\<lambda>_. t) ex)
                   | Inr t \<Rightarrow> set_worker w (Executing p) (on_ptr p (\<lambda>_. t) ex)))
      | _ \<Rightarrow> ex)"

definition worker_wake :: "nat \<Rightarrow> executor \<Rightarrow> executor" where
  "worker_wake w ex =
     (case ex_workers ex ! w of
        Sleeping \<Rightarrow>
          (if \<not> pl_running (ex_pool ex) \<or> has_pending_work (ex_pool ex) then set_worker w LoopHead ex
           else ex)
      | _ \<Rightarrow> ex)"

definition worker_execute :: "exec_clock \<Rightarrow> nat \<Rightarrow> executor \<Rightarrow> executor" where
  "worker_execute c w ex =
     (case ex_workers ex ! w of
        Executing p \<Rightarrow>
          (case execute_end c (ex_heap ex p) of
             (t, Inr result) \<Rightarrow> set_worker w (Returned p result) (on_ptr p (\<lambda>_. t) ex)
           | (t, Inl e) \<Rightarrow> set_worker w (Threw p e) (on_ptr p (\<lambda>_. t) ex))
      | _ \<Rightarrow> ex)"

definition worker_success :: "nat \<Rightarrow> executor \<Rightarrow> executor" where
  "worker_success w ex =
     (case ex_workers ex ! w of
        Returned p result \<Rightarrow>
          (case on_success p result ex of
             (ex, None) \<Rightarrow> set_worker w LoopHead ex
           | (ex, Some e) \<Rightarrow> set_worker w (Threw p e) ex)
      | _ \<Rightarrow> ex)"

definition worker_failure :: "cas3 \<Rightarrow> nat \<Rightarrow> executor \<Rightarrow> executor" where
  "worker_failure cas w ex =
     (case ex_workers ex ! w of
        Threw p e \<Rightarrow>
          (case on_failure cas p e ex of
             (ex, Return ()) \<Rightarrow> set_worker w LoopHead ex
           | (ex, _) \<Rightarrow> ex\<lparr>ex_terminated := True\<rparr>)
      | _ \<Rightarrow> ex)"

end
