(* ===== verification/Executor_Safety.thy ===== *)
theory Executor_Safety
  imports Task_Executor
begin

section \<open>Safety of the executor\<close>

text \<open>
  The executor as a transition system, and its invariant. A step is one operation of a client, one
  round of the scheduler, or one of the parts of a worker's loop; every sequence of them is a run.
  Cancellation breaks the guarantees and is left out of the relation; Executor_Runs shows how. A
  submission, a round of the scheduler and a retry are one step each; Executor_Interleaving cuts them
  into the steps between which other threads run. Ids do not wrap around.
\<close>

subsection \<open>What the invariant speaks of\<close>

text \<open>A task is finished when it has a terminal status and is no longer marked as enqueued: from then
  on its dependents have been notified. \<open>live\<close> counts the dependencies that are not finished.\<close>

definition finished :: "task \<Rightarrow> bool" where
  "finished t \<longleftrightarrow> terminal (t_status t) \<and> \<not> t_enqueued t"

definition live :: "(task_ptr \<Rightarrow> task) \<Rightarrow> task_ptr \<Rightarrow> nat" where
  "live h p = length (filter (\<lambda>d. \<not> finished (h d)) (t_dependencies (h p)))"

definition slack :: "(task_ptr \<Rightarrow> task) \<Rightarrow> task_ptr \<Rightarrow> int" where
  "slack h p = t_dependencies_count (h p) - int (live h p)"

definition task_ok :: "(task_ptr \<Rightarrow> task) \<Rightarrow> task_ptr \<Rightarrow> bool" where
  "task_ok h p \<longleftrightarrow> (let t = h p in
     \<not> t_cancelled t \<and> 0 \<le> slack h p \<and>
     (t_enqueued t \<longrightarrow> t_dependencies_count t = 0) \<and>
     (\<not> t_enqueued t \<longrightarrow>
        (t_status t = Pending \<or> t_status t = Ready) \<and>
        (t_attempts t = 0 \<or> t_dependencies_count t = 0 \<and> unat (t_attempts t) \<le> unat (t_max_retries t)) \<or>
        terminal (t_status t) \<and> t_dependencies_count t = 0) \<and>
     unat (t_attempts t) \<le> unat (t_max_retries t) + 1 \<and> t_max_retries t < UINT64_MAX \<and>
     (\<exists>cb. t_callback t = Some (ExecutorCallback (t_id t) p cb)))"

fun held :: "worker \<Rightarrow> task_ptr multiset" where
  "held (Executing p) = {#p#}"
| "held (Returned p result) = {#p#}"
| "held (Threw p e) = {#p#}"
| "held st = {#}"

fun worker_ok :: "(task_ptr \<Rightarrow> task) \<Rightarrow> worker \<Rightarrow> bool" where
  "worker_ok h (Executing p) \<longleftrightarrow> t_attempts (h p) \<noteq> 0"
| "worker_ok h (Returned p result) \<longleftrightarrow> t_attempts (h p) \<noteq> 0 \<and> t_status (h p) = Completed"
| "worker_ok h (Threw p e) \<longleftrightarrow> t_attempts (h p) \<noteq> 0 \<and> terminal (t_status (h p))"
| "worker_ok h st \<longleftrightarrow> True"

definition placed :: "executor \<Rightarrow> task_ptr multiset" where
  "placed ex = pool_items (ex_pool ex) + sum_list (map held (ex_workers ex))"

abbreviation ex_ptrs :: "executor \<Rightarrow> task_ptr set" where
  "ex_ptrs ex \<equiv> g_ptrs (ex_graph ex)"

definition ex_inv :: "executor \<Rightarrow> bool" where
  "ex_inv ex \<longleftrightarrow>
     pool_inv (ex_pool ex) \<and> length (ex_workers ex) = unat (pl_num_threads (ex_pool ex)) \<and>
     graph_wf (ex_graph ex) \<and>
     (\<forall>p \<in> ex_ptrs ex. task_ok (ex_heap ex) p \<and> p < ex_next_ptr ex \<and>
        unat (t_id (ex_heap ex p)) < unat (ex_next_task_id ex)) \<and>
     (\<forall>p. count (placed ex) p \<le> (if p \<in> ex_ptrs ex \<and> t_enqueued (ex_heap ex p) then 1 else 0)) \<and>
     (\<forall>p \<in># pool_items (ex_pool ex). unat (t_attempts (ex_heap ex p)) \<le> unat (t_max_retries (ex_heap ex p))) \<and>
     (\<forall>st \<in> set (ex_workers ex). worker_ok (ex_heap ex) st)"

lemma ex_invD:
  assumes "ex_inv ex"
  shows "pool_inv (ex_pool ex)" "length (ex_workers ex) = unat (pl_num_threads (ex_pool ex))"
    "graph_wf (ex_graph ex)"
    "p \<in> ex_ptrs ex \<Longrightarrow> task_ok (ex_heap ex) p"
    "p \<in> ex_ptrs ex \<Longrightarrow> p < ex_next_ptr ex"
    "p \<in> ex_ptrs ex \<Longrightarrow> unat (t_id (ex_heap ex p)) < unat (ex_next_task_id ex)"
    "count (placed ex) p \<le> (if p \<in> ex_ptrs ex \<and> t_enqueued (ex_heap ex p) then 1 else 0)"
    "p \<in># pool_items (ex_pool ex) \<Longrightarrow>
       unat (t_attempts (ex_heap ex p)) \<le> unat (t_max_retries (ex_heap ex p))"
    "st \<in> set (ex_workers ex) \<Longrightarrow> worker_ok (ex_heap ex) st"
  using assms unfolding ex_inv_def by blast+

lemma task_okD:
  assumes "task_ok h p"
  shows "\<not> t_cancelled (h p)" "0 \<le> slack h p"
    "t_enqueued (h p) \<Longrightarrow> t_dependencies_count (h p) = 0"
    "\<not> t_enqueued (h p) \<Longrightarrow> (t_status (h p) = Pending \<or> t_status (h p) = Ready) \<and>
        (t_attempts (h p) = 0 \<or>
         t_dependencies_count (h p) = 0 \<and> unat (t_attempts (h p)) \<le> unat (t_max_retries (h p))) \<or>
        terminal (t_status (h p)) \<and> t_dependencies_count (h p) = 0"
    "unat (t_attempts (h p)) \<le> unat (t_max_retries (h p)) + 1"
    "t_max_retries (h p) < UINT64_MAX"
    "\<exists>cb. t_callback (h p) = Some (ExecutorCallback (t_id (h p)) p cb)"
  using assms unfolding task_ok_def Let_def by blast+

text \<open>A task that a queue or a worker holds is in the graph, enqueued, and held once.\<close>

lemma placed_enqueued:
  assumes "ex_inv ex" and "p \<in># placed ex"
  shows "p \<in> ex_ptrs ex" "t_enqueued (ex_heap ex p)" "count (placed ex) p = 1"
proof -
  define n where "n = count (placed ex) p"
  have "0 < n" using assms(2) by (simp add: n_def)
  moreover have "n \<le> (if p \<in> ex_ptrs ex \<and> t_enqueued (ex_heap ex p) then 1 else 0)"
    unfolding n_def by (rule ex_invD(7) [OF assms(1)])
  ultimately have "p \<in> ex_ptrs ex \<and> t_enqueued (ex_heap ex p) \<and> n = 1"
    by (cases "p \<in> ex_ptrs ex \<and> t_enqueued (ex_heap ex p)") auto
  then show "p \<in> ex_ptrs ex" "t_enqueued (ex_heap ex p)" "count (placed ex) p = 1"
    by (simp_all add: n_def)
qed

lemma in_sum_list_mset: "x \<in># sum_list (map f xs) \<longleftrightarrow> (\<exists>y \<in> set xs. x \<in># f y)"
  by (induction xs) auto

lemma held_sum_update:
  "w < length ws \<Longrightarrow> sum_list (map held (ws[w := st])) + held (ws ! w) = sum_list (map held ws) + held st"
  by (rule sum_list_map_update)

lemma held_pair:
  assumes "i < length ws" and "w < length ws" and "i \<noteq> w"
  shows "held (ws ! i) + held (ws ! w) \<subseteq># sum_list (map held ws)"
proof -
  have one: "sum_list (map held (ws[i := LoopHead])) + held (ws ! i) = sum_list (map held ws)"
    using held_sum_update [OF assms(1), of LoopHead] by simp
  have two: "sum_list (map held (ws[i := LoopHead, w := LoopHead])) + held (ws ! w) =
      sum_list (map held (ws[i := LoopHead]))"
    using held_sum_update [of w "ws[i := LoopHead]" LoopHead] assms(2,3) by simp
  show ?thesis unfolding one [symmetric] two [symmetric] by (simp add: union_ac)
qed

lemma held_placed:
  assumes "w < length (ex_workers ex)" and "p \<in># held (ex_workers ex ! w)"
  shows "p \<in># placed ex"
proof -
  have "held (ex_workers ex ! w) \<subseteq># sum_list (map held (ex_workers ex))"
    using assms(1) by (metis held_sum_update held.simps(4) add_0_right list_update_id mset_subset_eq_add_right)
  then show ?thesis using assms(2) by (auto simp: placed_def dest: mset_subset_eqD)
qed

subsection \<open>Changing one enqueued task\<close>

lemma live_update:
  assumes "t_dependencies t' = t_dependencies (h p)" and "finished t' = finished (h p)"
  shows "live (h(p := t')) q = live h q"
proof -
  have "finished ((h(p := t')) d) = finished (h d)" for d using assms(2) by simp
  then show ?thesis using assms(1) by (simp add: live_def)
qed

text \<open>What no step changes in a task: \<open>frame\<close>. Only its status, marks, attempts and times move.\<close>

definition frame :: "task \<Rightarrow> task \<Rightarrow> bool" where
  "frame t t' \<longleftrightarrow> t_id t' = t_id t \<and> t_dependencies t' = t_dependencies t \<and>
     t_dependents t' = t_dependents t \<and> t_dependencies_count t' = t_dependencies_count t \<and>
     t_options t' = t_options t \<and> t_callback t' = t_callback t \<and> t_cancelled t' = t_cancelled t"

text \<open>The invariant is kept, and so are the tasks \<open>Q\<close> with their slack.\<close>

definition evolves :: "task_ptr set \<Rightarrow> executor \<Rightarrow> executor \<Rightarrow> bool" where
  "evolves Q ex ex' \<longleftrightarrow> ex_inv ex' \<and>
     (\<forall>q \<in> Q. q \<in> ex_ptrs ex' \<and> slack (ex_heap ex') q = slack (ex_heap ex) q)"

lemma evolves_refl: "ex_inv ex \<Longrightarrow> Q \<subseteq> ex_ptrs ex \<Longrightarrow> evolves Q ex ex"
  by (auto simp: evolves_def)

lemma evolves_trans: "evolves Q ex1 ex2 \<Longrightarrow> evolves Q ex2 ex3 \<Longrightarrow> evolves Q ex1 ex3"
  by (simp add: evolves_def)

lemma worker_ok_cong:
  "worker_ok h st \<Longrightarrow> (\<And>q. q \<in># held st \<Longrightarrow> h' q = h q) \<Longrightarrow> worker_ok h' st"
  by (cases st) simp_all

lemma evolves_change:
  assumes inv: "ex_inv ex" and p: "p \<in> ex_ptrs ex"
    and tasks: "g_tasks (ex_graph ex') = g_tasks (ex_graph ex)"
    and heap: "ex_heap ex' = (ex_heap ex)(p := t')" and frame: "frame (ex_heap ex p) t'"
    and unfin: "\<not> finished (ex_heap ex p)" "\<not> finished t'"
    and enq: "t_enqueued t' \<or> (t_status t' = Pending \<or> t_status t' = Ready) \<and>
        unat (t_attempts t') \<le> unat (t_max_retries (ex_heap ex p))"
    and ready: "t_dependencies_count (ex_heap ex p) = 0"
    and att: "unat (t_attempts t') \<le> unat (t_max_retries (ex_heap ex p)) + 1"
    and pool: "pool_inv (ex_pool ex')" "pl_num_threads (ex_pool ex') = pl_num_threads (ex_pool ex)"
    and len: "length (ex_workers ex') = length (ex_workers ex)"
    and ids: "ex_next_ptr ex' = ex_next_ptr ex" "ex_next_task_id ex' = ex_next_task_id ex"
    and placed: "\<And>q. q \<noteq> p \<Longrightarrow> count (placed ex') q \<le> count (placed ex) q" "count (placed ex') p \<le> (if t_enqueued t' then 1 else 0)"
    and queue: "p \<in># pool_items (ex_pool ex') \<Longrightarrow>
        unat (t_attempts t') \<le> unat (t_max_retries (ex_heap ex p))"
      "\<And>q. q \<noteq> p \<Longrightarrow> q \<in># pool_items (ex_pool ex') \<Longrightarrow> q \<in># pool_items (ex_pool ex)"
    and workers: "\<And>st. st \<in> set (ex_workers ex') \<Longrightarrow> p \<in># held st \<Longrightarrow> worker_ok (ex_heap ex') st"
      "\<And>st. st \<in> set (ex_workers ex') \<Longrightarrow> p \<notin># held st \<Longrightarrow>
         st \<in> set (ex_workers ex) \<or> held st = {#}"
  shows "evolves (ex_ptrs ex) ex ex'"
proof -
  let ?h = "ex_heap ex" and ?h' = "ex_heap ex'"
  have deps: "t_dependencies t' = t_dependencies (?h p)" using frame by (simp add: frame_def)
  have live: "live ?h' q = live ?h q" for q
    unfolding heap using unfin deps by (intro live_update) simp_all
  have slack: "slack ?h' q = slack ?h q" for q
    using live frame by (simp add: slack_def heap frame_def)
  have ptrs: "ex_ptrs ex' = ex_ptrs ex" using tasks by simp
  have wf: "graph_wf (ex_graph ex')"
    using ex_invD(3) [OF inv] tasks
  proof (rule graph_wf_cong)
    show "t_dependencies (?h' q) = t_dependencies (?h q)" for q using frame by (simp add: heap frame_def)
    show "t_dependents (?h' q) = t_dependents (?h q)" for q using frame by (simp add: heap frame_def)
    show "t_id (?h' q) = t_id (?h q)" for q using frame by (simp add: heap frame_def)
  qed
  have ok: "task_ok ?h' q" if "q \<in> ex_ptrs ex'" for q
  proof (cases "q = p")
    case True
    note okp = task_okD [OF ex_invD(4) [OF inv p]]
    show ?thesis
      unfolding task_ok_def Let_def True slack
      using okp(1,2,6,7) frame enq ready att by (auto simp: heap frame_def)
  next
    case False
    have "task_ok ?h q" using ex_invD(4) [OF inv] that ptrs by blast
    then show ?thesis unfolding task_ok_def Let_def slack using False by (simp add: heap)
  qed
  have ids': "q < ex_next_ptr ex' \<and> unat (t_id (?h' q)) < unat (ex_next_task_id ex')"
    if "q \<in> ex_ptrs ex'" for q
    using ex_invD(5,6) [OF inv] that ptrs frame ids by (auto simp: heap frame_def)
  have cnt: "count (placed ex') q \<le> (if q \<in> ex_ptrs ex' \<and> t_enqueued (?h' q) then 1 else 0)" for q
  proof (cases "q = p")
    case True
    then show ?thesis using placed(2) p ptrs by (simp add: heap)
  next
    case False
    from placed(1) [OF this] ex_invD(7) [OF inv, of q] show ?thesis
      unfolding ptrs using False by (simp add: heap)
  qed
  have que: "unat (t_attempts (?h' q)) \<le> unat (t_max_retries (?h' q))"
    if "q \<in># pool_items (ex_pool ex')" for q
    using that queue ex_invD(8) [OF inv] frame by (cases "q = p") (auto simp: heap frame_def)
  have wk: "worker_ok ?h' st" if st: "st \<in> set (ex_workers ex')" for st
  proof (cases "p \<in># held st")
    case True
    with st show ?thesis by (rule workers(1))
  next
    case False
    from workers(2) [OF st this] show ?thesis
    proof
      assume "st \<in> set (ex_workers ex)"
      from ex_invD(9) [OF inv this] show ?thesis
        by (rule worker_ok_cong) (use False in \<open>auto simp: heap\<close>)
    next
      assume "held st = {#}"
      then show ?thesis by (cases st) simp_all
    qed
  qed
  have "length (ex_workers ex') = unat (pl_num_threads (ex_pool ex'))"
    using len pool(2) ex_invD(2) [OF inv] by simp
  then have "ex_inv ex'" unfolding ex_inv_def using pool(1) wf ok ids' cnt que wk by blast
  then show ?thesis using slack ptrs by (simp add: evolves_def)
qed

lemma evolves_local:
  assumes inv: "ex_inv ex" and p: "p \<in> ex_ptrs ex"
    and tasks: "g_tasks (ex_graph ex') = g_tasks (ex_graph ex)"
    and heap: "ex_heap ex' = (ex_heap ex)(p := t')" and frame: "frame (ex_heap ex p) t'"
    and unfin: "\<not> finished (ex_heap ex p)" and enq: "t_enqueued t'"
    and ready: "t_dependencies_count (ex_heap ex p) = 0"
    and att: "unat (t_attempts t') \<le> unat (t_max_retries (ex_heap ex p)) + 1"
    and pool: "pool_inv (ex_pool ex')" "pl_num_threads (ex_pool ex') = pl_num_threads (ex_pool ex)"
    and len: "length (ex_workers ex') = length (ex_workers ex)"
    and ids: "ex_next_ptr ex' = ex_next_ptr ex" "ex_next_task_id ex' = ex_next_task_id ex"
    and placed: "\<And>q. q \<noteq> p \<Longrightarrow> count (placed ex') q \<le> count (placed ex) q" "count (placed ex') p \<le> 1"
    and queue: "p \<in># pool_items (ex_pool ex') \<Longrightarrow>
        unat (t_attempts t') \<le> unat (t_max_retries (ex_heap ex p))"
      "\<And>q. q \<noteq> p \<Longrightarrow> q \<in># pool_items (ex_pool ex') \<Longrightarrow> q \<in># pool_items (ex_pool ex)"
    and workers: "\<And>st. st \<in> set (ex_workers ex') \<Longrightarrow> p \<in># held st \<Longrightarrow> worker_ok (ex_heap ex') st"
      "\<And>st. st \<in> set (ex_workers ex') \<Longrightarrow> p \<notin># held st \<Longrightarrow>
         st \<in> set (ex_workers ex) \<or> held st = {#}"
  shows "evolves (ex_ptrs ex) ex ex'"
proof (rule evolves_change [OF inv p tasks heap frame unfin])
  show "\<not> finished t'" using enq by (simp add: finished_def)
qed (use enq ready att pool len ids placed queue workers in simp_all)

text \<open>A step that changes no task.\<close>

lemma evolves_static:
  assumes inv: "ex_inv ex" and graph: "ex_graph ex' = ex_graph ex"
    and pool: "pool_inv (ex_pool ex')" "pl_num_threads (ex_pool ex') = pl_num_threads (ex_pool ex)"
      "pool_items (ex_pool ex') \<subseteq># pool_items (ex_pool ex)"
    and len: "length (ex_workers ex') = length (ex_workers ex)"
    and ids: "ex_next_ptr ex' = ex_next_ptr ex" "ex_next_task_id ex' = ex_next_task_id ex"
    and placed: "placed ex' \<subseteq># placed ex"
    and workers: "\<And>st. st \<in> set (ex_workers ex') \<Longrightarrow> worker_ok (ex_heap ex) st"
  shows "evolves (ex_ptrs ex) ex ex'"
proof -
  have "count (placed ex') q \<le> (if q \<in> ex_ptrs ex \<and> t_enqueued (ex_heap ex q) then 1 else 0)" for q
    using mset_subset_eq_count [OF placed, of q] ex_invD(7) [OF inv, of q] by (rule le_trans)
  moreover have "q \<in># pool_items (ex_pool ex)" if "q \<in># pool_items (ex_pool ex')" for q
    using pool(3) that by (rule mset_subset_eqD)
  ultimately have "ex_inv ex'"
    unfolding ex_inv_def graph ids using pool len workers ex_invD [OF inv] by simp
  then show ?thesis by (simp add: evolves_def graph)
qed

subsection \<open>Finishing a task\<close>

lemma notify_pow_frame:
  "t_attempts ((notify_dependency_completed ^^ k) t) = t_attempts t"
  "t_options ((notify_dependency_completed ^^ k) t) = t_options t"
  "t_callback ((notify_dependency_completed ^^ k) t) = t_callback t"
  "t_cancelled ((notify_dependency_completed ^^ k) t) = t_cancelled t"
  by (induction k) (simp_all add: notify_dependency_completed_def Let_def)

lemma filter_unfinished:
  assumes "\<And>d. d \<in> set xs \<Longrightarrow> f' d = (f d \<or> d = p)" and "\<not> f p"
  shows "length (filter (\<lambda>d. \<not> f' d) xs) + count_list xs p = length (filter (\<lambda>d. \<not> f d) xs)"
  using assms(1)
proof (induction xs)
  case Nil
  then show ?case by simp
next
  case (Cons x xs)
  have "f' x = (f x \<or> x = p)" using Cons.prems by simp
  with Cons.IH [OF Cons.prems] assms(2) show ?case by auto
qed

lemma count_unfinished: "\<not> f p \<Longrightarrow> count_list xs p \<le> length (filter (\<lambda>d. \<not> f d) xs)"
  by (induction xs) auto

definition finish_task :: "task_ptr \<Rightarrow> executor \<Rightarrow> executor" where
  "finish_task p ex =
     on_ptr p clear_enqueued_flag (on_graph (notify_task_completed (t_id (ex_heap ex p))) ex)"

lemma finish_task_sel [simp]:
  "ex_pool (finish_task p ex) = ex_pool ex" "ex_workers (finish_task p ex) = ex_workers ex"
  "ex_next_ptr (finish_task p ex) = ex_next_ptr ex"
  "ex_next_task_id (finish_task p ex) = ex_next_task_id ex"
  "g_tasks (ex_graph (finish_task p ex)) = g_tasks (ex_graph ex)"
  by (simp_all add: finish_task_def on_ptr_def on_graph_def)

lemma finish_task_heap:
  assumes wf: "graph_wf (ex_graph ex)" and p: "p \<in> ex_ptrs ex" and q: "q \<in> ex_ptrs ex"
  shows "ex_heap (finish_task p ex) q = (if q = p then clear_enqueued_flag else (\<lambda>t. t))
    ((notify_dependency_completed ^^ count_list (t_dependencies (ex_heap ex q)) p) (ex_heap ex q))"
  using notify_heap [OF wf map_of_id [OF wf p] q]
  by (cases "q = p") (simp_all add: finish_task_def on_ptr_def on_graph_def)

lemma finish_task_wf:
  assumes "graph_wf (ex_graph ex)"
  shows "graph_wf (ex_graph (finish_task p ex))"
proof (rule graph_wf_cong [OF notify_wf [OF assms, of "t_id (ex_heap ex p)"]])
  let ?g = "notify_task_completed (t_id (ex_heap ex p)) (ex_graph ex)"
  have "ex_heap (finish_task p ex) q = (if q = p then clear_enqueued_flag (g_heap ?g q) else g_heap ?g q)" for q
    by (simp add: finish_task_def on_ptr_def on_graph_def)
  then show "t_dependencies (ex_heap (finish_task p ex) q) = t_dependencies (g_heap ?g q)"
    "t_dependents (ex_heap (finish_task p ex) q) = t_dependents (g_heap ?g q)"
    "t_id (ex_heap (finish_task p ex) q) = t_id (g_heap ?g q)" for q
    by (simp_all add: clear_enqueued_flag_def)
qed simp

text \<open>What finishing the task \<open>p\<close> does to each task, under the invariant.\<close>

lemma finish_facts:
  assumes inv: "ex_inv ex" and p: "p \<in> ex_ptrs ex" and enq: "t_enqueued (ex_heap ex p)"
    and over: "terminal (t_status (ex_heap ex p))" and q: "q \<in> ex_ptrs ex"
  shows "q = p \<Longrightarrow> ex_heap (finish_task p ex) q = clear_enqueued_flag (ex_heap ex p)"
    and "q \<noteq> p \<Longrightarrow> count_list (t_dependencies (ex_heap ex q)) p = 0 \<and>
        ex_heap (finish_task p ex) q = ex_heap ex q \<or>
      0 < t_dependencies_count (ex_heap ex q) \<and> \<not> t_enqueued (ex_heap ex q) \<and>
        t_attempts (ex_heap ex q) = 0 \<and> \<not> terminal (t_status (ex_heap ex q))"
    and "finished (ex_heap (finish_task p ex) q) = (finished (ex_heap ex q) \<or> q = p)"
proof -
  let ?h = "ex_heap ex" and ?h' = "ex_heap (finish_task p ex)"
  let ?k = "\<lambda>q. count_list (t_dependencies (?h q)) p"
  note heap = finish_task_heap [OF ex_invD(3) [OF inv] p]
  have unfin: "\<not> finished (?h p)" using enq by (simp add: finished_def)
  have count: "int (?k r) \<le> t_dependencies_count (?h r)" if "r \<in> ex_ptrs ex" for r
  proof -
    have "?k r \<le> live ?h r"
      unfolding live_def using unfin by (rule count_unfinished)
    moreover have "0 \<le> slack ?h r" by (rule task_okD(2) [OF ex_invD(4) [OF inv that]])
    ultimately show ?thesis by (simp add: slack_def)
  qed
  have "t_dependencies_count (?h p) = 0" using task_okD(3) [OF ex_invD(4) [OF inv p] enq] .
  with count [OF p] have kp: "?k p = 0" by simp
  have one: "?h' p = clear_enqueued_flag (?h p)" using heap [OF p] kp by simp
  then show "q = p \<Longrightarrow> ?h' q = clear_enqueued_flag (?h p)" by simp
  have two: "?k q = 0 \<and> ?h' q = ?h q \<or>
      0 < t_dependencies_count (?h q) \<and> \<not> t_enqueued (?h q) \<and> t_attempts (?h q) = 0 \<and>
      \<not> terminal (t_status (?h q))" if "q \<noteq> p"
  proof (cases "?k q = 0")
    case True
    then show ?thesis using heap [OF q] that by simp
  next
    case False
    with count [OF q] have pos: "0 < t_dependencies_count (?h q)" by simp
    note ok = ex_invD(4) [OF inv q]
    from pos task_okD(3) [OF ok] have "\<not> t_enqueued (?h q)" by auto
    with pos task_okD(4) [OF ok] show ?thesis by (auto simp: terminal_def)
  qed
  then show "q \<noteq> p \<Longrightarrow> ?k q = 0 \<and> ?h' q = ?h q \<or>
      0 < t_dependencies_count (?h q) \<and> \<not> t_enqueued (?h q) \<and> t_attempts (?h q) = 0 \<and>
      \<not> terminal (t_status (?h q))" .
  show "finished (?h' q) = (finished (?h q) \<or> q = p)"
  proof (cases "q = p")
    case True
    then show ?thesis using one over by (simp add: finished_def clear_enqueued_flag_def)
  next
    case False
    from two [OF this] show ?thesis
      using False heap [OF q] by (auto simp: finished_def notify_pow terminal_def split: if_splits)
  qed
qed


lemma finish_slack:
  assumes inv: "ex_inv ex" and p: "p \<in> ex_ptrs ex" and enq: "t_enqueued (ex_heap ex p)"
    and over: "terminal (t_status (ex_heap ex p))" and q: "q \<in> ex_ptrs ex"
  shows "slack (ex_heap (finish_task p ex)) q = slack (ex_heap ex) q"
proof -
  let ?h = "ex_heap ex" and ?h' = "ex_heap (finish_task p ex)"
  note heap = finish_task_heap [OF ex_invD(3) [OF inv] p q]
  have deps: "t_dependencies (?h' q) = t_dependencies (?h q)"
    by (simp add: heap notify_pow clear_enqueued_flag_def)
  have count: "t_dependencies_count (?h' q) =
      t_dependencies_count (?h q) - int (count_list (t_dependencies (?h q)) p)"
    by (simp add: heap notify_pow clear_enqueued_flag_def)
  have "live ?h' q + count_list (t_dependencies (?h q)) p = live ?h q"
    unfolding live_def deps
  proof (rule filter_unfinished)
    fix d assume "d \<in> set (t_dependencies (?h q))"
    then have "d \<in> ex_ptrs ex" using wf_closed(1) [OF ex_invD(3) [OF inv] q] by blast
    then show "finished (?h' d) = (finished (?h d) \<or> d = p)"
      by (rule finish_facts(3) [OF inv p enq over])
  next
    show "\<not> finished (?h p)" using enq by (simp add: finished_def)
  qed
  then show ?thesis using count by (simp add: slack_def)
qed

lemma finish_task_ok:
  assumes inv: "ex_inv ex" and p: "p \<in> ex_ptrs ex" and enq: "t_enqueued (ex_heap ex p)"
    and over: "terminal (t_status (ex_heap ex p))" and q: "q \<in> ex_ptrs ex"
  shows "task_ok (ex_heap (finish_task p ex)) q"
proof -
  let ?h = "ex_heap ex" and ?h' = "ex_heap (finish_task p ex)"
  note facts = finish_facts [OF inv p enq over q]
  note slack = finish_slack [OF inv p enq over q]
  note ok = ex_invD(4) [OF inv q]
  show ?thesis
  proof (cases "q = p")
    case True
    have "t_dependencies_count (?h p) = 0" using task_okD(3) [OF ok] enq True by simp
    then show ?thesis
      using task_okD(1,2,5,6,7) [OF ok] slack facts(1) [OF True] over True
      unfolding task_ok_def Let_def by (simp add: clear_enqueued_flag_def)
  next
    case False
    from facts(2) [OF this] show ?thesis
    proof
      assume "count_list (t_dependencies (?h q)) p = 0 \<and> ?h' q = ?h q"
      with ok slack show ?thesis unfolding task_ok_def Let_def by simp
    next
      assume pos: "0 < t_dependencies_count (?h q) \<and> \<not> t_enqueued (?h q) \<and>
        t_attempts (?h q) = 0 \<and> \<not> terminal (t_status (?h q))"
      note heap = finish_task_heap [OF ex_invD(3) [OF inv] p q]
      have "t_status (?h q) = Pending \<or> t_status (?h q) = Ready"
        using task_okD(4) [OF ok] pos by auto
      then show ?thesis
        using task_okD(1,2,5,6,7) [OF ok] slack pos False
        unfolding task_ok_def Let_def by (auto simp: heap notify_pow notify_pow_frame)
    qed
  qed
qed

lemma evolves_finish:
  assumes inv: "ex_inv ex" and w: "w < length (ex_workers ex)" and p: "p \<in># held (ex_workers ex ! w)"
    and over: "terminal (t_status (ex_heap ex p))"
  shows "evolves (ex_ptrs ex) ex (set_worker w LoopHead (finish_task p ex))"
proof -
  let ?h = "ex_heap ex" and ?h' = "ex_heap (finish_task p ex)"
  let ?ex = "set_worker w LoopHead (finish_task p ex)"
  note mem = held_placed [OF w p]
  note pe = placed_enqueued [OF inv mem]
  have sel: "ex_pool ?ex = ex_pool ex" "ex_graph ?ex = ex_graph (finish_task p ex)"
    "ex_workers ?ex = (ex_workers ex)[w := LoopHead]" "ex_next_ptr ?ex = ex_next_ptr ex"
    "ex_next_task_id ?ex = ex_next_task_id ex" "ex_ptrs ?ex = ex_ptrs ex"
    by (simp_all add: set_worker_def)
  have heldp: "held (ex_workers ex ! w) = {#p#}" using p by (cases "ex_workers ex ! w") auto
  have "placed ?ex + {#p#} = placed ex"
    using held_sum_update [OF w, of LoopHead] heldp unfolding placed_def sel
    by (simp only: held.simps add_0_right add.assoc)
  then have cnt: "count (placed ex) q = count (placed ?ex) q + (if q = p then 1 else 0)" for q
    by (subst \<open>placed ?ex + {#p#} = placed ex\<close> [symmetric], subst count_union) simp
  have enq': "t_enqueued (?h' q) = t_enqueued (?h q)" if "q \<in> ex_ptrs ex" "q \<noteq> p" for q
    using finish_task_heap [OF ex_invD(3) [OF inv] pe(1) that(1)] that(2) by (simp add: notify_pow)
  have one: "count (placed ?ex) q \<le> (if q \<in> ex_ptrs ex \<and> t_enqueued (?h' q) then 1 else 0)" for q
  proof (cases "q = p")
    case True
    then show ?thesis using cnt [of p] pe(3) by simp
  next
    case False
    with cnt [of q] ex_invD(7) [OF inv, of q] enq' [of q] show ?thesis by (auto split: if_splits)
  qed
  have two: "unat (t_attempts (?h' q)) \<le> unat (t_max_retries (?h' q))"
    if "q \<in># pool_items (ex_pool ex)" for q
  proof -
    from that have "q \<in># placed ex" by (simp add: placed_def)
    from placed_enqueued(1) [OF inv this] show ?thesis
      using finish_task_heap [OF ex_invD(3) [OF inv] pe(1), of q] ex_invD(8) [OF inv that]
      by (cases "q = p") (simp_all add: notify_pow_frame clear_enqueued_flag_def)
  qed
  have three: "worker_ok ?h' st" if st: "st \<in> set (ex_workers ?ex)" for st
  proof (cases "st = LoopHead")
    case False
    with st have old: "st \<in> set (ex_workers ex)"
      using set_update_subset_insert [of "ex_workers ex" w LoopHead] by (auto simp: sel)
    from ex_invD(9) [OF inv old] show ?thesis
    proof (rule worker_ok_cong)
      fix q assume q: "q \<in># held st"
      then have inn: "q \<in># placed ?ex"
        using st by (auto simp: placed_def in_sum_list_mset)
      with cnt [of q] have "q \<in># placed ex" by (metis count_greater_zero_iff add_gr_0)
      note qe = placed_enqueued [OF inv this]
      have "q \<noteq> p" using cnt [of p] pe(3) inn by (auto simp flip: count_greater_zero_iff)
      from finish_facts(2) [OF inv pe(1,2) over qe(1) this] qe(2)
      show "?h' q = ?h q" by simp
    qed
  qed simp
  have "task_ok ?h' q \<and> q < ex_next_ptr ex \<and> unat (t_id (?h' q)) < unat (ex_next_task_id ex)"
    if "q \<in> ex_ptrs ex" for q
    using finish_task_ok [OF inv pe(1,2) over that] ex_invD(5,6) [OF inv that]
      finish_task_heap [OF ex_invD(3) [OF inv] pe(1) that]
    by (cases "q = p") (simp_all add: notify_pow clear_enqueued_flag_def)
  moreover have "length (ex_workers ?ex) = unat (pl_num_threads (ex_pool ex))"
    using ex_invD(2) [OF inv] by (simp add: sel)
  ultimately have "ex_inv ?ex"
    unfolding ex_inv_def sel(1,2,4,5,6)
    using ex_invD(1) [OF inv] finish_task_wf [OF ex_invD(3) [OF inv]] one two three by simp
  moreover have "slack ?h' q = slack ?h q" if "q \<in> ex_ptrs ex" for q
    using finish_slack [OF inv pe(1,2) over that] .
  ultimately show ?thesis by (simp add: evolves_def sel)
qed


subsection \<open>Creating a task\<close>

lemma create_task_sel:
  fixes now func name sub promise ex
  defines "ex' \<equiv> create_task now func name sub promise ex"
    and "t0 \<equiv> set_callback (ExecutorCallback (ex_next_task_id ex) (ex_next_ptr ex) (sub_callback sub))
                (new_task (ex_next_task_id ex) func name (sub_options sub) now)"
  shows "ex_pool ex' = ex_pool ex" "ex_workers ex' = ex_workers ex"
    "ex_next_ptr ex' = Suc (ex_next_ptr ex)" "ex_next_task_id ex' = ex_next_task_id ex + 1"
    "ex_heap ex' = (ex_heap ex)(ex_next_ptr ex := t0)"
    "g_tasks (ex_graph ex') = AList.update (ex_next_task_id ex) (ex_next_ptr ex) (g_tasks (ex_graph ex))"
    "ex_terminated ex' = ex_terminated ex"
  unfolding ex'_def t0_def create_task_def
  by (simp_all add: Let_def on_graph_def on_ptr_def monitored_def register_promise_def add_task_def
      on_task_def set_callback_def new_task_def split: option.splits)

text \<open>What a new task is, and that the task of the last submission is fresh and unknown to the graph.\<close>

lemma create_task_new:
  fixes now func name sub promise ex
  defines "t \<equiv> ex_heap (create_task now func name sub promise ex) (ex_next_ptr ex)"
  shows "t_id t = ex_next_task_id ex" "t_status t = Pending" "t_dependencies t = []" "t_dependents t = []"
    "t_dependencies_count t = 0" "t_options t = sub_options sub" "\<not> t_cancelled t"
    "\<not> t_enqueued t" "t_attempts t = 0"
    "t_callback t = Some (ExecutorCallback (ex_next_task_id ex) (ex_next_ptr ex) (sub_callback sub))"
  unfolding t_def create_task_sel by (simp_all add: set_callback_def new_task_def)

lemma next_ptr_fresh:
  assumes inv: "ex_inv ex"
  shows "ex_next_ptr ex \<notin> ex_ptrs ex" "map_of (g_tasks (ex_graph ex)) (ex_next_task_id ex) = None"
proof -
  show "ex_next_ptr ex \<notin> ex_ptrs ex" using ex_invD(5) [OF inv, of "ex_next_ptr ex"] by auto
  have "ex_next_task_id ex \<notin> g_ids (ex_graph ex)"
  proof
    assume "ex_next_task_id ex \<in> g_ids (ex_graph ex)"
    then obtain q where "q \<in> ex_ptrs ex" "ex_next_task_id ex = t_id (ex_heap ex q)"
      using wf_ids [OF ex_invD(3) [OF inv]] by auto
    with ex_invD(6) [OF inv this(1)] show False by simp
  qed
  then show "map_of (g_tasks (ex_graph ex)) (ex_next_task_id ex) = None" by (simp add: map_of_eq_None_iff)
qed

text \<open>The tasks that were there keep their state and their slack.\<close>

lemma create_task_old:
  fixes now func name sub promise ex
  defines "ex' \<equiv> create_task now func name sub promise ex"
  assumes inv: "ex_inv ex" and q: "q \<in> ex_ptrs ex"
  shows "ex_heap ex' q = ex_heap ex q" "slack (ex_heap ex') q = slack (ex_heap ex) q"
proof -
  have other: "ex_heap ex' d = ex_heap ex d" if "d \<in> ex_ptrs ex" for d
  proof -
    have "d \<noteq> ex_next_ptr ex" using that next_ptr_fresh(1) [OF inv] by blast
    then show ?thesis unfolding ex'_def create_task_sel by simp
  qed
  show eq: "ex_heap ex' q = ex_heap ex q" by (rule other [OF q])
  have "ex_heap ex' d = ex_heap ex d" if "d \<in> set (t_dependencies (ex_heap ex q))" for d
    using wf_closed(1) [OF ex_invD(3) [OF inv] q] that by (intro other) blast
  then have "live (ex_heap ex') q = live (ex_heap ex) q"
    unfolding live_def eq by (metis (mono_tags, lifting) filter_cong)
  then show "slack (ex_heap ex') q = slack (ex_heap ex) q" by (simp add: slack_def eq)
qed

lemma create_task_graph:
  fixes now func name sub promise ex
  defines "ex' \<equiv> create_task now func name sub promise ex"
  assumes inv: "ex_inv ex"
  shows "graph_wf (ex_graph ex')"
    "g_tasks (ex_graph ex') = g_tasks (ex_graph ex) @ [(ex_next_task_id ex, ex_next_ptr ex)]"
proof -
  let ?p = "ex_next_ptr ex" and ?g = "(ex_graph ex)\<lparr>g_heap := ex_heap ex'\<rparr>"
  note sel = create_task_sel [of now func name sub promise ex, folded ex'_def]
    and new = create_task_new [of now func name sub promise ex, folded ex'_def]
    and old = create_task_old(1) [OF inv, of _ now func name sub promise, folded ex'_def]
    and fresh = next_ptr_fresh [OF inv] and wf = ex_invD(3) [OF inv]
  have "\<forall>(i, q) \<in> set (g_tasks (ex_graph ex)). t_id (ex_heap ex' q) = i" using wf_id [OF wf] old by force
  with wf old have wf0: "graph_wf ?g" unfolding graph_wf_def edges_ok_def by simp
  have "fresh_task ?p ?g" using fresh new by (simp add: fresh_task_def)
  note add = add_fresh_task [OF wf0 this]
  show tasks: "g_tasks (ex_graph ex') = g_tasks (ex_graph ex) @ [(ex_next_task_id ex, ?p)]"
    by (simp add: sel(6) update_fresh [OF fresh(2)])
  have "add_task ?p ?g = ex_graph ex'"
    by (rule dep_graph.equality) (simp_all add: add_task_def sel(6) new)
  with add show "graph_wf (ex_graph ex')" by simp
qed

lemma create_evolves:
  fixes now func name sub promise ex
  defines "ex' \<equiv> create_task now func name sub promise ex"
  assumes inv: "ex_inv ex" and nowrap: "ex_next_task_id ex \<noteq> UINT64_MAX"
    and retries: "opt_max_retries (sub_options sub) < UINT64_MAX"
  shows "evolves (ex_ptrs ex) ex ex'"
    "map_of (g_tasks (ex_graph ex')) (ex_next_task_id ex) = Some (ex_next_ptr ex)"
    "\<not> t_enqueued (ex_heap ex' (ex_next_ptr ex))" "\<not> terminal (t_status (ex_heap ex' (ex_next_ptr ex)))"
    "ex_next_ptr ex \<notin> ex_ptrs ex" "t_attempts (ex_heap ex' (ex_next_ptr ex)) = 0"
proof -
  let ?p = "ex_next_ptr ex" and ?tid = "ex_next_task_id ex"
  note sel = create_task_sel [of now func name sub promise ex, folded ex'_def]
    and new = create_task_new [of now func name sub promise ex, folded ex'_def]
    and old = create_task_old [OF inv, of _ now func name sub promise, folded ex'_def]
    and graph = create_task_graph [OF inv, of now func name sub promise, folded ex'_def]
  show fresh: "?p \<notin> ex_ptrs ex" by (rule next_ptr_fresh(1) [OF inv])
  show "map_of (g_tasks (ex_graph ex')) ?tid = Some ?p" by (simp add: sel(6) map_of_update)
  show "\<not> t_enqueued (ex_heap ex' ?p)" "\<not> terminal (t_status (ex_heap ex' ?p))" "t_attempts (ex_heap ex' ?p) = 0"
    by (simp_all add: new terminal_def)
  have ptrs: "ex_ptrs ex' = insert ?p (ex_ptrs ex)" by (simp add: graph(2))
  have "1 + ?tid \<noteq> 0" using nowrap by (metis UINT64_MAX_def add.commute eq_neg_iff_add_eq_0)
  then have succ: "unat (?tid + 1) = Suc (unat ?tid)" using Word.unatSuc [of ?tid] by (simp add: add.commute)
  have one: "task_ok (ex_heap ex') q \<and> q < ex_next_ptr ex' \<and>
      unat (t_id (ex_heap ex' q)) < unat (ex_next_task_id ex')" if "q \<in> ex_ptrs ex'" for q
  proof (cases "q = ?p")
    case True
    have "task_ok (ex_heap ex') ?p" using new retries by (simp add: task_ok_def Let_def slack_def live_def)
    then show ?thesis unfolding True using new(1) succ by (simp add: sel(3,4))
  next
    case False
    with that ptrs have q: "q \<in> ex_ptrs ex" by simp
    have "task_ok (ex_heap ex') q" using ex_invD(4) [OF inv q] unfolding task_ok_def Let_def old [OF q] .
    then show ?thesis using ex_invD(5,6) [OF inv q] by (simp add: old(1) [OF q] sel(3,4) succ)
  qed
  have placed: "placed ex' = placed ex" by (simp add: placed_def sel(1,2))
  have kept: "ex_heap ex' q = ex_heap ex q" if "q \<in># placed ex" for q
    using placed_enqueued(1) [OF inv that] by (rule old(1))
  have two: "count (placed ex') q \<le> (if q \<in> ex_ptrs ex' \<and> t_enqueued (ex_heap ex' q) then 1 else 0)" for q
    using ex_invD(7) [OF inv, of q] old(1) [of q] fresh unfolding placed ptrs by (auto split: if_splits)
  have three: "unat (t_attempts (ex_heap ex' q)) \<le> unat (t_max_retries (ex_heap ex' q))"
    if "q \<in># pool_items (ex_pool ex')" for q
    using ex_invD(8) [OF inv, of q] that kept [of q] by (simp add: placed_def sel(1))
  have four: "worker_ok (ex_heap ex') st" if st: "st \<in> set (ex_workers ex')" for st
  proof (rule worker_ok_cong [of "ex_heap ex"])
    show "worker_ok (ex_heap ex) st" using ex_invD(9) [OF inv] st by (simp add: sel(2))
    show "ex_heap ex' q = ex_heap ex q" if "q \<in># held st" for q
      using st that by (intro kept) (auto simp: placed_def in_sum_list_mset sel(2))
  qed
  have "length (ex_workers ex') = unat (pl_num_threads (ex_pool ex'))" "pool_inv (ex_pool ex')"
    using ex_invD(1,2) [OF inv] by (simp_all add: sel(1,2))
  then have "ex_inv ex'" unfolding ex_inv_def using graph(1) one two three four by blast
  then show "evolves (ex_ptrs ex) ex ex'" using old(2) ptrs by (simp add: evolves_def)
qed


text \<open>Adding dependencies to a task that has not been enqueued.\<close>

lemma add_dep_heap:
  fixes h :: "task_ptr \<Rightarrow> task" and p d :: task_ptr
  defines "h' \<equiv> task_add_dependency p d h"
  shows "t_enqueued (h' q) = t_enqueued (h q)" "t_attempts (h' q) = t_attempts (h q)"
    "t_cancelled (h' q) = t_cancelled (h q)" "t_options (h' q) = t_options (h q)"
    "t_callback (h' q) = t_callback (h q)" "finished (h' q) = finished (h q)"
    "live h' q = live h q + (if q = p \<and> \<not> finished (h d) then 1 else 0)"
    "slack h' q = slack h q + (if q = p \<and> finished (h d) then 1 else 0)"
proof -
  show same: "t_enqueued (h' q) = t_enqueued (h q)" "t_attempts (h' q) = t_attempts (h q)"
    "t_cancelled (h' q) = t_cancelled (h q)" "t_options (h' q) = t_options (h q)"
    "t_callback (h' q) = t_callback (h q)" for q
    by (simp_all add: h'_def task_add_dependency_def on_task_def)
  show fin: "finished (h' q) = finished (h q)" for q
    by (simp add: finished_def same) (simp add: h'_def add_dependency_frame)
  show live: "live h' q = live h q + (if q = p \<and> \<not> finished (h d) then 1 else 0)"
    by (simp add: live_def fin) (simp add: h'_def add_dependency_frame)
  show "slack h' q = slack h q + (if q = p \<and> finished (h d) then 1 else 0)"
    unfolding slack_def live by (simp add: h'_def add_dependency_frame)
qed

lemma add_dependency_evolves:
  fixes tid j :: task_id and ex :: executor
  assumes inv: "ex_inv ex" and p: "map_of (g_tasks (ex_graph ex)) tid = Some p"
    and enq: "\<not> t_enqueued (ex_heap ex p)" and st: "\<not> terminal (t_status (ex_heap ex p))" "t_attempts (ex_heap ex p) = 0"
  defines "ex' \<equiv> on_graph (graph_add_dependency tid j) ex"
  shows "evolves (ex_ptrs ex - {p}) ex ex'" "\<not> t_enqueued (ex_heap ex' p)"
    "\<not> terminal (t_status (ex_heap ex' p))" "t_attempts (ex_heap ex' p) = 0"
    "g_tasks (ex_graph ex') = g_tasks (ex_graph ex)"
    "ex_pool ex' = ex_pool ex" "ex_next_ptr ex' = ex_next_ptr ex"
    "ex_next_task_id ex' = ex_next_task_id ex"
    "ex_terminated ex' = ex_terminated ex"
proof -
  have "evolves (ex_ptrs ex - {p}) ex ex' \<and> \<not> t_enqueued (ex_heap ex' p) \<and>
    \<not> terminal (t_status (ex_heap ex' p)) \<and> t_attempts (ex_heap ex' p) = 0"
  proof (cases "map_of (g_tasks (ex_graph ex)) j")
    case None
    then have "ex' = ex" by (simp add: ex'_def on_graph_def graph_add_dependency_def p)
    then show ?thesis using inv enq st by (simp add: evolves_refl)
  next
    case (Some d)
    have heap: "ex_heap ex' = task_add_dependency p d (ex_heap ex)"
      by (simp add: ex'_def on_graph_def graph_add_dependency_def p Some)
    have sel: "ex_ptrs ex' = ex_ptrs ex" "ex_pool ex' = ex_pool ex" "ex_workers ex' = ex_workers ex"
      "ex_next_ptr ex' = ex_next_ptr ex" "ex_next_task_id ex' = ex_next_task_id ex"
      by (simp_all add: ex'_def on_graph_def graph_add_dependency_def p Some)
    have wf: "graph_wf (ex_graph ex')"
      unfolding ex'_def on_graph_def using add_dependency_wf [OF ex_invD(3) [OF inv]] by simp
    note frame = add_dep_heap [of p d "ex_heap ex", folded heap]
      add_dependency_frame(1,2,4) [of p d "ex_heap ex", folded heap]
    have ok: "task_ok (ex_heap ex') q" if q: "q \<in> ex_ptrs ex'" for q
    proof -
      note okq = ex_invD(4) [OF inv q [unfolded sel]]
      have "0 \<le> slack (ex_heap ex') q" using task_okD(2) [OF okq] by (simp add: frame)
      moreover have "t_status (ex_heap ex p) = Pending \<or> t_status (ex_heap ex p) = Ready"
        using task_okD(4) [OF ex_invD(4) [OF inv map_of_wf(1) [OF ex_invD(3) [OF inv] p]] enq] st by blast
      ultimately show ?thesis
        using okq enq st unfolding task_ok_def Let_def by (auto simp: frame)
    qed
    have wk: "worker_ok (ex_heap ex') stt" if "stt \<in> set (ex_workers ex')" for stt
      using ex_invD(9) [OF inv, of stt] that by (cases stt) (simp_all add: frame sel)
    have "ex_inv ex'"
      unfolding ex_inv_def
      using wf ok wk ex_invD(1,2,5,6,7,8) [OF inv] by (simp add: placed_def sel frame)
    moreover have "slack (ex_heap ex') q = slack (ex_heap ex) q" if "q \<noteq> p" for q
      using that by (simp add: frame)
    ultimately show ?thesis using enq st by (auto simp: evolves_def sel frame)
  qed
  then show "evolves (ex_ptrs ex - {p}) ex ex'" "\<not> t_enqueued (ex_heap ex' p)"
    "\<not> terminal (t_status (ex_heap ex' p))" "t_attempts (ex_heap ex' p) = 0" by simp_all
  show "g_tasks (ex_graph ex') = g_tasks (ex_graph ex)" "ex_pool ex' = ex_pool ex"
    "ex_next_ptr ex' = ex_next_ptr ex" "ex_next_task_id ex' = ex_next_task_id ex"
    "ex_terminated ex' = ex_terminated ex"
    by (simp_all add: ex'_def on_graph_def graph_add_dependency_def split: option.splits)
qed

lemma add_dependencies_evolves:
  fixes tid :: task_id and deps :: "task_id list" and ex :: executor
  assumes "ex_inv ex" and "map_of (g_tasks (ex_graph ex)) tid = Some p"
    and "\<not> t_enqueued (ex_heap ex p)" and "\<not> terminal (t_status (ex_heap ex p))"
    and "t_attempts (ex_heap ex p) = 0"
  defines "ex' \<equiv> add_dependencies tid deps ex"
  shows "evolves (ex_ptrs ex - {p}) ex ex' \<and> \<not> t_enqueued (ex_heap ex' p) \<and>
    g_tasks (ex_graph ex') = g_tasks (ex_graph ex)"
  using assms(1-5) unfolding ex'_def
proof (induction deps arbitrary: ex)
  case Nil
  then show ?case by (simp add: add_dependencies_def evolves_refl)
next
  case (Cons j deps)
  let ?ex = "on_graph (graph_add_dependency tid j) ex"
  note one = add_dependency_evolves [OF Cons.prems, of j]
  have "ex_inv ?ex" using one(1) by (simp add: evolves_def)
  from Cons.IH [OF this] one Cons.prems(2)
  have "evolves (ex_ptrs ex - {p}) ?ex (add_dependencies tid deps ?ex) \<and>
    \<not> t_enqueued (ex_heap (add_dependencies tid deps ?ex) p) \<and>
    g_tasks (ex_graph (add_dependencies tid deps ?ex)) = g_tasks (ex_graph ex)" by simp
  with one(1) show ?case
    by (auto simp: add_dependencies_def intro: evolves_trans)
qed


subsection \<open>The steps\<close>

lemmas ex_update_defs = on_ptr_def on_graph_def monitored_def set_worker_def

text \<open>States that differ only in the monitor, the promises and the scheduler's flag.\<close>

definition same_core :: "executor \<Rightarrow> executor \<Rightarrow> bool" where
  "same_core ex ex' \<longleftrightarrow> ex_pool ex' = ex_pool ex \<and> ex_graph ex' = ex_graph ex \<and>
     ex_workers ex' = ex_workers ex \<and> ex_next_ptr ex' = ex_next_ptr ex \<and>
     ex_next_task_id ex' = ex_next_task_id ex"

lemma same_core_refl [simp]: "same_core ex ex"
  by (simp add: same_core_def)

lemma same_core_trans: "same_core ex1 ex2 \<Longrightarrow> same_core ex2 ex3 \<Longrightarrow> same_core ex1 ex3"
  by (simp add: same_core_def)

lemma same_core_monitored [simp]: "same_core ex (monitored f ex)"
  by (simp add: same_core_def monitored_def)

lemma same_core_inv: "same_core ex ex' \<Longrightarrow> ex_inv ex' = ex_inv ex"
  unfolding same_core_def ex_inv_def placed_def by simp

lemma same_core_evolves:
  assumes "evolves Q ex ex'" and "same_core ex' ex''"
  shows "evolves Q ex ex''"
proof -
  have "ex_graph ex'' = ex_graph ex'" using assms(2) by (simp add: same_core_def)
  with assms(1) same_core_inv [OF assms(2)] show ?thesis by (simp add: evolves_def)
qed

lemma evolves_core:
  assumes "same_core ex ex1" and "evolves Q ex1 ex'"
  shows "evolves Q ex ex'"
proof -
  have "ex_graph ex1 = ex_graph ex" using assms(1) by (simp add: same_core_def)
  with assms(2) show ?thesis by (simp add: evolves_def)
qed

lemma set_promise_core: "set_promise pr st ex = (ex', r) \<Longrightarrow> same_core ex ex'"
  by (auto simp: set_promise_def same_core_def split: if_splits)

lemma fulfill_promise_core: "fulfill_promise tid result ex = (ex', r) \<Longrightarrow> same_core ex ex'"
  by (auto simp: fulfill_promise_def set_promise_def same_core_def split: if_splits option.splits)

lemma fail_promise_core: "fail_promise tid e ex = (ex', r) \<Longrightarrow> same_core ex ex'"
  by (auto simp: fail_promise_def set_promise_def same_core_def split: if_splits option.splits)

lemma continue_cases:
  assumes "continue (ex1, r1) k = (ex2, r2)"
  shows "r1 \<noteq> None \<and> ex2 = ex1 \<and> r2 = r1 \<or> r1 = None \<and> k ex1 = (ex2, r2)"
  using assms by (cases r1) auto

lemma run_submission_callback_core:
  assumes "run_submission_callback cb result ex = (ex', r)"
  shows "same_core ex ex'"
proof (cases cb)
  case (AsyncCallback pr user)
  obtain r1 where first: "(case user of Some f \<Rightarrow> (ex, f result) | None \<Rightarrow> (ex, None)) = (ex, r1)"
    by (cases user) auto
  with assms AsyncCallback have "continue (ex, r1) (set_promise pr (PromiseValue result)) = (ex', r)"
    by (simp add: run_submission_callback_def)
  from continue_cases [OF this] show ?thesis using set_promise_core by auto
qed (use assms in \<open>auto simp: run_submission_callback_def\<close>)

text \<open>Marking a ready task and handing it to the pool.\<close>

lemma submit_to_pool_law:
  assumes inv: "pool_inv (ex_pool ex)" and step: "submit_to_pool cas p ex = (ex', r)"
  shows "\<exists>pool m. ex' = ex\<lparr>ex_pool := pool\<rparr> \<and> pool_inv pool \<and>
    pl_num_threads pool = pl_num_threads (ex_pool ex) \<and>
    pool_items pool = pool_items (ex_pool ex) + m \<and>
    (r = Return () \<and> m = {#p#} \<or> r \<noteq> Return () \<and> m = {#} \<and> ex' = ex)"
proof (cases "pool_submit cas (ex_pool ex) p (t_priority (ex_heap ex p))")
  case (Return pool)
  have "ex' = ex\<lparr>ex_pool := pool\<rparr>" "r = Return ()"
    using step Return by (simp_all add: submit_to_pool_def)
  then show ?thesis using pool_submit_law [OF inv Return] by (intro exI [of _ pool] exI [of _ "{#p#}"]) simp
next
  case other: (Throw e)
  with step have "ex' = ex" "r \<noteq> Return ()" by (auto simp: submit_to_pool_def)
  then show ?thesis using inv by (intro exI [of _ "ex_pool ex"] exI [of _ "{#}"]) simp
next
  case Block
  with step have "ex' = ex" "r \<noteq> Return ()" by (auto simp: submit_to_pool_def)
  then show ?thesis using inv by (intro exI [of _ "ex_pool ex"] exI [of _ "{#}"]) simp
next
  case Undefined
  with step have "ex' = ex" "r \<noteq> Return ()" by (auto simp: submit_to_pool_def)
  then show ?thesis using inv by (intro exI [of _ "ex_pool ex"] exI [of _ "{#}"]) simp
qed

lemma mark_evolves:
  assumes inv: "ex_inv ex" and p: "p \<in> ex_ptrs ex" and ready: "is_ready (ex_heap ex p)"
  shows "evolves (ex_ptrs ex) ex (on_ptr p (\<lambda>t. t\<lparr>t_enqueued := True\<rparr>) ex)"
    "p \<notin># placed ex" "unat (t_attempts (ex_heap ex p)) \<le> unat (t_max_retries (ex_heap ex p))"
proof -
  let ?t = "(ex_heap ex p)\<lparr>t_enqueued := True\<rparr>" and ?ex = "on_ptr p (\<lambda>t. t\<lparr>t_enqueued := True\<rparr>) ex"
  have r: "t_dependencies_count (ex_heap ex p) = 0" "\<not> t_enqueued (ex_heap ex p)"
    "t_status (ex_heap ex p) = Pending \<or> t_status (ex_heap ex p) = Ready"
    using ready by (simp_all add: is_ready_def)
  show att: "unat (t_attempts (ex_heap ex p)) \<le> unat (t_max_retries (ex_heap ex p))"
    using task_okD(4) [OF ex_invD(4) [OF inv p] r(2)] r(3) by (auto simp: terminal_def)
  have zero: "count (placed ex) p = 0" using ex_invD(7) [OF inv, of p] r(2) by simp
  then show pnot: "p \<notin># placed ex" by (simp add: not_in_iff)
  have sel: "ex_pool ?ex = ex_pool ex" "g_tasks (ex_graph ?ex) = g_tasks (ex_graph ex)"
    "ex_heap ?ex = (ex_heap ex)(p := ?t)" "ex_workers ?ex = ex_workers ex"
    "ex_next_ptr ?ex = ex_next_ptr ex" "ex_next_task_id ?ex = ex_next_task_id ex" "placed ?ex = placed ex"
    by (simp_all add: on_ptr_def on_task_def placed_def)
  show "evolves (ex_ptrs ex) ex ?ex"
  proof (rule evolves_local [OF inv p sel(2,3)])
    show "\<not> finished (ex_heap ex p)" using r(3) by (auto simp: finished_def terminal_def)
    show "worker_ok (ex_heap ?ex) st" if "st \<in> set (ex_workers ?ex)" "p \<in># held st" for st
      using that pnot by (auto simp: sel placed_def in_sum_list_mset)
  qed (use att r zero ex_invD(1) [OF inv] in \<open>simp_all add: sel frame_def\<close>)
qed

text \<open>Handing a marked task that is in no other place to the pool.\<close>

lemma put_evolves:
  assumes inv: "ex_inv ex" and p: "p \<in> ex_ptrs ex" and enq: "t_enqueued (ex_heap ex p)" and pnot: "p \<notin># placed ex"
    and att: "unat (t_attempts (ex_heap ex p)) \<le> unat (t_max_retries (ex_heap ex p))"
    and sub: "submit_to_pool cas p ex = (ex', r)"
  shows "evolves (ex_ptrs ex) ex ex'" "ex_heap ex' = ex_heap ex" "g_tasks (ex_graph ex') = g_tasks (ex_graph ex)"
proof -
  from submit_to_pool_law [OF ex_invD(1) [OF inv] sub] obtain pool m where
    pool: "pool_inv pool" "pl_num_threads pool = pl_num_threads (ex_pool ex)"
      "pool_items pool = pool_items (ex_pool ex) + m" "m = {#p#} \<or> m = {#}"
    and ex': "ex' = ex\<lparr>ex_pool := pool\<rparr>"
    by auto
  have sel: "ex_pool ex' = pool" "ex_graph ex' = ex_graph ex" "ex_workers ex' = ex_workers ex"
    "ex_next_ptr ex' = ex_next_ptr ex" "ex_next_task_id ex' = ex_next_task_id ex"
    by (simp_all add: ex')
  then show "ex_heap ex' = ex_heap ex" "g_tasks (ex_graph ex') = g_tasks (ex_graph ex)" by simp_all
  have placed: "placed ex' = placed ex + m"
    by (simp only: placed_def sel pool(3) ac_simps)
  have zero: "count (placed ex) p = 0" using pnot by (simp add: not_in_iff)
  show "evolves (ex_ptrs ex) ex ex'"
  proof (rule evolves_local [OF inv p, where t' = "ex_heap ex p"])
    show "\<not> finished (ex_heap ex p)" using enq by (simp add: finished_def)
    show "t_dependencies_count (ex_heap ex p) = 0" by (rule task_okD(3) [OF ex_invD(4) [OF inv p] enq])
    show "count (placed ex') q \<le> count (placed ex) q" if "q \<noteq> p" for q
      using pool(4) that by (auto simp: placed)
    show "count (placed ex') p \<le> 1" using pool(4) zero by (auto simp: placed)
    show "q \<in># pool_items (ex_pool ex)" if "q \<noteq> p" "q \<in># pool_items (ex_pool ex')" for q
      using pool(3,4) that by (auto simp: sel)
    show "worker_ok (ex_heap ex') st" if "st \<in> set (ex_workers ex')" "p \<in># held st" for st
      using that pnot by (auto simp: sel placed_def in_sum_list_mset)
  qed (use att enq pool in \<open>simp_all add: sel frame_def\<close>)
qed

lemma mark_and_submit_evolves:
  assumes inv: "ex_inv ex" and p: "p \<in> ex_ptrs ex" and ready: "is_ready (ex_heap ex p)"
    and step: "mark_and_submit cas p ex = (ex', r)"
  shows "evolves (ex_ptrs ex) ex ex'"
proof -
  let ?ex = "on_ptr p (\<lambda>t. t\<lparr>t_enqueued := True\<rparr>) ex"
  note mark = mark_evolves [OF inv p ready]
  have sel: "ex_ptrs ?ex = ex_ptrs ex" "placed ?ex = placed ex" "t_enqueued (ex_heap ?ex p)"
    "t_attempts (ex_heap ?ex p) = t_attempts (ex_heap ex p)" "t_options (ex_heap ?ex p) = t_options (ex_heap ex p)"
    by (simp_all add: on_ptr_def placed_def)
  have "submit_to_pool cas p ?ex = (ex', r)"
    using step ready by (simp add: mark_and_submit_def try_mark_enqueued_def is_ready_def on_ptr_def on_task_def)
  with mark sel p have "evolves (ex_ptrs ?ex) ?ex ex'"
    by (intro put_evolves [of ?ex p cas ex' r]) (simp_all add: evolves_def)
  then show ?thesis using evolves_trans [OF mark(1)] sel(1) by simp
qed

end
