(* ===== verification/Executor_Runs.thy ===== *)
theory Executor_Runs
  imports Executor_Safety
begin

section \<open>Runs of the executor\<close>

text \<open>
  Every operation of the executor preserves the invariant of Executor_Safety; runs of operations in
  any order; and the properties of all reachable states. The last part shows how cancellation and
  asynchronous submission leave what the invariant promises.
\<close>

subsection \<open>Submission\<close>

lemma evolves_mono: "evolves Q ex ex' \<Longrightarrow> Q' \<subseteq> Q \<Longrightarrow> evolves Q' ex ex'"
  by (auto simp: evolves_def)

lemma evolves_inv: "evolves Q ex ex' \<Longrightarrow> ex_inv ex'"
  by (simp add: evolves_def)

lemma evolves_ptrs: "evolves Q ex ex' \<Longrightarrow> Q \<subseteq> ex_ptrs ex'"
  unfolding evolves_def by blast

lemma enqueue_if_ready_evolves:
  assumes "ex_inv ex" and "p \<in> ex_ptrs ex" and "enqueue_if_ready cas p ex = (ex', r)"
  shows "evolves (ex_ptrs ex) ex ex'"
  using assms mark_and_submit_evolves evolves_refl
  by (auto simp: enqueue_if_ready_def split: if_splits)

lemma submit_internal_steps:
  assumes "submit_internal cas now func name sub promise ex = (ex', r)"
  defines "ex1 \<equiv> create_task now func name sub promise ex"
  defines "ex2 \<equiv> add_dependencies (ex_next_task_id ex) (sub_dependencies sub) ex1"
  shows "\<exists>r'. enqueue_if_ready cas (ex_next_ptr ex) ex2 = (ex', r')"
proof -
  obtain ex3 r3 where last: "enqueue_if_ready cas (ex_next_ptr ex) ex2 = (ex3, r3)" by fastforce
  with assms(1) have "ex3 = ex'"
    unfolding submit_internal_def ex1_def [symmetric] ex2_def [symmetric] Let_def
    by (cases r3) (simp_all split: unit.splits)
  with last show ?thesis by blast
qed

lemma submit_internal_evolves:
  assumes inv: "ex_inv ex" and nowrap: "ex_next_task_id ex \<noteq> UINT64_MAX"
    and retries: "opt_max_retries (sub_options sub) < UINT64_MAX"
    and step: "submit_internal cas now func name sub promise ex = (ex', r)"
  shows "evolves (ex_ptrs ex) ex ex'"
proof -
  let ?p = "ex_next_ptr ex"
  define ex1 where "ex1 = create_task now func name sub promise ex"
  define ex2 where "ex2 = add_dependencies (ex_next_task_id ex) (sub_dependencies sub) ex1"
  obtain r' where last: "enqueue_if_ready cas ?p ex2 = (ex', r')"
    using submit_internal_steps [OF step] by (auto simp: ex1_def ex2_def)
  note fresh = create_evolves(5) [OF inv nowrap retries]
  note one = create_evolves(1-4,6) [where now = now and func = func and name = name and promise = promise,
      OF inv nowrap retries, folded ex1_def]
  note two = add_dependencies_evolves [OF evolves_inv [OF one(1)] one(2-5), where deps = "sub_dependencies sub",
      folded ex2_def]
  have inv2: "ex_inv ex2" using two evolves_inv by blast
  have tasks: "g_tasks (ex_graph ex2) = g_tasks (ex_graph ex1)" using two by blast
  have p: "?p \<in> ex_ptrs ex2"
    unfolding tasks by (rule map_of_wf(1) [OF ex_invD(3) [OF evolves_inv [OF one(1)]] one(2)])
  note three = enqueue_if_ready_evolves [OF inv2 p last]
  have "ex_ptrs ex \<subseteq> ex_ptrs ex1 - {?p}" using evolves_ptrs [OF one(1)] fresh by blast
  with two have "evolves (ex_ptrs ex) ex1 ex2" using evolves_mono by blast
  moreover have "evolves (ex_ptrs ex) ex2 ex'"
    using three evolves_ptrs [OF \<open>evolves (ex_ptrs ex) ex1 ex2\<close>] evolves_mono by blast
  ultimately show ?thesis using one(1) evolves_trans by blast
qed

lemma submit_async_steps:
  assumes "submit_async cas now func name deps options user ex = (ex', r)"
  shows "\<exists>ex1 sub r'. same_core ex ex1 \<and> sub_options sub = options \<and>
    submit_internal cas now func name sub (Some (ex_next_promise ex)) ex1 = (ex', r')"
proof -
  let ?ex1 = "ex\<lparr>ex_next_promise := Suc (ex_next_promise ex),
    ex_promises := (ex_promises ex)(ex_next_promise ex := Unset)\<rparr>"
  let ?sub = "\<lparr>sub_dependencies = deps, sub_options = options,
    sub_callback = AsyncCallback (ex_next_promise ex) user\<rparr>"
  obtain ex2 r2 where run: "submit_internal cas now func name ?sub (Some (ex_next_promise ex)) ?ex1 = (ex2, r2)"
    by fastforce
  with assms have "ex2 = ex'" by (cases r2) (simp_all add: submit_async_def Let_def)
  moreover have "same_core ex ?ex1" by (simp add: same_core_def)
  ultimately show ?thesis using run by (intro exI [of _ ?ex1] exI [of _ ?sub] exI [of _ r2]) simp
qed

lemma submit_async_evolves:
  assumes inv: "ex_inv ex" and nowrap: "ex_next_task_id ex \<noteq> UINT64_MAX"
    and retries: "opt_max_retries options < UINT64_MAX"
    and step: "submit_async cas now func name deps options user ex = (ex', r)"
  shows "evolves (ex_ptrs ex) ex ex'"
proof -
  obtain ex1 sub r' where core: "same_core ex ex1" and opts: "sub_options sub = options"
    and run: "submit_internal cas now func name sub (Some (ex_next_promise ex)) ex1 = (ex', r')"
    using submit_async_steps [OF step] by blast
  have "evolves (ex_ptrs ex1) ex1 ex'"
    using inv nowrap retries same_core_inv [OF core] core opts
    by (intro submit_internal_evolves [OF _ _ _ run]) (simp_all add: same_core_def)
  moreover have "ex_ptrs ex1 = ex_ptrs ex" using core by (simp add: same_core_def)
  ultimately show ?thesis using evolves_core [OF core] by simp
qed

subsection \<open>The scheduler\<close>

lemma mark_and_submit_frame:
  assumes "mark_and_submit cas p ex = (ex', r)" and "q \<noteq> p"
  shows "ex_heap ex' q = ex_heap ex q"
  using assms
  by (auto simp: mark_and_submit_def try_mark_enqueued_def submit_to_pool_def on_ptr_def
      split: if_splits outcome.splits)

lemma submit_all_evolves:
  assumes "ex_inv ex" and "distinct ps" and "set ps \<subseteq> ex_ptrs ex"
    and "\<forall>p \<in> set ps. is_ready (ex_heap ex p)"
  shows "evolves (ex_ptrs ex) ex (submit_all cas ps ex)"
  using assms
proof (induction ps arbitrary: ex)
  case Nil
  then show ?case by (simp add: evolves_refl)
next
  case (Cons p ps)
  obtain ex1 r where step: "mark_and_submit (cas p) p ex = (ex1, r)" by fastforce
  have one: "evolves (ex_ptrs ex) ex ex1"
    using Cons.prems by (intro mark_and_submit_evolves [OF _ _ _ step]) auto
  note sub = evolves_ptrs [OF one]
  show ?case
  proof (cases "r = Return ()")
    case True
    have "is_ready (ex_heap ex1 q)" if "q \<in> set ps" for q
    proof -
      have "q \<noteq> p" using that Cons.prems(2) by auto
      with mark_and_submit_frame [OF step this] that Cons.prems(4) show ?thesis by simp
    qed
    then have ready: "\<forall>q \<in> set ps. is_ready (ex_heap ex1 q)" by blast
    have "distinct ps" "set ps \<subseteq> ex_ptrs ex" using Cons.prems(2,3) by simp_all
    with sub have "set ps \<subseteq> ex_ptrs ex1" by blast
    note rest = Cons.IH [OF evolves_inv [OF one] \<open>distinct ps\<close> this ready]
    have "evolves (ex_ptrs ex) ex (submit_all cas ps ex1)"
      using evolves_trans [OF one evolves_mono [OF rest sub]] .
    then show ?thesis by (simp add: step True split: unit.splits)
  next
    case False
    have "submit_all cas (p # ps) ex = ex1\<lparr>ex_terminated := True\<rparr>"
      using False by (cases r) (simp_all add: step)
    moreover have "same_core ex1 (ex1\<lparr>ex_terminated := True\<rparr>)" by (simp add: same_core_def)
    ultimately show ?thesis using same_core_evolves [OF one] by simp
  qed
qed

lemma scheduler_round_evolves:
  assumes inv: "ex_inv ex"
  shows "evolves (ex_ptrs ex) ex (scheduler_round cas ex)"
proof -
  have "distinct (map snd (g_tasks (ex_graph ex)))" using ex_invD(3) [OF inv] by (simp add: graph_wf_def)
  then have "evolves (ex_ptrs ex) ex (submit_all cas (get_ready_tasks (ex_graph ex)) ex)"
    by (intro submit_all_evolves [OF inv]) (auto simp: get_ready_tasks_def)
  then show ?thesis using evolves_refl [OF inv] by (simp add: scheduler_round_def)
qed


subsection \<open>Workers\<close>

lemma frame_execute_end: "execute_end c t = (t', r) \<Longrightarrow>
   frame t t' \<and> t_enqueued t' = t_enqueued t \<and> t_attempts t' = t_attempts t \<and>
   t_status t' = (case r of Inr _ \<Rightarrow> Completed | Inl _ \<Rightarrow> Failed)"
  by (auto simp: execute_end_def execute_try_def Let_def frame_def
      split: if_splits option.splits sum.splits)

lemma evolves_worker:
  assumes inv: "ex_inv ex" and w: "w < length (ex_workers ex)"
    and old: "held (ex_workers ex ! w) + m = {#p#}" and new: "held st = {#p#}"
    and p: "p \<in># placed ex"
    and pool: "pool_inv (ex_pool ex')" "pl_num_threads (ex_pool ex') = pl_num_threads (ex_pool ex)"
      "pool_items (ex_pool ex) = pool_items (ex_pool ex') + m"
    and sel: "g_tasks (ex_graph ex') = g_tasks (ex_graph ex)" "ex_heap ex' = (ex_heap ex)(p := t')"
      "ex_workers ex' = (ex_workers ex)[w := st]" "ex_next_ptr ex' = ex_next_ptr ex"
      "ex_next_task_id ex' = ex_next_task_id ex"
    and frame: "frame (ex_heap ex p) t'" "t_enqueued t'"
    and att: "unat (t_attempts t') \<le> unat (t_max_retries (ex_heap ex p)) + 1"
    and ok: "worker_ok (ex_heap ex') st"
  shows "evolves (ex_ptrs ex) ex ex'"
proof -
  note pe = placed_enqueued [OF inv p]
  have "sum_list (map held (ex_workers ex')) = sum_list (map held (ex_workers ex)) + m"
    using held_sum_update [OF w, of st] unfolding sel(3) new old [symmetric]
    by (simp only: add.assoc [symmetric] add.commute [of m] add_right_cancel)
       (simp add: union_ac)
  then have placed: "placed ex' = placed ex"
    unfolding placed_def pool(3) by (simp add: union_ac)
  have only: "held st' = {#} \<or> st' \<in> set (ex_workers ex) \<or> st' = st" if "st' \<in> set (ex_workers ex')" for st'
    using that set_update_subset_insert [of "ex_workers ex" w st] by (auto simp: sel)
  have pq: "p \<notin># pool_items (ex_pool ex')"
  proof -
    have "p \<in># sum_list (map held (ex_workers ex'))"
      using w new by (auto simp: in_sum_list_mset sel intro!: bexI [of _ st] set_update_memI)
    then have "0 < count (sum_list (map held (ex_workers ex'))) p" by simp
    moreover have "count (placed ex') p = 1" using pe(3) placed by simp
    moreover have "count (placed ex') p = count (pool_items (ex_pool ex')) p +
        count (sum_list (map held (ex_workers ex'))) p" by (simp add: placed_def)
    ultimately have "count (pool_items (ex_pool ex')) p = 0" by linarith
    then show ?thesis by (simp add: not_in_iff)
  qed
  show ?thesis
  proof (rule evolves_local [OF inv pe(1) sel(1,2) frame(1)])
    show "\<not> finished (ex_heap ex p)" using pe(2) by (simp add: finished_def)
    show "t_enqueued t'" by (rule frame(2))
    show "t_dependencies_count (ex_heap ex p) = 0"
      by (rule task_okD(3) [OF ex_invD(4) [OF inv pe(1)] pe(2)])
    show "unat (t_attempts t') \<le> unat (t_max_retries (ex_heap ex p)) + 1" by (rule att)
    show "pool_inv (ex_pool ex')" "pl_num_threads (ex_pool ex') = pl_num_threads (ex_pool ex)"
      by (rule pool)+
    show "length (ex_workers ex') = length (ex_workers ex)" by (simp add: sel)
    show "ex_next_ptr ex' = ex_next_ptr ex" "ex_next_task_id ex' = ex_next_task_id ex" by (rule sel)+
    show "count (placed ex') q \<le> count (placed ex) q" for q by (simp add: placed)
    show "count (placed ex') p \<le> 1" using pe(3) by (simp add: placed)
    show "unat (t_attempts t') \<le> unat (t_max_retries (ex_heap ex p))"
      if "p \<in># pool_items (ex_pool ex')" using pq that by simp
    show "q \<in># pool_items (ex_pool ex)" if "q \<in># pool_items (ex_pool ex')" for q
      using that by (simp add: pool(3))
    show "worker_ok (ex_heap ex') st'" if st': "st' \<in> set (ex_workers ex')" "p \<in># held st'" for st'
    proof (cases "st' = st")
      case False
      from st' only have "st' \<in> set (ex_workers ex')" by simp
      then obtain i where i: "i < length (ex_workers ex')" "ex_workers ex' ! i = st'"
        by (auto simp: in_set_conv_nth)
      with False have "i \<noteq> w" using w by (auto simp: sel)
      have "held st' + held st \<subseteq># sum_list (map held (ex_workers ex'))"
        using held_pair [of i "ex_workers ex'" w] i \<open>i \<noteq> w\<close> w by (simp add: sel)
      then have "count (held st' + held st) p \<le> count (placed ex') p"
        by (metis mset_subset_eq_count placed_def mset_subset_eq_add_right subset_mset.order_trans)
      moreover have "2 \<le> count (held st' + held st) p"
        using st'(2) new by (simp flip: count_greater_zero_iff)
      ultimately show ?thesis using pe(3) placed by simp
    qed (simp add: ok)
    show "st' \<in> set (ex_workers ex) \<or> held st' = {#}"
      if "st' \<in> set (ex_workers ex')" "p \<notin># held st'" for st'
      using only [OF that(1)] that(2) new by auto
  qed
qed


lemma worker_execute_evolves:
  assumes inv: "ex_inv ex" and w: "w < length (ex_workers ex)"
  shows "evolves (ex_ptrs ex) ex (worker_execute c w ex)"
proof (cases "ex_workers ex ! w")
  case (Executing p)
  obtain t' r where run: "execute_end c (ex_heap ex p) = (t', r)" by fastforce
  define st where "st = (case r of Inr x \<Rightarrow> Returned p x | Inl e \<Rightarrow> Threw p e)"
  have ex': "worker_execute c w ex = set_worker w st (on_ptr p (\<lambda>_. t') ex)"
    by (cases r) (simp_all add: worker_execute_def Executing run st_def)
  note law = frame_execute_end [OF run]
  have mem: "p \<in># placed ex" using held_placed [OF w] Executing by simp
  have "Executing p \<in> set (ex_workers ex)" using w Executing by (metis nth_mem)
  from ex_invD(9) [OF inv this] have "t_attempts (ex_heap ex p) \<noteq> 0" by simp
  with law have ok: "worker_ok ((ex_heap ex)(p := t')) st"
    by (cases r) (simp_all add: st_def terminal_def)
  show ?thesis
    unfolding ex'
    using law ok placed_enqueued(2) [OF inv mem] ex_invD(1) [OF inv] task_okD(5) [OF ex_invD(4) [OF inv placed_enqueued(1) [OF inv mem]]]
    by (intro evolves_worker [OF inv w, where p = p and m = "{#}" and t' = t' and st = st])
      (simp_all add: Executing mem set_worker_def on_ptr_def on_task_def st_def split: sum.splits)
qed (simp_all add: worker_execute_def evolves_refl [OF inv])

lemma worker_take_evolves:
  assumes inv: "ex_inv ex" and w: "w < length (ex_workers ex)"
  shows "evolves (ex_ptrs ex) ex (worker_take cas now w ex)"
proof (cases "ex_workers ex ! w = Searching")
  case True
  obtain pool r where found: "find_task cas (ex_pool ex) w = (pool, r)" by fastforce
  have w': "w < unat (pl_num_threads (ex_pool ex))" using w ex_invD(2) [OF inv] by simp
  show ?thesis
  proof (cases r)
    case None
    from found None have "find_task cas (ex_pool ex) w = (pool, None)" by simp
    from find_task_None [OF ex_invD(1) [OF inv] w' this] have pool: "pool = ex_pool ex" by simp
    let ?ex = "set_worker w Sleeping (ex\<lparr>ex_pool := pool\<rparr>)"
    have "placed ?ex = placed ex"
      using held_sum_update [OF w, of Sleeping] True by (simp add: placed_def set_worker_def pool)
    moreover have "worker_ok (ex_heap ex) st" if "st \<in> set ((ex_workers ex)[w := Sleeping])" for st
      using that set_update_subset_insert [of "ex_workers ex" w Sleeping] ex_invD(9) [OF inv] by auto
    ultimately have "evolves (ex_ptrs ex) ex ?ex"
      using ex_invD(1) [OF inv] by (intro evolves_static [OF inv]) (simp_all add: set_worker_def pool)
    then show ?thesis by (simp add: worker_take_def True found None)
  next
    case (Some p)
    from found Some have step: "find_task cas (ex_pool ex) w = (pool, Some p)" by simp
    note law = find_task_Some [OF ex_invD(1) [OF inv] w' step]
    then have items: "pool_items (ex_pool ex) = pool_items pool + {#p#}" by (simp add: pool_items_def)
    then have "p \<in># placed ex" by (simp add: placed_def)
    note pe = placed_enqueued [OF inv this]
    let ?t = "ex_heap ex p"
    let ?t' = "?t\<lparr>t_status := Running, t_start_time := Some now, t_attempts := t_attempts ?t + 1,
                  t_last_scheduled_time := Some now\<rparr>"
    have "execute_begin now ?t = Inr ?t'"
      using task_okD(1) [OF ex_invD(4) [OF inv pe(1)]] by (simp add: execute_begin_def)
    then have ex': "worker_take cas now w ex =
        set_worker w (Executing p) (on_ptr p (\<lambda>_. ?t') (on_start now p (ex\<lparr>ex_pool := pool\<rparr>)))"
      by (simp add: worker_take_def True step Let_def on_start_def monitored_def)
    have le: "unat (t_attempts ?t) \<le> unat (t_max_retries ?t)"
      by (rule ex_invD(8) [OF inv]) (simp add: items)
    have "t_max_retries ?t < UINT64_MAX" by (rule task_okD(6) [OF ex_invD(4) [OF inv pe(1)]])
    with le have "t_attempts ?t \<noteq> - 1" by (auto simp: UINT64_MAX_def word_less_nat_alt)
    then have "1 + t_attempts ?t \<noteq> 0" by (metis add.commute eq_neg_iff_add_eq_0)
    then have suc: "unat (t_attempts ?t + 1) = Suc (unat (t_attempts ?t))"
      using Word.unatSuc [of "t_attempts ?t"] by (simp add: add.commute)
    have "t_attempts ?t + 1 \<noteq> 0" using suc by auto
    then show ?thesis
      unfolding ex'
      using law pe(2) le suc \<open>p \<in># placed ex\<close> True
      by (intro evolves_worker [OF inv w, where p = p and m = "{#p#}" and t' = ?t' and st = "Executing p"])
        (simp_all add: items set_worker_def on_ptr_def on_task_def on_start_def Let_def monitored_def frame_def)
  qed
next
  case False
  then have "worker_take cas now w ex = ex" by (cases "ex_workers ex ! w") (simp_all add: worker_take_def)
  then show ?thesis by (simp add: evolves_refl [OF inv])
qed


text \<open>The success hook: the callback throws, and the worker goes to its handler, or the task is finished.\<close>

lemma success_throws:
  assumes inv: "ex_inv ex" and w: "w < length (ex_workers ex)"
    and st: "ex_workers ex ! w = Returned p result"
  shows "evolves (ex_ptrs ex) ex (set_worker w (Threw p e) ex)"
proof -
  let ?ex = "set_worker w (Threw p e) ex"
  have "Returned p result \<in> set (ex_workers ex)" using w st by (metis nth_mem)
  from ex_invD(9) [OF inv this] have ok: "worker_ok (ex_heap ex) (Threw p e)"
    by (simp add: terminal_def)
  have "placed ?ex = placed ex"
    using held_sum_update [OF w, of "Threw p e"] st by (simp add: placed_def set_worker_def)
  moreover have "worker_ok (ex_heap ex) st'" if "st' \<in> set ((ex_workers ex)[w := Threw p e])" for st'
    using that set_update_subset_insert [of "ex_workers ex" w "Threw p e"] ex_invD(9) [OF inv] ok by auto
  ultimately show ?thesis
    using ex_invD(1) [OF inv] by (intro evolves_static [OF inv]) (simp_all add: set_worker_def)
qed

lemma callback_cases:
  assumes "run_task_callback (ExecutorCallback tid p cb) result ex = (ex', r)"
  shows "\<exists>ex1. same_core ex ex1 \<and> (ex' = ex1 \<and> r \<noteq> None \<or>
    ex' = clear_if_alive p (on_graph (notify_task_completed tid) ex1) \<and> r = None)"
proof -
  let ?last = "\<lambda>ex. (clear_if_alive p (on_graph (notify_task_completed tid) ex), None)"
  obtain ex1 r1 where one: "run_submission_callback cb result ex = (ex1, r1)" by fastforce
  note core1 = run_submission_callback_core [OF one]
  obtain ex2 r2 where two: "fulfill_promise tid result ex1 = (ex2, r2)" by fastforce
  note core2 = same_core_trans [OF core1 fulfill_promise_core [OF two]]
  have "continue (ex1, r1) (\<lambda>ex. continue (fulfill_promise tid result ex) ?last) = (ex', r)"
    using assms by (simp add: run_task_callback_def one)
  from continue_cases [OF this] show ?thesis
  proof
    assume "r1 = None \<and> continue (fulfill_promise tid result ex1) ?last = (ex', r)"
    then have "continue (ex2, r2) ?last = (ex', r)" by (simp add: two)
    from continue_cases [OF this] core2 show ?thesis by blast
  qed (use core1 in blast)
qed

lemma run_task_callback_cases:
  assumes "run_task_callback (ExecutorCallback (t_id (ex_heap ex p)) p cb) result ex = (ex', r)"
    and "p \<in> ex_ptrs ex"
  shows "\<exists>ex1. same_core ex ex1 \<and> (ex' = ex1 \<and> r \<noteq> None \<or> ex' = finish_task p ex1 \<and> r = None)"
proof -
  have "clear_if_alive p (on_graph (notify_task_completed (t_id (ex_heap ex p))) ex1) = finish_task p ex1"
    if "same_core ex ex1" for ex1
    using that assms(2) by (simp add: same_core_def clear_if_alive_def finish_task_def on_graph_def image_iff)
  with callback_cases [OF assms(1)] show ?thesis by metis
qed

lemma same_core_ptrs: "same_core ex ex' \<Longrightarrow> ex_ptrs ex' = ex_ptrs ex"
  by (simp add: same_core_def)

lemma same_core_workers: "same_core ex ex' \<Longrightarrow> ex_workers ex' = ex_workers ex"
  by (simp add: same_core_def)

lemma same_core_heap: "same_core ex ex' \<Longrightarrow> ex_heap ex' = ex_heap ex"
  by (simp add: same_core_def)

text \<open>The success hook ends the task, or its callback throws and the failure hook is next.\<close>

lemma success_cases:
  assumes inv: "ex_inv ex" and w: "w < length (ex_workers ex)" and st: "ex_workers ex ! w = Returned p result"
  shows "\<exists>ex1. same_core ex ex1 \<and> (worker_success w ex = set_worker w LoopHead (finish_task p ex1) \<or>
    (\<exists>e. worker_success w ex = set_worker w (Threw p e) ex1))"
proof -
  have mem: "p \<in># placed ex" using held_placed [OF w] st by simp
  note pe = placed_enqueued [OF inv mem]
  let ?ex = "monitored (record_completion (execution_time (ex_heap ex p))) ex"
  have core0: "same_core ex ?ex" by simp
  obtain cb where cb: "t_callback (ex_heap ex p) = Some (ExecutorCallback (t_id (ex_heap ex p)) p cb)"
    using task_okD(7) [OF ex_invD(4) [OF inv pe(1)]] by blast
  obtain ex' r where run: "on_success p result ex = (ex', r)" by fastforce
  then have "run_task_callback (ExecutorCallback (t_id (ex_heap ?ex p)) p cb) result ?ex = (ex', r)"
    by (simp add: on_success_def invoke_callback_def cb same_core_heap [OF core0])
  from run_task_callback_cases [OF this] pe(1) obtain ex1 where core: "same_core ex ex1"
    and r: "ex' = ex1 \<and> r \<noteq> None \<or> ex' = finish_task p ex1 \<and> r = None"
    using same_core_trans [OF core0] by (auto simp: same_core_ptrs [OF core0])
  have "worker_success w ex = (case r of None \<Rightarrow> set_worker w LoopHead ex' | Some e \<Rightarrow> set_worker w (Threw p e) ex')"
    by (cases r) (simp_all add: worker_success_def st run)
  with core r show ?thesis by (cases r) auto
qed

lemma worker_success_evolves:
  assumes inv: "ex_inv ex" and w: "w < length (ex_workers ex)"
  shows "evolves (ex_ptrs ex) ex (worker_success w ex)"
proof (cases "ex_workers ex ! w")
  case (Returned p result)
  from success_cases [OF inv w this] obtain ex1 where core: "same_core ex ex1"
    and ends: "worker_success w ex = set_worker w LoopHead (finish_task p ex1) \<or>
      (\<exists>e. worker_success w ex = set_worker w (Threw p e) ex1)" by blast
  have inv1: "ex_inv ex1" using same_core_inv [OF core] inv by simp
  have w1: "w < length (ex_workers ex1)" "ex_workers ex1 ! w = Returned p result"
    using w Returned by (simp_all add: same_core_workers [OF core])
  have "Returned p result \<in> set (ex_workers ex1)" using w1 by (metis nth_mem)
  from ex_invD(9) [OF inv1 this] have over: "terminal (t_status (ex_heap ex1 p))" by (simp add: terminal_def)
  from ends have "evolves (ex_ptrs ex1) ex1 (worker_success w ex)"
    using evolves_finish [OF inv1 w1(1) _ over] success_throws [OF inv1 w1] w1(2) by auto
  then show ?thesis by (simp add: evolves_core [OF core] same_core_ptrs [OF core])
qed (simp_all add: worker_success_def evolves_refl [OF inv])

text \<open>The failure hook: a retry, a finished task, or an exception that ends the process.\<close>

lemma reset_evolves:
  assumes inv: "ex_inv ex" and w: "w < length (ex_workers ex)"
    and st: "ex_workers ex ! w = Threw p e" and retry: "can_retry (ex_heap ex p)"
  defines "ex' \<equiv> set_worker w LoopHead (on_ptr p reset_for_retry ex)"
  shows "evolves (ex_ptrs ex) ex ex'" "p \<in> ex_ptrs ex'" "is_ready (ex_heap ex' p)"
proof -
  let ?t = "ex_heap ex p"
  let ?t' = "reset_for_retry ?t"
  have mem: "p \<in># placed ex" using held_placed [OF w] st by simp
  note pe = placed_enqueued [OF inv mem]
  have t': "t_status ?t' = Pending" "\<not> t_enqueued ?t'" "t_attempts ?t' = t_attempts ?t"
    "t_dependencies_count ?t' = t_dependencies_count ?t" "frame ?t ?t'"
    by (simp_all add: reset_for_retry_def clear_enqueued_flag_def frame_def)
  have sel: "ex_pool ex' = ex_pool ex" "g_tasks (ex_graph ex') = g_tasks (ex_graph ex)"
    "ex_heap ex' = (ex_heap ex)(p := ?t')" "ex_workers ex' = (ex_workers ex)[w := LoopHead]"
    "ex_next_ptr ex' = ex_next_ptr ex" "ex_next_task_id ex' = ex_next_task_id ex"
    by (simp_all add: ex'_def set_worker_def on_ptr_def on_task_def)
  have ready: "t_dependencies_count ?t = 0"
    by (rule task_okD(3) [OF ex_invD(4) [OF inv pe(1)] pe(2)])
  show "p \<in> ex_ptrs ex'" using pe(1) by (simp add: sel(2))
  show "is_ready (ex_heap ex' p)" using t' ready by (simp add: is_ready_def sel(3))
  have "Threw p e \<in> set (ex_workers ex)" using w st by (metis nth_mem)
  from ex_invD(9) [OF inv this] have "t_attempts ?t \<noteq> 0" by simp
  from can_retry_iff [OF this] retry have le: "unat (t_attempts ?t) \<le> unat (t_max_retries ?t)" by simp
  have "placed ex' + {#p#} = placed ex"
    using held_sum_update [OF w, of LoopHead] st by (simp add: placed_def sel)
  then have cnt: "count (placed ex) q = count (placed ex') q + (if q = p then 1 else 0)" for q
    by (subst \<open>placed ex' + {#p#} = placed ex\<close> [symmetric], subst count_union) simp
  from cnt [of p] pe(3) have zero: "count (placed ex') p = 0" by simp
  have held_in_placed: "p \<in># placed ex'" if "st' \<in> set (ex_workers ex')" "p \<in># held st'" for st'
    using that unfolding placed_def union_iff in_sum_list_mset by blast
  show "evolves (ex_ptrs ex) ex ex'"
  proof (rule evolves_change [OF inv pe(1) sel(2,3) t'(5)])
    show "\<not> finished ?t" "\<not> finished ?t'" using pe(2) t'(1) by (simp_all add: finished_def terminal_def)
    show "count (placed ex') q \<le> count (placed ex) q" for q using cnt [of q] by simp
    show "count (placed ex') p \<le> (if t_enqueued ?t' then 1 else 0)" using zero by simp
    show "worker_ok (ex_heap ex') st'" if "st' \<in> set (ex_workers ex')" "p \<in># held st'" for st'
      using held_in_placed [OF that] zero by (simp only: flip: count_greater_zero_iff)
    show "st' \<in> set (ex_workers ex) \<or> held st' = {#}" if "st' \<in> set (ex_workers ex')" for st'
      using that set_update_subset_insert [of "ex_workers ex" w LoopHead] by (auto simp: sel)
  qed (use t' le ready ex_invD(1) [OF inv] in \<open>simp_all add: sel\<close>)
qed

lemma mark_and_submit_set_worker:
  assumes "mark_and_submit cas p ex = (ex', r)"
  shows "mark_and_submit cas p (set_worker w st ex) = (set_worker w st ex', r)"
  using assms
  by (auto simp: mark_and_submit_def submit_to_pool_def try_mark_enqueued_def set_worker_def on_ptr_def
      split: if_splits outcome.splits)

lemma retry_evolves:
  assumes inv: "ex_inv ex" and w: "w < length (ex_workers ex)"
    and st: "ex_workers ex ! w = Threw p e" and retry: "can_retry (ex_heap ex p)"
    and step: "mark_and_submit cas p (on_ptr p reset_for_retry ex) = (ex', Return ())"
  shows "evolves (ex_ptrs ex) ex (set_worker w LoopHead ex')"
proof -
  note reset = reset_evolves [OF inv w st retry]
  note two = mark_and_submit_evolves [OF evolves_inv [OF reset(1)] reset(2,3) mark_and_submit_set_worker [OF step]]
  show ?thesis using evolves_trans [OF reset(1) evolves_mono [OF two evolves_ptrs [OF reset(1)]]] .
qed

lemma handle_failure_cases:
  assumes "handle_failure cas p e ex = (ex', r)"
  shows "(can_retry (ex_heap ex p) \<and>
      mark_and_submit cas p (on_ptr p reset_for_retry (monitored record_retry ex)) = (ex', r)) \<or>
    (\<not> can_retry (ex_heap ex p) \<and>
      (r \<noteq> Return () \<or> (\<exists>ex1. same_core ex ex1 \<and> ex' = finish_task p ex1)))"
proof (cases "can_retry (ex_heap ex p)")
  case True
  then show ?thesis using assms by (simp add: handle_failure_def)
next
  case False
  obtain ex1 r1 where fail: "fail_promise (t_id (ex_heap ex p)) e ex = (ex1, r1)" by fastforce
  note core = fail_promise_core [OF fail]
  have "ex' = finish_task p ex1" if "r1 = None"
    using assms False fail that same_core_heap [OF core]
    by (simp add: handle_failure_def Let_def finish_task_def)
  moreover have "r \<noteq> Return ()" if "r1 \<noteq> None"
    using assms False fail that by (auto simp: handle_failure_def Let_def)
  ultimately show ?thesis using False core by blast
qed

lemma failure_cases:
  assumes st: "ex_workers ex ! w = Threw p e" and live: "\<not> ex_terminated (worker_failure cas w ex)"
  shows "\<exists>ex1 ex'. same_core ex ex1 \<and> worker_failure cas w ex = set_worker w LoopHead ex' \<and>
    (can_retry (ex_heap ex1 p) \<and> mark_and_submit cas p (on_ptr p reset_for_retry ex1) = (ex', Return ()) \<or>
     ex' = finish_task p ex1)"
proof -
  let ?ex = "monitored record_failure ex"
  have core0: "same_core ex ?ex" by simp
  obtain ex' r where run: "on_failure cas p e ex = (ex', r)" by fastforce
  then have "worker_failure cas w ex =
      (case r of Return () \<Rightarrow> set_worker w LoopHead ex' | _ \<Rightarrow> ex'\<lparr>ex_terminated := True\<rparr>)"
    by (simp add: worker_failure_def st split: outcome.splits unit.splits)
  with live have r: "r = Return ()" and ends: "worker_failure cas w ex = set_worker w LoopHead ex'"
    by (cases r; simp split: unit.splits)+
  from run r have "handle_failure cas p e ?ex = (ex', Return ())" by (simp add: on_failure_def)
  from handle_failure_cases [OF this] show ?thesis
  proof
    let ?ex2 = "monitored record_retry ?ex"
    assume "can_retry (ex_heap ?ex p) \<and>
      mark_and_submit cas p (on_ptr p reset_for_retry ?ex2) = (ex', Return ())"
    moreover have "same_core ex ?ex2" using same_core_trans [OF core0] by simp
    ultimately show ?thesis using ends by (intro exI [of _ ?ex2] exI [of _ ex']) (simp add: monitored_def)
  next
    assume "\<not> can_retry (ex_heap ?ex p) \<and> (Return () \<noteq> Return () \<or>
      (\<exists>ex1. same_core ?ex ex1 \<and> ex' = finish_task p ex1))"
    then show ?thesis using same_core_trans [OF core0] ends by blast
  qed
qed

lemma worker_failure_evolves:
  assumes inv: "ex_inv ex" and w: "w < length (ex_workers ex)"
  shows "ex_terminated (worker_failure cas w ex) \<or> evolves (ex_ptrs ex) ex (worker_failure cas w ex)"
proof (cases "ex_workers ex ! w")
  case (Threw p e)
  show ?thesis
  proof (cases "ex_terminated (worker_failure cas w ex)")
    case False
    from failure_cases [OF Threw False] obtain ex1 ex' where core: "same_core ex ex1"
      and res: "worker_failure cas w ex = set_worker w LoopHead ex'"
      and ends: "can_retry (ex_heap ex1 p) \<and> mark_and_submit cas p (on_ptr p reset_for_retry ex1) = (ex', Return ()) \<or>
        ex' = finish_task p ex1" by blast
    have inv1: "ex_inv ex1" using same_core_inv [OF core] inv by simp
    have w1: "w < length (ex_workers ex1)" "ex_workers ex1 ! w = Threw p e"
      using w Threw by (simp_all add: same_core_workers [OF core])
    have "Threw p e \<in> set (ex_workers ex1)" using w1 by (metis nth_mem)
    from ex_invD(9) [OF inv1 this] have "terminal (t_status (ex_heap ex1 p))" by simp
    from evolves_finish [OF inv1 w1(1) _ this] w1(2) ends
    have "evolves (ex_ptrs ex1) ex1 (set_worker w LoopHead ex')" using retry_evolves [OF inv1 w1, of cas ex'] by auto
    then show ?thesis by (simp add: res evolves_core [OF core] same_core_ptrs [OF core])
  qed simp
qed (simp_all add: worker_failure_def evolves_refl [OF inv])

subsection \<open>Runs\<close>

datatype ex_event =
    ESubmit cas3 time "nat \<Rightarrow> exn + any" string submission
  | ESubmitAsync cas3 time "nat \<Rightarrow> exn + any" string "task_id list" task_options "user_callback option"
  | ECancel task_id
  | EStart | EStop | EPause | EResume
  | EScheduler "task_ptr \<Rightarrow> cas3"
  | ERound bool bool nat
  | ELoopHead nat
  | EPauseCheck nat
  | ETake "nat \<Rightarrow> nat \<Rightarrow> bool" time nat
  | EExecute exec_clock nat
  | ESuccess nat
  | EFailure cas3 nat
  | EWake nat

fun ex_apply :: "ex_event \<Rightarrow> executor \<Rightarrow> executor" where
  "ex_apply (ESubmit cas now func name sub) ex = fst (submit_internal cas now func name sub None ex)"
| "ex_apply (ESubmitAsync cas now func name deps opts user) ex =
     fst (submit_async cas now func name deps opts user ex)"
| "ex_apply (ECancel tid) ex = fst (executor_cancel tid ex)"
| "ex_apply EStart ex = executor_start ex"
| "ex_apply EStop ex = executor_stop ex"
| "ex_apply EPause ex = ex\<lparr>ex_pool := pool_pause (ex_pool ex)\<rparr>"
| "ex_apply EResume ex = ex\<lparr>ex_pool := pool_resume (ex_pool ex)\<rparr>"
| "ex_apply (EScheduler cas) ex = scheduler_round cas ex"
| "ex_apply (ERound c cw k) ex = ex\<lparr>ex_pool := waiting_round c cw k (ex_pool ex)\<rparr>"
| "ex_apply (ELoopHead w) ex = worker_loop_head w ex"
| "ex_apply (EPauseCheck w) ex = worker_pause_check w ex"
| "ex_apply (ETake cas now w) ex = worker_take cas now w ex"
| "ex_apply (EExecute c w) ex = worker_execute c w ex"
| "ex_apply (ESuccess w) ex = worker_success w ex"
| "ex_apply (EFailure cas w) ex = worker_failure cas w ex"
| "ex_apply (EWake w) ex = worker_wake w ex"

text \<open>The events of the runs considered: no cancellation, no wrap-around of ids or attempts.\<close>

fun event_ok :: "executor \<Rightarrow> ex_event \<Rightarrow> bool" where
  "event_ok ex (ESubmit cas now func name sub) \<longleftrightarrow>
     ex_next_task_id ex \<noteq> UINT64_MAX \<and> opt_max_retries (sub_options sub) < UINT64_MAX"
| "event_ok ex (ESubmitAsync cas now func name deps opts user) \<longleftrightarrow>
     ex_next_task_id ex \<noteq> UINT64_MAX \<and> opt_max_retries opts < UINT64_MAX"
| "event_ok ex (ECancel tid) \<longleftrightarrow> False"
| "event_ok ex (ELoopHead w) \<longleftrightarrow> w < length (ex_workers ex)"
| "event_ok ex (EPauseCheck w) \<longleftrightarrow> w < length (ex_workers ex)"
| "event_ok ex (ETake cas now w) \<longleftrightarrow> w < length (ex_workers ex)"
| "event_ok ex (EExecute c w) \<longleftrightarrow> w < length (ex_workers ex)"
| "event_ok ex (ESuccess w) \<longleftrightarrow> w < length (ex_workers ex)"
| "event_ok ex (EFailure cas w) \<longleftrightarrow> w < length (ex_workers ex)"
| "event_ok ex (EWake w) \<longleftrightarrow> w < length (ex_workers ex)"
| "event_ok ex e \<longleftrightarrow> True"

inductive ex_reach :: "executor \<Rightarrow> executor \<Rightarrow> bool" for ex0 :: executor where
  refl: "ex_reach ex0 ex0"
| step: "ex_reach ex0 ex \<Longrightarrow> \<not> ex_terminated ex \<Longrightarrow> event_ok ex e \<Longrightarrow> ex_reach ex0 (ex_apply e ex)"

text \<open>A step that moves one worker between places where it holds nothing.\<close>

lemma idle_move:
  assumes inv: "ex_inv ex" and w: "w < length (ex_workers ex)"
    and "held (ex_workers ex ! w) = {#}" and "held st = {#}"
  shows "evolves (ex_ptrs ex) ex (set_worker w st ex)"
proof -
  have "placed (set_worker w st ex) = placed ex"
    using held_sum_update [OF w, of st] assms(3,4) by (simp add: placed_def set_worker_def)
  moreover have "worker_ok (ex_heap ex) st" using assms(4) by (cases st) simp_all
  then have "worker_ok (ex_heap ex) st'" if "st' \<in> set ((ex_workers ex)[w := st])" for st'
    using that set_update_subset_insert [of "ex_workers ex" w st] ex_invD(9) [OF inv] by auto
  ultimately show ?thesis
    using ex_invD(1) [OF inv] by (intro evolves_static [OF inv]) (simp_all add: set_worker_def)
qed

lemma pool_only:
  assumes inv: "ex_inv ex" and "ex' = ex\<lparr>ex_pool := pool, ex_scheduler_running := b\<rparr>"
    and "pool_inv pool" and "pl_num_threads pool = pl_num_threads (ex_pool ex)"
    and "pool_items pool \<subseteq># pool_items (ex_pool ex)"
  shows "evolves (ex_ptrs ex) ex ex'"
  using assms(3-5) ex_invD(9) [OF inv] unfolding assms(2)
  by (intro evolves_static [OF inv]) (simp_all add: placed_def)

lemma ex_apply_evolves:
  assumes inv: "ex_inv ex" and ok: "event_ok ex e"
  shows "ex_terminated (ex_apply e ex) \<or> evolves (ex_ptrs ex) ex (ex_apply e ex)"
proof -
  note pinv = ex_invD(1) [OF inv]
  show ?thesis
  proof (cases e)
    case (ESubmit cas now func name sub)
    obtain ex' r where run: "submit_internal cas now func name sub None ex = (ex', r)" by fastforce
    have "evolves (ex_ptrs ex) ex ex'"
      using ok ESubmit by (intro submit_internal_evolves [OF inv _ _ run]) simp_all
    then show ?thesis by (simp add: ESubmit run)
  next
    case (ESubmitAsync cas now func name deps opts user)
    obtain ex' r where run: "submit_async cas now func name deps opts user ex = (ex', r)" by fastforce
    have "evolves (ex_ptrs ex) ex ex'"
      using ok ESubmitAsync by (intro submit_async_evolves [OF inv _ _ run]) simp_all
    then show ?thesis by (simp add: ESubmitAsync run)
  next
    case EStart
    have "evolves (ex_ptrs ex) ex (executor_start ex)"
      by (rule pool_only [OF inv, where pool = "ex_pool ex" and b = True])
        (simp_all add: executor_start_def pinv)
    then show ?thesis by (simp add: EStart)
  next
    case EStop
    have "evolves (ex_ptrs ex) ex (executor_stop ex)"
      by (rule pool_only [OF inv, where pool = "pool_shutdown (ex_pool ex)" and b = False])
        (simp_all add: executor_stop_def pool_shutdown_def pinv pool_items_def)
    then show ?thesis by (simp add: EStop)
  next
    case EPause
    have "evolves (ex_ptrs ex) ex (ex_apply EPause ex)"
      by (rule pool_only [OF inv, where pool = "pool_pause (ex_pool ex)" and b = "ex_scheduler_running ex"])
        (use pinv in \<open>simp_all add: pool_pause_def pool_items_def pool_inv_def queued_items_def\<close>)
    then show ?thesis by (simp add: EPause)
  next
    case EResume
    have "evolves (ex_ptrs ex) ex (ex_apply EResume ex)"
      by (rule pool_only [OF inv, where pool = "pool_resume (ex_pool ex)" and b = "ex_scheduler_running ex"])
        (use pinv in \<open>simp_all add: pool_resume_def pool_items_def pool_inv_def queued_items_def\<close>)
    then show ?thesis by (simp add: EResume)
  next
    case (EScheduler cas)
    then show ?thesis using scheduler_round_evolves [OF inv] by simp
  next
    case (ERound c cw k)
    have "evolves (ex_ptrs ex) ex (ex_apply (ERound c cw k) ex)"
      using waiting_round_law [OF pinv, of c cw k]
      by (intro pool_only [OF inv, where pool = "waiting_round c cw k (ex_pool ex)" and b = "ex_scheduler_running ex"])
        simp_all
    then show ?thesis by (simp add: ERound)
  next
    case (ELoopHead w)
    then show ?thesis
      using ok idle_move [OF inv, of w] evolves_refl [OF inv]
      by (cases "ex_workers ex ! w") (simp_all add: worker_loop_head_def)
  next
    case (EPauseCheck w)
    then show ?thesis
      using ok idle_move [OF inv, of w] evolves_refl [OF inv]
      by (cases "ex_workers ex ! w") (simp_all add: worker_pause_check_def)
  next
    case (EWake w)
    then show ?thesis
      using ok idle_move [OF inv, of w] evolves_refl [OF inv]
      by (cases "ex_workers ex ! w") (simp_all add: worker_wake_def)
  qed (use ok worker_take_evolves [OF inv] worker_execute_evolves [OF inv] worker_success_evolves [OF inv]
      worker_failure_evolves [OF inv] in auto)
qed

lemma ex_reach_evolves:
  assumes "ex_reach ex0 ex" and "ex_inv ex0"
  shows "ex_terminated ex \<or> evolves (ex_ptrs ex0) ex0 ex"
  using assms(1)
proof (induction rule: ex_reach.induct)
  case refl
  then show ?case using assms(2) by (simp add: evolves_refl)
next
  case (step ex e)
  then have one: "evolves (ex_ptrs ex0) ex0 ex" by simp
  from ex_apply_evolves [OF evolves_inv [OF one] step.hyps(3)] show ?case
    using one evolves_mono [OF _ evolves_ptrs [OF one]] evolves_trans by blast
qed

lemma start_inv:
  assumes "pool_inv p" and "pool_items p = {#}"
  shows "ex_inv (executor_on_pool p m)"
  using assms
  by (simp add: ex_inv_def executor_on_pool_def empty_graph_def graph_wf_def edges_ok_def placed_def)


lemma reachable_inv:
  assumes "pool_inv p" and "pool_items p = {#}" and "ex_reach (executor_on_pool p m) ex"
    and "\<not> ex_terminated ex"
  shows "ex_inv ex"
  using ex_reach_evolves [OF assms(3) start_inv [OF assms(1,2)]] assms(4) evolves_inv by blast

subsection \<open>Properties of reachable states\<close>

text \<open>A run given as a list of events.\<close>

fun run_ok :: "ex_event list \<Rightarrow> executor \<Rightarrow> bool" where
  "run_ok [] ex \<longleftrightarrow> True"
| "run_ok (e # es) ex \<longleftrightarrow> \<not> ex_terminated ex \<and> event_ok ex e \<and> run_ok es (ex_apply e ex)"

lemma reach_run: "ex_reach ex0 ex \<Longrightarrow> run_ok es ex \<Longrightarrow> ex_reach ex0 (fold ex_apply es ex)"
  by (induction es arbitrary: ex) (auto intro: ex_reach.step)

text \<open>The run of the witnesses: two tasks, the second after the first, on a pool of two workers.\<close>

definition plain_submission :: "task_id list \<Rightarrow> submission" where
  "plain_submission deps =
     \<lparr>sub_dependencies = deps, sub_options = default_options, sub_callback = NoCallback\<rparr>"

definition demo_clock :: exec_clock where
  "demo_clock = \<lparr>c_start = 1, c_check = 2, c_finish = 3, c_catch = 4\<rparr>"

definition always :: cas3 where "always = (True, True, True)"

definition demo_start :: executor where
  "demo_start = executor_on_pool pool2 (Some zero_metrics)"

definition demo_run :: "ex_event list" where
  "demo_run =
     [ESubmit always 0 (\<lambda>_. Inr AnyEmpty) ''first'' (plain_submission []),
      ESubmit always 0 (\<lambda>_. Inr AnyEmpty) ''second'' (plain_submission [1]),
      EStart, ELoopHead 0, EPauseCheck 0, ETake (\<lambda>_ _. True) 1 0, EExecute demo_clock 0,
      ESuccess 0, EScheduler (\<lambda>_. always)]"

definition demo_end :: executor where
  "demo_end = fold ex_apply demo_run demo_start"

lemma demo_reach: "ex_reach (executor_on_pool pool2 (Some zero_metrics)) demo_end"
  unfolding demo_end_def
proof (rule reach_run)
  show "ex_reach (executor_on_pool pool2 (Some zero_metrics)) demo_start"
    unfolding demo_start_def by (rule ex_reach.refl)
  show "run_ok demo_run demo_start" by code_simp
qed

lemma demo_pool: "pool_inv pool2" "pool_items pool2 = {#}"
  using pool2_inv pool2_items by (simp_all add: pool_items_def pool2_def)

lemma demo_facts: "\<not> ex_terminated demo_end" "1 \<in># placed demo_end"
  "0 \<in> set (t_dependencies (ex_heap demo_end 1))"
  "1 \<in> ex_ptrs demo_end"
  "get_task 1 (ex_graph demo_end) = Some 0" "finished (ex_heap demo_end 0)"
  "ex_next_task_id demo_end \<noteq> UINT64_MAX"
  by code_simp+





subsection \<open>A dependency that has already finished\<close>

lemma add_dependencies_slack:
  fixes deps :: "task_id list"
  assumes "map_of (g_tasks (ex_graph ex)) tid = Some p"
  defines "ex' \<equiv> add_dependencies tid deps ex"
  shows "slack (ex_heap ex) p \<le> slack (ex_heap ex') p \<and>
    (j \<in> set deps \<and> map_of (g_tasks (ex_graph ex)) j = Some d \<and> finished (ex_heap ex d) \<longrightarrow>
      slack (ex_heap ex) p < slack (ex_heap ex') p)"
  using assms(1) unfolding ex'_def
proof (induction deps arbitrary: ex)
  case Nil
  then show ?case by (simp add: add_dependencies_def)
next
  case (Cons i deps)
  let ?ex = "on_graph (graph_add_dependency tid i) ex"
  have tasks: "g_tasks (ex_graph ?ex) = g_tasks (ex_graph ex)"
    by (simp add: on_graph_def graph_add_dependency_def split: option.splits)
  have run: "add_dependencies tid (i # deps) ex = add_dependencies tid deps ?ex"
    by (simp add: add_dependencies_def)
  note IH = Cons.IH [of ?ex, unfolded tasks, OF Cons.prems]
  show ?case
  proof (cases "map_of (g_tasks (ex_graph ex)) i")
    case None
    then have "?ex = ex" by (simp add: on_graph_def graph_add_dependency_def Cons.prems)
    with IH None show ?thesis unfolding run by auto
  next
    case (Some e)
    then have heap: "ex_heap ?ex = task_add_dependency p e (ex_heap ex)"
      by (simp add: on_graph_def graph_add_dependency_def Cons.prems)
    have fin: "finished (ex_heap ?ex d) = finished (ex_heap ex d)"
      unfolding heap by (rule add_dep_heap(6))
    have "slack (ex_heap ?ex) p = slack (ex_heap ex) p + (if finished (ex_heap ex e) then 1 else 0)"
      unfolding heap using add_dep_heap(8) [of p e "ex_heap ex" p] by simp
    with IH fin Some show ?thesis unfolding run by (auto split: if_splits)
  qed
qed

text \<open>A task whose count is higher than the number of its unfinished dependencies has not run, is not
  placed, and no wait for completion returns.\<close>

lemma excess_count_waits:
  assumes inv: "ex_inv ex" and p: "p \<in> ex_ptrs ex" and pos: "0 < slack (ex_heap ex) p"
  shows "t_attempts (ex_heap ex p) = 0 \<and> p \<notin># placed ex \<and> wait_for_completion ex = Block"
proof -
  note ok = ex_invD(4) [OF inv p]
  have cnt: "0 < t_dependencies_count (ex_heap ex p)" using pos by (simp add: slack_def)
  with task_okD(3) [OF ok] have "\<not> t_enqueued (ex_heap ex p)" by auto
  moreover from task_okD(4) [OF ok this] cnt
  have st: "t_status (ex_heap ex p) = Pending \<or> t_status (ex_heap ex p) = Ready"
    "t_attempts (ex_heap ex p) = 0" by auto
  moreover have "\<not> all_completed (ex_graph ex)"
    unfolding all_completed_def Let_def using p st(1) by force
  ultimately show ?thesis
    using placed_enqueued(2) [OF inv, of p] by (auto simp: wait_for_completion_def)
qed

lemma late_dependency_counts:
  assumes inv: "ex_inv ex" and dep: "get_task j (ex_graph ex) = Some d" "finished (ex_heap ex d)"
    "j \<in> set (sub_dependencies sub)"
    and ids: "ex_next_task_id ex \<noteq> UINT64_MAX" "opt_max_retries (sub_options sub) < UINT64_MAX"
    and step: "submit_internal cas now func name sub promise ex = (ex1, r)"
  shows "ex_inv ex1 \<and> ex_next_ptr ex \<in> ex_ptrs ex1 \<and> 0 < slack (ex_heap ex1) (ex_next_ptr ex)"
proof -
  let ?p = "ex_next_ptr ex"
  define exc where "exc = create_task now func name sub promise ex"
  define exd where "exd = add_dependencies (ex_next_task_id ex) (sub_dependencies sub) exc"
  note one = create_evolves(1-4,6) [where now = now and func = func and name = name and promise = promise,
      OF inv ids, folded exc_def]
  note invc = evolves_inv [OF one(1)] and new = map_of_wf(1) [OF ex_invD(3) [OF evolves_inv [OF one(1)]] one(2)]
  have "j \<noteq> ex_next_task_id ex" "d \<noteq> ?p"
    using ex_invD(5,6) [OF inv, of d] map_of_wf [OF ex_invD(3) [OF inv] dep(1) [unfolded get_task_def]] by auto
  then have "map_of (g_tasks (ex_graph exc)) j = Some d \<and> finished (ex_heap exc d)"
    using dep by (simp add: exc_def create_task_sel get_task_def map_of_update)
  with add_dependencies_slack [OF one(2), of "sub_dependencies sub" j d] dep(3)
    task_okD(2) [OF ex_invD(4) [OF invc new]]
  have pos: "0 < slack (ex_heap exd) ?p" by (simp add: exd_def)
  obtain r' where "enqueue_if_ready cas ?p exd = (ex1, r')"
    using submit_internal_steps [OF step] by (auto simp: exc_def exd_def)
  moreover have "\<not> is_ready (ex_heap exd ?p)" using pos by (auto simp: is_ready_def slack_def)
  ultimately have "ex1 = exd" by (simp add: enqueue_if_ready_def)
  moreover have "evolves (ex_ptrs exc - {?p}) exc exd \<and> g_tasks (ex_graph exd) = g_tasks (ex_graph exc)"
    using add_dependencies_evolves [OF invc one(2-5)] by (simp add: exd_def)
  ultimately show ?thesis using pos new evolves_inv by auto
qed

text \<open>A task submitted with a dependency that has already finished never runs: in every state
  reachable afterwards it has not been attempted and is in no queue, and \<open>wait_for_completion\<close> goes on
  waiting.\<close>

theorem late_dependency_never_runs:
  assumes "pool_inv p" and "pool_items p = {#}" and "ex_reach (executor_on_pool p m) ex"
    and "\<not> ex_terminated ex"
    and "get_task j (ex_graph ex) = Some d" and "finished (ex_heap ex d)"
    and "j \<in> set (sub_dependencies sub)"
    and "ex_next_task_id ex \<noteq> UINT64_MAX" and "opt_max_retries (sub_options sub) < UINT64_MAX"
    and "submit_internal cas now func name sub None ex = (ex1, r)"
    and "ex_reach ex1 ex'" and "\<not> ex_terminated ex'"
  shows "t_attempts (ex_heap ex' (ex_next_ptr ex)) = 0 \<and> ex_next_ptr ex \<notin># placed ex' \<and>
    wait_for_completion ex' = Block"
proof -
  note one = late_dependency_counts [OF reachable_inv [OF assms(1-4)] assms(5-10)]
  with ex_reach_evolves [OF assms(11)] assms(12) have ev: "evolves (ex_ptrs ex1) ex1 ex'" by blast
  with one have "ex_next_ptr ex \<in> ex_ptrs ex'" "0 < slack (ex_heap ex') (ex_next_ptr ex)"
    unfolding evolves_def by metis+
  then show ?thesis by (rule excess_count_waits [OF evolves_inv [OF ev]])
qed

theorem late_dependency_never_runs_witness:
  "\<exists>ex1 r. submit_internal always 9 (\<lambda>_. Inr AnyEmpty) ''late'' (plain_submission [1]) None demo_end = (ex1, r) \<and>
    \<not> ex_terminated ex1 \<and> wait_for_completion ex1 = Block"
proof -
  obtain ex1 r where run: "submit_internal always 9 (\<lambda>_. Inr AnyEmpty) ''late'' (plain_submission [1]) None
      demo_end = (ex1, r)" by fastforce
  moreover have "\<not> ex_terminated (fst (submit_internal always 9 (\<lambda>_. Inr AnyEmpty) ''late''
      (plain_submission [1]) None demo_end))" by code_simp
  ultimately have live: "\<not> ex_terminated ex1" by simp
  have "1 \<in> set (sub_dependencies (plain_submission [1]))"
    "opt_max_retries (sub_options (plain_submission [1])) < UINT64_MAX" by code_simp+
  from late_dependency_never_runs [OF demo_pool demo_reach demo_facts(1,5,6) this(1) demo_facts(7) this(2)
      run ex_reach.refl live] run live
  show ?thesis by blast
qed

subsection \<open>The scheduler misses nothing\<close>

lemma mark_and_submit_ready:
  assumes inv: "pool_inv (ex_pool ex)" and "is_ready (ex_heap ex p)"
    and step: "mark_and_submit cas p ex = (ex', Return ())"
  shows "t_enqueued (ex_heap ex' p) \<and> placed ex' = add_mset p (placed ex) \<and>
    g_tasks (ex_graph ex') = g_tasks (ex_graph ex)"
proof -
  let ?t = "(ex_heap ex p)\<lparr>t_enqueued := True\<rparr>"
  have "try_mark_enqueued (ex_heap ex p) = (?t, True)"
    using assms(2) by (simp add: try_mark_enqueued_def is_ready_def)
  with step have sub: "submit_to_pool cas p (on_ptr p (\<lambda>_. ?t) ex) = (ex', Return ())"
    by (simp add: mark_and_submit_def)
  have "pool_inv (ex_pool (on_ptr p (\<lambda>_. ?t) ex))" using inv by (simp add: on_ptr_def)
  from submit_to_pool_law [OF this sub] obtain pool where
    "pool_items pool = pool_items (ex_pool ex) + {#p#}" "ex' = (on_ptr p (\<lambda>_. ?t) ex)\<lparr>ex_pool := pool\<rparr>"
    by (auto simp: on_ptr_def)
  then show ?thesis by (simp add: on_ptr_def placed_def)
qed

lemma submit_all_complete:
  assumes "ex_inv ex" and "distinct ps" and "set ps \<subseteq> ex_ptrs ex"
    and "\<forall>p \<in> set ps. is_ready (ex_heap ex p)" and "\<not> ex_terminated (submit_all cas ps ex)"
  shows "(\<forall>p \<in> set ps. t_enqueued (ex_heap (submit_all cas ps ex) p)) \<and>
    (\<forall>q. q \<notin> set ps \<longrightarrow> ex_heap (submit_all cas ps ex) q = ex_heap ex q) \<and>
    placed (submit_all cas ps ex) = placed ex + mset ps \<and>
    g_tasks (ex_graph (submit_all cas ps ex)) = g_tasks (ex_graph ex)"
  using assms
proof (induction ps arbitrary: ex)
  case Nil
  then show ?case by simp
next
  case (Cons p ps)
  obtain ex1 r where step: "mark_and_submit (cas p) p ex = (ex1, r)" by fastforce
  have r: "r = Return ()" using Cons.prems(5) by (cases r) (simp_all add: step)
  have run: "submit_all cas (p # ps) ex = submit_all cas ps ex1" by (simp add: step r split: unit.splits)
  have one: "evolves (ex_ptrs ex) ex ex1"
    using Cons.prems by (intro mark_and_submit_evolves [OF _ _ _ step]) auto
  have ready: "is_ready (ex_heap ex p)" using Cons.prems(4) by simp
  note law = mark_and_submit_ready [OF ex_invD(1) [OF Cons.prems(1)] ready step [unfolded r]]
  have other: "ex_heap ex1 q = ex_heap ex q" if "q \<noteq> p" for q by (rule mark_and_submit_frame [OF step that])
  have dist: "p \<notin> set ps" "distinct ps" using Cons.prems(2) by simp_all
  have "is_ready (ex_heap ex1 q)" if "q \<in> set ps" for q
  proof -
    have "q \<noteq> p" using that dist by blast
    with other [OF this] that Cons.prems(4) show ?thesis by simp
  qed
  moreover have "set ps \<subseteq> ex_ptrs ex1" using Cons.prems(3) law by simp
  ultimately have IH: "(\<forall>p \<in> set ps. t_enqueued (ex_heap (submit_all cas ps ex1) p)) \<and>
    (\<forall>q. q \<notin> set ps \<longrightarrow> ex_heap (submit_all cas ps ex1) q = ex_heap ex1 q) \<and>
    placed (submit_all cas ps ex1) = placed ex1 + mset ps \<and>
    g_tasks (ex_graph (submit_all cas ps ex1)) = g_tasks (ex_graph ex1)"
    using Cons.prems(5) unfolding run
    by (intro Cons.IH [OF evolves_inv [OF one] dist(2)]) blast+
  show ?case unfolding run using IH law other dist by auto
qed


text \<open>The run of the witnesses up to the last round of the scheduler.\<close>

definition demo_before :: executor where
  "demo_before = fold ex_apply (butlast demo_run) demo_start"


subsection \<open>Asynchronous submission and cancellation\<close>



definition async_demo :: executor where
  "async_demo = fold ex_apply
     [ESubmitAsync always 0 (\<lambda>_. Inr AnyEmpty) ''async'' [] default_options None,
      ELoopHead 0, EPauseCheck 0, ETake (\<lambda>_ _. True) 1 0, EExecute demo_clock 0] demo_start"

lemma async_demo_callback: "t_callback (ex_heap async_demo 0) = Some (ExecutorCallback 1 0 (AsyncCallback 0 None))"
proof -
  have "(case t_callback (ex_heap async_demo 0) of
      Some (ExecutorCallback tid p (AsyncCallback pr None)) \<Rightarrow> tid = 1 \<and> p = 0 \<and> pr = 0 | _ \<Rightarrow> False)"
    by code_simp
  then show ?thesis
    by (simp split: option.splits task_callback.splits submission_callback.splits)
qed


text \<open>Cancelling a task without a promise, and what a worker does that finds the task later.\<close>

definition cancelled_task :: "task_ptr \<Rightarrow> executor \<Rightarrow> executor" where
  "cancelled_task p ex = monitored record_cancellation
     (on_ptr p (\<lambda>t. t\<lparr>t_cancelled := True, t_status := Cancelled\<rparr>) ex)"

lemma cancel_finishes:
  assumes "graph_wf (ex_graph ex)" and "get_task tid (ex_graph ex) = Some p"
    and "\<not> t_cancelled (ex_heap ex p)" and "ex_task_promises ex tid = None"
  shows "fst (executor_cancel tid ex) = finish_task p (cancelled_task p ex)"
  using assms map_of_wf(2) [OF assms(1) assms(2) [unfolded get_task_def]]
  by (simp add: executor_cancel_def task_cancel_def fail_promise_def finish_task_def cancelled_task_def
      monitored_def on_ptr_def on_task_def)

lemma worker_finishes_cancelled:
  assumes wf: "graph_wf (ex_graph ex)" and p: "p \<in> ex_ptrs ex"
    and cancelled: "t_cancelled (ex_heap ex p)" and promise: "ex_task_promises ex (t_id (ex_heap ex p)) = None"
    and w: "w < length (ex_workers ex)" "ex_workers ex ! w = Searching"
    and found: "find_task fc (ex_pool ex) w = (pool, Some p)"
    and q: "q \<in> ex_ptrs ex" "q \<noteq> p"
  shows "ex_heap (worker_failure cas w (worker_take fc now w ex)) q =
    (notify_dependency_completed ^^ count_list (t_dependencies (ex_heap ex q)) p) (ex_heap ex q)"
proof -
  let ?t = "(ex_heap ex p)\<lparr>t_status := Cancelled\<rparr>" and ?e = "RuntimeError ''Task cancelled prior to execution''"
  define ex2 where "ex2 = worker_take fc now w ex"
  have ex2: "ex2 = set_worker w (Threw p ?e) (on_ptr p (\<lambda>_. ?t) (on_start now p (ex\<lparr>ex_pool := pool\<rparr>)))"
    using w(2) found cancelled
    by (simp add: ex2_def worker_take_def Let_def execute_begin_def on_start_def monitored_def)
  define exf where "exf = monitored record_failure ex2"
  have sel: "ex_workers ex2 ! w = Threw p ?e" "ex_ptrs exf = ex_ptrs ex"
    "ex_task_promises exf = ex_task_promises ex" "ex_heap exf = (ex_heap ex)(p := ?t)"
    using w(1) by (simp_all add: exf_def ex2 set_worker_def on_ptr_def on_start_def monitored_def Let_def on_task_def)
  have wf': "graph_wf (ex_graph exf)"
    by (rule graph_wf_cong [OF wf]) (auto simp: exf_def ex2 set_worker_def on_ptr_def
        on_start_def monitored_def Let_def on_task_def)
  have "\<not> can_retry (ex_heap exf p)" using cancelled by (simp add: can_retry_def sel)
  then have "handle_failure cas p ?e exf = (finish_task p exf, Return ())"
    using promise by (simp add: handle_failure_def Let_def fail_promise_def finish_task_def sel(3,4))
  then have "worker_failure cas w ex2 = set_worker w LoopHead (finish_task p exf)"
    by (simp add: worker_failure_def sel(1) on_failure_def exf_def split: unit.splits)
  then show ?thesis
    using finish_task_heap [OF wf', of p q] p q by (simp add: ex2_def [symmetric] set_worker_def sel(2,4))
qed

text \<open>C30. A task cancelled while it waits in a queue notifies its dependents twice: once in \<open>cancel\<close>,
  and again when a worker takes it and \<open>execute\<close> throws. Afterwards the count of every other task is
  lower by twice the number of times it depends on the cancelled one.\<close>

theorem cancel_notifies_twice:
  assumes "graph_wf (ex_graph ex)" and "get_task tid (ex_graph ex) = Some p"
    and "\<not> t_cancelled (ex_heap ex p)" and "ex_task_promises ex tid = None"
    and "w < length (ex_workers ex)" and "ex_workers ex ! w = Searching"
    and "find_task fc (ex_pool ex) w = (pool, Some p)"
    and "q \<in> ex_ptrs ex" and "q \<noteq> p"
  shows "let ex1 = fst (executor_cancel tid ex); ex2 = worker_take fc now w ex1;
      ex3 = worker_failure cas w ex2 in
    t_dependencies_count (ex_heap ex3 q) =
      t_dependencies_count (ex_heap ex q) - 2 * int (count_list (t_dependencies (ex_heap ex q)) p)"
proof -
  let ?exc = "cancelled_task p ex" and ?ex1 = "finish_task p (cancelled_task p ex)"
  note p = map_of_wf [OF assms(1) assms(2) [unfolded get_task_def]]
  have selc: "ex_pool ?exc = ex_pool ex" "ex_workers ?exc = ex_workers ex" "ex_ptrs ?exc = ex_ptrs ex"
    "ex_task_promises ?exc = ex_task_promises ex"
    "ex_heap ?exc = (ex_heap ex)(p := (ex_heap ex p)\<lparr>t_cancelled := True, t_status := Cancelled\<rparr>)"
    by (simp_all add: cancelled_task_def monitored_def on_ptr_def on_task_def)
  have wfc: "graph_wf (ex_graph ?exc)"
    by (rule graph_wf_cong [OF assms(1)]) (auto simp: cancelled_task_def monitored_def on_ptr_def on_task_def)
  have h1: "ex_heap ?ex1 r = (if r = p then clear_enqueued_flag else (\<lambda>t. t))
      ((notify_dependency_completed ^^ count_list (t_dependencies (ex_heap ?exc r)) p) (ex_heap ?exc r))"
    if "r \<in> ex_ptrs ex" for r
    using p(1) that by (intro finish_task_heap [OF wfc]) (simp_all add: selc)
  have sel1: "ex_pool ?ex1 = ex_pool ex" "ex_workers ?ex1 = ex_workers ex" "ex_ptrs ?ex1 = ex_ptrs ex"
    "ex_task_promises ?ex1 = ex_task_promises ex"
    by (simp_all add: selc) (simp add: finish_task_def on_ptr_def on_graph_def selc)
  have "t_cancelled (ex_heap ?ex1 p)" "t_id (ex_heap ?ex1 p) = tid"
    using p by (simp_all add: h1 selc notify_pow notify_pow_frame clear_enqueued_flag_def)
  with assms(4-9) p(1) have "ex_heap (worker_failure cas w (worker_take fc now w ?ex1)) q =
      (notify_dependency_completed ^^ count_list (t_dependencies (ex_heap ?ex1 q)) p) (ex_heap ?ex1 q)"
    by (intro worker_finishes_cancelled [OF finish_task_wf [OF wfc]]) (simp_all add: sel1 selc)
  then show ?thesis
    using h1 [OF assms(8)] assms(9)
    by (simp add: Let_def cancel_finishes [OF assms(1-4)] notify_pow notify_pow_frame selc)
qed

text \<open>Three tasks, the third after the other two; the first is cancelled in its queue, and worker 0
  looks for a task.\<close>

definition cancel_demo :: executor where
  "cancel_demo = fold ex_apply
     [ESubmit always 0 (\<lambda>_. Inr AnyEmpty) ''a'' (plain_submission []),
      ESubmit always 0 (\<lambda>_. Inr AnyEmpty) ''b'' (plain_submission []),
      ESubmit always 0 (\<lambda>_. Inr AnyEmpty) ''c'' (plain_submission [1, 2]),
      EStart, ELoopHead 0, EPauseCheck 0] demo_start"

lemma cancel_demo_inv: "ex_inv cancel_demo"
proof (rule reachable_inv [OF demo_pool])
  show "ex_reach (executor_on_pool pool2 (Some zero_metrics)) cancel_demo"
    unfolding cancel_demo_def
  proof (rule reach_run)
    show "ex_reach (executor_on_pool pool2 (Some zero_metrics)) demo_start"
      unfolding demo_start_def by (rule ex_reach.refl)
    show "run_ok [ESubmit always 0 (\<lambda>_. Inr AnyEmpty) ''a'' (plain_submission []),
      ESubmit always 0 (\<lambda>_. Inr AnyEmpty) ''b'' (plain_submission []),
      ESubmit always 0 (\<lambda>_. Inr AnyEmpty) ''c'' (plain_submission [1, 2]),
      EStart, ELoopHead 0, EPauseCheck 0] demo_start" by code_simp
  qed
  show "\<not> ex_terminated cancel_demo" by code_simp
qed

theorem cancel_notifies_twice_witness:
  "t_dependencies_count (ex_heap cancel_demo 2) = 2 \<and>
   t_dependencies_count (ex_heap (worker_failure always 0 (worker_take (\<lambda>_ _. True) 1 0
     (fst (executor_cancel 1 cancel_demo)))) 2) = 0"
proof -
  have facts: "get_task 1 (ex_graph cancel_demo) = Some 0" "\<not> t_cancelled (ex_heap cancel_demo 0)"
    "ex_task_promises cancel_demo 1 = None" "0 < length (ex_workers cancel_demo)"
    "ex_workers cancel_demo ! 0 = Searching"
    "snd (find_task (\<lambda>_ _. True) (ex_pool cancel_demo) 0) = Some 0"
    "2 \<in> ex_ptrs cancel_demo" "(2::nat) \<noteq> 0"
    "t_dependencies_count (ex_heap cancel_demo 2) = 2"
    "count_list (t_dependencies (ex_heap cancel_demo 2)) 0 = 1" by code_simp+
  obtain pool where "find_task (\<lambda>_ _. True) (ex_pool cancel_demo) 0 = (pool, Some 0)"
    using facts(6) by (metis prod.collapse)
  from cancel_notifies_twice [OF ex_invD(3) [OF cancel_demo_inv] facts(1-5) this facts(7,8), of 1 always]
    facts(9,10)
  show ?thesis by (simp add: Let_def)
qed

text \<open>So the third task is put into the pool while the second, on which it depends, has not run.\<close>

definition cancel_demo_end :: executor where
  "cancel_demo_end = fold ex_apply
     [ECancel 1, ETake (\<lambda>_ _. True) 1 0, EFailure always 0, EScheduler (\<lambda>_. always)] cancel_demo"

lemma cancel_breaks_order:
  "2 \<in># placed cancel_demo_end" "1 \<in> set (t_dependencies (ex_heap cancel_demo_end 2))"
  "t_status (ex_heap cancel_demo_end 1) = Pending"
  by code_simp+


subsection \<open>Three more runs\<close>

text \<open>The scheduler runs between \<open>add_task\<close> and \<open>add_dependency\<close> of a submission: the task is in the
  pool before its dependency has run.\<close>

definition race_demo :: executor where
  "race_demo = add_dependencies 2 [1] (scheduler_round (\<lambda>_. always)
     (create_task 0 (\<lambda>_. Inr AnyEmpty) ''b'' (plain_submission [1]) None
       (fold ex_apply [ESubmit always 0 (\<lambda>_. Inr AnyEmpty) ''a'' (plain_submission []), EStart] demo_start)))"

lemma submission_race:
  "1 \<in># placed race_demo" "0 \<in> set (t_dependencies (ex_heap race_demo 1))"
  "t_status (ex_heap race_demo 0) = Pending"
  by code_simp+

text \<open>A task with one retry fails. Until the failure hook has run its status is Failed, so
  \<open>wait_for_completion\<close> returns; then the hook puts it back to Pending. If the pool is shut down in
  between, the hook's submission throws and ends the process.\<close>

definition retry_submission :: submission where
  "retry_submission = (plain_submission [])\<lparr>sub_options := default_options\<lparr>opt_max_retries := 1\<rparr>\<rparr>"

definition retry_demo :: executor where
  "retry_demo = fold ex_apply
     [ESubmit always 0 (\<lambda>_. Inl (UserException 7)) ''a'' retry_submission,
      ELoopHead 0, EPauseCheck 0, ETake (\<lambda>_ _. True) 1 0, EExecute demo_clock 0] demo_start"

lemma wait_returns_before_retry:
  "wait_for_completion retry_demo = Return ()"
  "t_status (ex_heap (worker_failure always 0 retry_demo) 0) = Pending"
  "wait_for_completion (worker_failure always 0 retry_demo) = Block"
  by code_simp+

lemma retry_after_shutdown_terminates:
  "ex_terminated (worker_failure always 0 (executor_stop retry_demo))"
  by code_simp

end
