(* ===== verification/Executor_Interleaving.thy ===== *)
theory Executor_Interleaving
  imports Executor_Runs
begin

section \<open>The executor, step by step\<close>

text \<open>
  Executor_Runs takes a submission, a round of the scheduler and a retry as one step each. Here they
  are cut where another thread can come in between: \<open>submit_internal\<close> after \<open>add_task\<close>, after each
  \<open>add_dependency\<close>, after \<open>is_ready\<close> and after \<open>try_mark_enqueued\<close>; \<open>scheduler_loop\<close> after its
  condition, after \<open>get_ready_tasks\<close> and around each \<open>try_mark_enqueued\<close>; the retry of
  \<open>handle_failure\<close> after \<open>reset_for_retry\<close> and after \<open>try_mark_enqueued\<close>; \<open>stop\<close> after its exchange
  and after the join. What stays one step is an operation of the pool or the graph, a hook that does
  not retry, and the parts of the worker loop. Any number of clients run, beside the scheduler thread
  and the workers. \<open>lock_inv\<close> is the invariant that holds in every interleaving: the flag \<open>enqueued_\<close>
  works as a lock. The first theorem rests on it, and the second shows what the finer steps add: a
  stale list of ready tasks. Executor_Fresh finds the condition under which the order of dependencies
  holds here too, and Executor_Steps that every run of Executor_Runs is one of these runs.
\<close>

subsection \<open>Threads\<close>

text \<open>Where a client is in \<open>submit_internal\<close> or \<open>stop\<close>, the scheduler thread in its loop, and a
  worker in the retry of its failure hook. A thread that has marked a task and not yet given it to
  the pool is at \<open>CPut\<close>, \<open>SPut\<close> or \<open>RPut\<close>.\<close>

datatype client =
    CIdle
  | CDepend task_id task_ptr "task_id list"
  | CMark task_ptr
  | CPut task_ptr
  | CJoin
  | CShutdown

datatype scheduler_thread =
    SNone
  | SLoop
  | SSnapshot
  | SMark "task_ptr list"
  | SPut task_ptr "task_ptr list"
  | SExited

datatype retry = RNone | RMark task_ptr | RPut task_ptr

record system =
  sy_ex :: executor
  sy_clients :: "client list"
  sy_sched :: scheduler_thread
  sy_retries :: "retry list"

definition system_of :: "nat \<Rightarrow> executor \<Rightarrow> system" where
  "system_of n ex = \<lparr>sy_ex = ex, sy_clients = replicate n CIdle, sy_sched = SNone,
     sy_retries = replicate (length (ex_workers ex)) RNone\<rparr>"

definition set_client :: "nat \<Rightarrow> client \<Rightarrow> system \<Rightarrow> system" where
  "set_client i c sy = sy\<lparr>sy_clients := (sy_clients sy)[i := c]\<rparr>"

definition set_retry :: "nat \<Rightarrow> retry \<Rightarrow> system \<Rightarrow> system" where
  "set_retry w r sy = sy\<lparr>sy_retries := (sy_retries sy)[w := r]\<rparr>"

definition terminate :: "system \<Rightarrow> system" where
  "terminate sy = sy\<lparr>sy_ex := (sy_ex sy)\<lparr>ex_terminated := True\<rparr>\<rparr>"

subsection \<open>Steps\<close>

text \<open>A client calls \<open>submit\<close>: everything up to \<open>add_task\<close>; \<open>submit_async\<close> makes its promise first.\<close>

definition client_submit ::
  "nat \<Rightarrow> time \<Rightarrow> (nat \<Rightarrow> exn + any) \<Rightarrow> string \<Rightarrow> submission \<Rightarrow> promise_id option \<Rightarrow> system \<Rightarrow> system" where
  "client_submit i now func name sub promise sy =
     (let ex = sy_ex sy
      in set_client i (CDepend (ex_next_task_id ex) (ex_next_ptr ex) (sub_dependencies sub))
           (sy\<lparr>sy_ex := create_task now func name sub promise ex\<rparr>))"

definition client_submit_async ::
  "nat \<Rightarrow> time \<Rightarrow> (nat \<Rightarrow> exn + any) \<Rightarrow> string \<Rightarrow> task_id list \<Rightarrow> task_options \<Rightarrow>
   user_callback option \<Rightarrow> system \<Rightarrow> system" where
  "client_submit_async i now func name dependencies options user_callback sy =
     (let ex = sy_ex sy; pr = ex_next_promise ex;
          ex = ex\<lparr>ex_next_promise := Suc pr, ex_promises := (ex_promises ex)(pr := Unset)\<rparr>
      in client_submit i now func name
           \<lparr>sub_dependencies = dependencies, sub_options = options,
            sub_callback = AsyncCallback pr user_callback\<rparr> (Some pr) (sy\<lparr>sy_ex := ex\<rparr>))"

text \<open>\<open>if (!scheduler_running_.exchange(true)) scheduler_thread_ = std::thread(...)\<close>: assigning to a
  thread that has not been joined ends the process.\<close>

definition client_start :: "system \<Rightarrow> system" where
  "client_start sy =
     (let sy' = sy\<lparr>sy_ex := executor_start (sy_ex sy)\<rparr>
      in if ex_scheduler_running (sy_ex sy) then sy'
         else if sy_sched sy = SNone then sy'\<lparr>sy_sched := SLoop\<rparr> else terminate sy')"

definition client_stop :: "nat \<Rightarrow> system \<Rightarrow> system" where
  "client_stop i sy =
     set_client i (if ex_scheduler_running (sy_ex sy) then CJoin else CShutdown)
       (sy\<lparr>sy_ex := (sy_ex sy)\<lparr>ex_scheduler_running := False\<rparr>\<rparr>)"

text \<open>The next step of a client inside an operation. An exception of \<open>submit\<close> goes to the caller.\<close>

definition client_step :: "cas3 \<Rightarrow> nat \<Rightarrow> system \<Rightarrow> system" where
  "client_step cas i sy =
     (let ex = sy_ex sy
      in case sy_clients sy ! i of
        CIdle \<Rightarrow> sy
      | CDepend tid p (dep # deps) \<Rightarrow>
          set_client i (CDepend tid p deps) (sy\<lparr>sy_ex := on_graph (graph_add_dependency tid dep) ex\<rparr>)
      | CDepend tid p [] \<Rightarrow> set_client i (if is_ready (ex_heap ex p) then CMark p else CIdle) sy
      | CMark p \<Rightarrow>
          (case try_mark_enqueued (ex_heap ex p) of
             (t, ok) \<Rightarrow> set_client i (if ok then CPut p else CIdle) (sy\<lparr>sy_ex := on_ptr p (\<lambda>_. t) ex\<rparr>))
      | CPut p \<Rightarrow>
          (case submit_to_pool cas p ex of
             (ex', Return ()) \<Rightarrow> set_client i CIdle (sy\<lparr>sy_ex := ex'\<rparr>)
           | (ex', Throw e) \<Rightarrow> set_client i CIdle (sy\<lparr>sy_ex := ex'\<rparr>)
           | (ex', _) \<Rightarrow> terminate (sy\<lparr>sy_ex := ex'\<rparr>))
      | CJoin \<Rightarrow>
          (if sy_sched sy = SNone then set_client i CShutdown sy
           else if sy_sched sy = SExited then set_client i CShutdown (sy\<lparr>sy_sched := SNone\<rparr>)
           else sy)
      | CShutdown \<Rightarrow> set_client i CIdle (sy\<lparr>sy_ex := ex\<lparr>ex_pool := pool_shutdown (ex_pool ex)\<rparr>\<rparr>))"

text \<open>The scheduler thread. An exception leaves the thread and ends the process.\<close>

definition scheduler_step :: "cas3 \<Rightarrow> system \<Rightarrow> system" where
  "scheduler_step cas sy =
     (let ex = sy_ex sy
      in case sy_sched sy of
        SNone \<Rightarrow> sy
      | SExited \<Rightarrow> sy
      | SLoop \<Rightarrow> sy\<lparr>sy_sched := if ex_scheduler_running ex then SSnapshot else SExited\<rparr>
      | SSnapshot \<Rightarrow> sy\<lparr>sy_sched := SMark (get_ready_tasks (ex_graph ex))\<rparr>
      | SMark [] \<Rightarrow> sy\<lparr>sy_sched := SLoop\<rparr>
      | SMark (p # ps) \<Rightarrow>
          (case try_mark_enqueued (ex_heap ex p) of
             (t, ok) \<Rightarrow> sy\<lparr>sy_ex := on_ptr p (\<lambda>_. t) ex, sy_sched := if ok then SPut p ps else SMark ps\<rparr>)
      | SPut p ps \<Rightarrow>
          (case submit_to_pool cas p ex of
             (ex', Return ()) \<Rightarrow> sy\<lparr>sy_ex := ex', sy_sched := SMark ps\<rparr>
           | (ex', _) \<Rightarrow> terminate (sy\<lparr>sy_ex := ex'\<rparr>)))"

text \<open>The failure hook of a worker, up to \<open>reset_for_retry\<close> when the task is tried again.\<close>

definition failure_begin :: "nat \<Rightarrow> system \<Rightarrow> system" where
  "failure_begin w sy =
     (let ex = sy_ex sy
      in case ex_workers ex ! w of
        Threw p e \<Rightarrow>
          (if can_retry (ex_heap ex p)
           then set_retry w (RMark p)
             (sy\<lparr>sy_ex := set_worker w LoopHead
                (on_ptr p reset_for_retry (monitored record_retry (monitored record_failure ex)))\<rparr>)
           else sy\<lparr>sy_ex := worker_failure (True, True, True) w ex\<rparr>)
      | _ \<Rightarrow> sy)"

definition retry_step :: "cas3 \<Rightarrow> nat \<Rightarrow> system \<Rightarrow> system" where
  "retry_step cas w sy =
     (let ex = sy_ex sy
      in case sy_retries sy ! w of
        RNone \<Rightarrow> sy
      | RMark p \<Rightarrow>
          (case try_mark_enqueued (ex_heap ex p) of
             (t, ok) \<Rightarrow> set_retry w (if ok then RPut p else RNone) (sy\<lparr>sy_ex := on_ptr p (\<lambda>_. t) ex\<rparr>))
      | RPut p \<Rightarrow>
          (case submit_to_pool cas p ex of
             (ex', Return ()) \<Rightarrow> set_retry w RNone (sy\<lparr>sy_ex := ex'\<rparr>)
           | (ex', _) \<Rightarrow> terminate (sy\<lparr>sy_ex := ex'\<rparr>)))"

text \<open>One part of the loop of a worker that is not in a hook.\<close>

datatype loop_part =
    PLoopHead
  | PPauseCheck
  | PTake "nat \<Rightarrow> nat \<Rightarrow> bool" time
  | PExecute exec_clock
  | PSuccess
  | PWake

fun worker_part :: "loop_part \<Rightarrow> nat \<Rightarrow> executor \<Rightarrow> executor" where
  "worker_part PLoopHead w = worker_loop_head w"
| "worker_part PPauseCheck w = worker_pause_check w"
| "worker_part (PTake cas now) w = worker_take cas now w"
| "worker_part (PExecute c) w = worker_execute c w"
| "worker_part PSuccess w = worker_success w"
| "worker_part PWake w = worker_wake w"

datatype sys_event =
    ISubmit nat time "nat \<Rightarrow> exn + any" string submission
  | ISubmitAsync nat time "nat \<Rightarrow> exn + any" string "task_id list" task_options "user_callback option"
  | IStart
  | IStop nat
  | IClient cas3 nat
  | IScheduler cas3
  | IWorker loop_part nat
  | IFailure nat
  | IRetry cas3 nat
  | IPause
  | IResume
  | IRound bool bool nat

fun sys_apply :: "sys_event \<Rightarrow> system \<Rightarrow> system" where
  "sys_apply (ISubmit i now func name sub) sy = client_submit i now func name sub None sy"
| "sys_apply (ISubmitAsync i now func name deps opts user) sy =
     client_submit_async i now func name deps opts user sy"
| "sys_apply IStart sy = client_start sy"
| "sys_apply (IStop i) sy = client_stop i sy"
| "sys_apply (IClient cas i) sy = client_step cas i sy"
| "sys_apply (IScheduler cas) sy = scheduler_step cas sy"
| "sys_apply (IWorker part w) sy = sy\<lparr>sy_ex := worker_part part w (sy_ex sy)\<rparr>"
| "sys_apply (IFailure w) sy = failure_begin w sy"
| "sys_apply (IRetry cas w) sy = retry_step cas w sy"
| "sys_apply IPause sy = sy\<lparr>sy_ex := (sy_ex sy)\<lparr>ex_pool := pool_pause (ex_pool (sy_ex sy))\<rparr>\<rparr>"
| "sys_apply IResume sy = sy\<lparr>sy_ex := (sy_ex sy)\<lparr>ex_pool := pool_resume (ex_pool (sy_ex sy))\<rparr>\<rparr>"
| "sys_apply (IRound c cw k) sy =
     sy\<lparr>sy_ex := (sy_ex sy)\<lparr>ex_pool := waiting_round c cw k (ex_pool (sy_ex sy))\<rparr>\<rparr>"

text \<open>A client starts an operation when it is in none; a worker in a retry takes no step of its loop.\<close>

fun sys_ok :: "system \<Rightarrow> sys_event \<Rightarrow> bool" where
  "sys_ok sy (ISubmit i now func name sub) \<longleftrightarrow> i < length (sy_clients sy) \<and> sy_clients sy ! i = CIdle"
| "sys_ok sy (ISubmitAsync i now func name deps opts user) \<longleftrightarrow>
     i < length (sy_clients sy) \<and> sy_clients sy ! i = CIdle"
| "sys_ok sy (IStop i) \<longleftrightarrow> i < length (sy_clients sy) \<and> sy_clients sy ! i = CIdle"
| "sys_ok sy (IClient cas i) \<longleftrightarrow> i < length (sy_clients sy)"
| "sys_ok sy (IWorker part w) \<longleftrightarrow> w < length (ex_workers (sy_ex sy)) \<and> sy_retries sy ! w = RNone"
| "sys_ok sy (IFailure w) \<longleftrightarrow> w < length (ex_workers (sy_ex sy)) \<and> sy_retries sy ! w = RNone"
| "sys_ok sy (IRetry cas w) \<longleftrightarrow> w < length (ex_workers (sy_ex sy))"
| "sys_ok sy e \<longleftrightarrow> True"

inductive sys_reach :: "system \<Rightarrow> system \<Rightarrow> bool" for sy0 :: system where
  refl: "sys_reach sy0 sy0"
| step: "sys_reach sy0 sy \<Longrightarrow> \<not> ex_terminated (sy_ex sy) \<Longrightarrow> sys_ok sy e \<Longrightarrow> sys_reach sy0 (sys_apply e sy)"

subsection \<open>The flag is a lock\<close>

text \<open>What a thread has marked and still holds in its hands, and what it will try to mark.\<close>

fun client_hand :: "client \<Rightarrow> task_ptr multiset" where
  "client_hand (CPut p) = {#p#}"
| "client_hand c = {#}"

fun scheduler_hand :: "scheduler_thread \<Rightarrow> task_ptr multiset" where
  "scheduler_hand (SPut p ps) = {#p#}"
| "scheduler_hand s = {#}"

fun retry_hand :: "retry \<Rightarrow> task_ptr multiset" where
  "retry_hand (RPut p) = {#p#}"
| "retry_hand r = {#}"

definition hands :: "system \<Rightarrow> task_ptr multiset" where
  "hands sy = sum_list (map client_hand (sy_clients sy)) + scheduler_hand (sy_sched sy) +
     sum_list (map retry_hand (sy_retries sy))"

fun client_aims :: "client \<Rightarrow> task_ptr set" where
  "client_aims (CDepend tid p deps) = {p}"
| "client_aims (CMark p) = {p}"
| "client_aims c = {}"

fun scheduler_aims :: "scheduler_thread \<Rightarrow> task_ptr set" where
  "scheduler_aims (SMark ps) = set ps"
| "scheduler_aims (SPut p ps) = set ps"
| "scheduler_aims s = {}"

fun retry_aims :: "retry \<Rightarrow> task_ptr set" where
  "retry_aims (RMark p) = {p}"
| "retry_aims r = {}"

definition aims :: "system \<Rightarrow> task_ptr set" where
  "aims sy = \<Union> (client_aims ` set (sy_clients sy)) \<union> scheduler_aims (sy_sched sy) \<union>
     \<Union> (retry_aims ` set (sy_retries sy))"

text \<open>The part of the invariant that speaks of the executor, given the multiset \<open>H\<close> of tasks in
  hand, the set \<open>A\<close> of tasks that threads will try to mark, and the number of workers: a task is in
  one queue, on one worker or in one hand at most, and only while its flag is set.\<close>

definition lock_ok :: "task_ptr set \<Rightarrow> nat \<Rightarrow> executor \<Rightarrow> task_ptr multiset \<Rightarrow> bool" where
  "lock_ok A n ex H \<longleftrightarrow>
     pool_inv (ex_pool ex) \<and> length (ex_workers ex) = unat (pl_num_threads (ex_pool ex)) \<and>
     length (ex_workers ex) = n \<and> A \<subseteq> {..<ex_next_ptr ex} \<and> ex_ptrs ex \<subseteq> {..<ex_next_ptr ex} \<and>
     (\<forall>p < ex_next_ptr ex. \<exists>tid cb. t_callback (ex_heap ex p) = Some (ExecutorCallback tid p cb)) \<and>
     (\<forall>p. count (placed ex + H) p \<le> (if p < ex_next_ptr ex \<and> t_enqueued (ex_heap ex p) then 1 else 0))"

definition lock_inv :: "system \<Rightarrow> bool" where
  "lock_inv sy \<longleftrightarrow> lock_ok (aims sy) (length (sy_retries sy)) (sy_ex sy) (hands sy)"

lemma lock_okD:
  assumes "lock_ok A n ex H"
  shows "pool_inv (ex_pool ex)" "length (ex_workers ex) = unat (pl_num_threads (ex_pool ex))"
    "p \<in> ex_ptrs ex \<Longrightarrow> p < ex_next_ptr ex"
    "p < ex_next_ptr ex \<Longrightarrow> \<exists>tid cb. t_callback (ex_heap ex p) = Some (ExecutorCallback tid p cb)"
    "count (placed ex + H) p \<le> (if p < ex_next_ptr ex \<and> t_enqueued (ex_heap ex p) then 1 else 0)"
    "p \<in> A \<Longrightarrow> p < ex_next_ptr ex" "length (ex_workers ex) = n"
  using assms unfolding lock_ok_def by blast+

lemma lock_inv_ok: "lock_inv sy \<Longrightarrow> lock_ok (aims sy) (length (sy_retries sy)) (sy_ex sy) (hands sy)"
  by (simp add: lock_inv_def)

text \<open>A task in some place: it exists, its flag is set, and it is nowhere else.\<close>

lemma lock_ok_member:
  assumes "lock_ok A n ex H" and "p \<in># placed ex + H"
  shows "p < ex_next_ptr ex \<and> t_enqueued (ex_heap ex p) \<and> count (placed ex + H) p = 1"
proof -
  define n where "n = count (placed ex + H) p"
  have "0 < n" unfolding n_def using assms(2) by (simp only: count_greater_zero_iff)
  moreover have "n \<le> (if p < ex_next_ptr ex \<and> t_enqueued (ex_heap ex p) then 1 else 0)"
    unfolding n_def by (rule lock_okD(5) [OF assms(1)])
  ultimately show ?thesis
    unfolding n_def [symmetric] by (cases "p < ex_next_ptr ex \<and> t_enqueued (ex_heap ex p)") auto
qed

text \<open>A step that leaves every task it does not drop marked, and puts none anywhere.\<close>

lemma lock_ok_step:
  assumes ok: "lock_ok A n ex H"
    and pool: "pool_inv (ex_pool ex')" "pl_num_threads (ex_pool ex') = pl_num_threads (ex_pool ex)"
    and len: "length (ex_workers ex') = length (ex_workers ex)"
    and next_ptr: "ex_next_ptr ex' = ex_next_ptr ex" and ptrs: "ex_ptrs ex' = ex_ptrs ex"
    and callback: "\<And>q. t_callback (ex_heap ex' q) = t_callback (ex_heap ex q)"
    and less: "\<And>q. count (placed ex' + H') q \<le> count (placed ex + H) q"
    and flag: "\<And>q. q \<in># placed ex' + H' \<Longrightarrow> t_enqueued (ex_heap ex q) \<Longrightarrow> t_enqueued (ex_heap ex' q)"
  shows "lock_ok A n ex' H'"
proof -
  have "count (placed ex' + H') q \<le> (if q < ex_next_ptr ex' \<and> t_enqueued (ex_heap ex' q) then 1 else 0)" for q
  proof (cases "q \<in># placed ex' + H'")
    case True
    then have "0 < count (placed ex' + H') q" by (simp only: count_greater_zero_iff)
    with less [of q] lock_okD(5) [OF ok, of q] flag [OF True] show ?thesis
      unfolding next_ptr by (cases "q < ex_next_ptr ex \<and> t_enqueued (ex_heap ex q)") auto
  next
    case False
    then have "count (placed ex' + H') q = 0" by (simp only: not_in_iff)
    then show ?thesis by simp
  qed
  then show ?thesis
    unfolding lock_ok_def using lock_okD(2,3,4,6,7) [OF ok] pool len callback by (auto simp: next_ptr ptrs)
qed

lemma lock_ok_core:
  assumes "same_core ex ex'" and "lock_ok A n ex H"
  shows "lock_ok A n ex' H"
  using assms unfolding same_core_def lock_ok_def placed_def by simp

lemma lock_ok_drop:
  assumes "lock_ok A n ex (add_mset p H)"
  shows "lock_ok A n ex H"
  by (rule lock_ok_step [OF assms]) (use lock_okD(1) [OF assms] in auto)

lemma lock_ok_mark:
  assumes ok: "lock_ok A n ex H" and p: "p < ex_next_ptr ex"
    and mark: "try_mark_enqueued (ex_heap ex p) = (t, r)"
  shows "lock_ok A n (on_ptr p (\<lambda>_. t) ex) (if r then add_mset p H else H)"
proof (cases r)
  case True
  with mark have t: "t = (ex_heap ex p)\<lparr>t_enqueued := True\<rparr>" "\<not> t_enqueued (ex_heap ex p)"
    by (auto simp: try_mark_enqueued_def split: if_splits)
  let ?ex = "on_ptr p (\<lambda>_. t) ex"
  have sel: "placed ?ex = placed ex" "ex_heap ?ex = (ex_heap ex)(p := t)"
    by (simp_all add: on_ptr_def on_task_def placed_def)
  have "count (placed ?ex + add_mset p H) q \<le>
      (if q < ex_next_ptr ex \<and> t_enqueued (ex_heap ?ex q) then 1 else 0)" for q
    unfolding sel using lock_okD(5) [OF ok, of q] p t by (cases "q = p") simp_all
  moreover have "t_callback t = t_callback (ex_heap ex p)" by (simp add: t)
  moreover have "ex_pool ?ex = ex_pool ex" "ex_workers ?ex = ex_workers ex" "ex_ptrs ?ex = ex_ptrs ex"
    "ex_next_ptr ?ex = ex_next_ptr ex" by (simp_all add: on_ptr_def)
  ultimately show ?thesis
    unfolding lock_ok_def sel(2) using lock_okD(1-4,6,7) [OF ok] True by simp blast
next
  case False
  with mark have "t = ex_heap ex p" by (auto simp: try_mark_enqueued_def split: if_splits)
  then have "on_ptr p (\<lambda>_. t) ex = ex" by (simp add: on_ptr_def on_task_def)
  with ok False show ?thesis by simp
qed

lemma lock_ok_put:
  assumes ok: "lock_ok A n ex (add_mset p H)" and put: "submit_to_pool cas p ex = (ex', r)"
  shows "lock_ok A n ex' H"
proof -
  from submit_to_pool_law [OF lock_okD(1) [OF ok] put] obtain pool m where
    ex': "ex' = ex\<lparr>ex_pool := pool\<rparr>" and pool: "pool_inv pool" "pl_num_threads pool = pl_num_threads (ex_pool ex)"
      "pool_items pool = pool_items (ex_pool ex) + m" and m: "m = {#p#} \<or> m = {#}" by blast
  have "placed ex' = placed ex + m" by (simp add: ex' placed_def pool(3) ac_simps)
  with m have "count (placed ex' + H) q \<le> count (placed ex + add_mset p H) q" for q by auto
  then have "lock_ok A n ex' H"
    using pool by (intro lock_ok_step [OF ok]) (simp_all add: ex')
  then show ?thesis by (simp add: ex')
qed

subsection \<open>Every operation keeps the lock\<close>

lemma update_values: "snd ` set (AList.update k v xs) \<subseteq> insert v (snd ` set xs)"
  by (induction xs) auto

lemma lock_ok_create:
  assumes ok: "lock_ok A n ex H"
  shows "lock_ok A n (create_task now func name sub promise ex) H"
proof -
  let ?ex = "create_task now func name sub promise ex" and ?p = "ex_next_ptr ex"
  note sel = create_task_sel [of now func name sub promise ex]
  have placed: "placed ?ex = placed ex" by (simp add: placed_def sel)
  have "ex_ptrs ?ex \<subseteq> insert ?p (ex_ptrs ex)"
    unfolding sel(6) by (rule update_values)
  then have ptrs: "ex_ptrs ?ex \<subseteq> {..<Suc ?p}" using lock_okD(3) [OF ok] by fastforce
  have callback: "\<exists>tid cb. t_callback (ex_heap ?ex q) = Some (ExecutorCallback tid q cb)" if "q < Suc ?p" for q
    using that lock_okD(4) [OF ok, of q] by (cases "q = ?p") (simp_all add: sel set_callback_def)
  have "count (placed ?ex + H) q \<le> (if q < Suc ?p \<and> t_enqueued (ex_heap ?ex q) then 1 else 0)" for q
    unfolding placed using lock_okD(5) [OF ok, of q] by (cases "q = ?p") (auto simp: sel split: if_splits)
  then show ?thesis
    unfolding lock_ok_def sel(1-3) using lock_okD(1,2,7) [OF ok] lock_okD(6) [OF ok, THEN less_SucI] ptrs callback
    by blast
qed

lemma lock_ok_graph:
  assumes ok: "lock_ok A n ex H" and "g_tasks (f (ex_graph ex)) = g_tasks (ex_graph ex)"
    and "\<And>q. t_callback (g_heap (f (ex_graph ex)) q) = t_callback (ex_heap ex q)"
    and "\<And>q. t_enqueued (g_heap (f (ex_graph ex)) q) = t_enqueued (ex_heap ex q)"
  shows "lock_ok A n (on_graph f ex) H"
  by (rule lock_ok_step [OF ok]) (use assms lock_okD(1) [OF ok] in \<open>simp_all add: on_graph_def placed_def\<close>)

lemma lock_ok_add_dependency:
  assumes "lock_ok A n ex H"
  shows "lock_ok A n (on_graph (graph_add_dependency tid dep) ex) H"
  by (rule lock_ok_graph [OF assms])
    (auto simp: graph_add_dependency_def add_dep_heap split: option.splits)

lemma lock_ok_notify:
  assumes "lock_ok A n ex H"
  shows "lock_ok A n (on_graph (notify_task_completed tid) ex) H"
  by (rule lock_ok_graph [OF assms])
    (auto simp: notify_task_completed_def fold_on_task notify_pow notify_pow_frame split: option.splits)

lemma lock_ok_pool:
  assumes ok: "lock_ok A n ex H" and "pool_inv pool" and "pl_num_threads pool = pl_num_threads (ex_pool ex)"
    and "pool_items pool \<subseteq># pool_items (ex_pool ex)"
  shows "lock_ok A n (ex\<lparr>ex_pool := pool\<rparr>) H"
proof (rule lock_ok_step [OF ok])
  have "placed (ex\<lparr>ex_pool := pool\<rparr>) + H \<subseteq># placed ex + H"
    using assms(4) by (simp add: placed_def subset_mset.add_mono)
  then show "count (placed (ex\<lparr>ex_pool := pool\<rparr>) + H) q \<le> count (placed ex + H) q" for q
    by (rule mset_subset_eq_count)
qed (use assms in simp_all)

text \<open>A worker moves, with the task it holds or with one it takes from the pool; it may change that
  task as long as the flag stays.\<close>

lemma lock_ok_worker:
  assumes ok: "lock_ok A n ex H" and w: "w < length (ex_workers ex)"
    and sel: "ex_workers ex' = (ex_workers ex)[w := st]" "ex_next_ptr ex' = ex_next_ptr ex"
      "g_tasks (ex_graph ex') = g_tasks (ex_graph ex)"
    and pool: "pool_inv (ex_pool ex')" "pl_num_threads (ex_pool ex') = pl_num_threads (ex_pool ex)"
    and move: "pool_items (ex_pool ex') + held st \<subseteq># pool_items (ex_pool ex) + held (ex_workers ex ! w)"
    and heap: "\<And>q. t_callback (ex_heap ex' q) = t_callback (ex_heap ex q)"
      "\<And>q. q \<in># placed ex' + H \<Longrightarrow> t_enqueued (ex_heap ex q) \<Longrightarrow> t_enqueued (ex_heap ex' q)"
  shows "lock_ok A n ex' H"
proof (rule lock_ok_step [OF ok pool _ sel(2) _ heap(1) _ heap(2)])
  show "length (ex_workers ex') = length (ex_workers ex)" "ex_ptrs ex' = ex_ptrs ex"
    by (simp_all add: sel)
  fix q
  have "count (sum_list (map held (ex_workers ex'))) q + count (held (ex_workers ex ! w)) q =
      count (sum_list (map held (ex_workers ex))) q + count (held st) q"
    using arg_cong [OF held_sum_update [OF w, of st], of "\<lambda>m. count m q"] by (simp add: sel)
  moreover have "count (pool_items (ex_pool ex')) q + count (held st) q \<le>
      count (pool_items (ex_pool ex)) q + count (held (ex_workers ex ! w)) q"
    using mset_subset_eq_count [OF move, of q] by simp
  ultimately show "count (placed ex' + H) q \<le> count (placed ex + H) q"
    unfolding placed_def count_union by linarith
qed

lemma lock_ok_idle:
  assumes "lock_ok A n ex H" and "w < length (ex_workers ex)" and "held st = {#}"
  shows "lock_ok A n (set_worker w st ex) H"
  by (rule lock_ok_worker [OF assms(1,2)])
    (use assms(3) lock_okD(1) [OF assms(1)] in \<open>auto simp: set_worker_def\<close>)

lemma lock_ok_execute:
  assumes ok: "lock_ok A n ex H" and w: "w < length (ex_workers ex)"
  shows "lock_ok A n (worker_execute c w ex) H"
proof (cases "ex_workers ex ! w")
  case (Executing p)
  obtain t' r where run: "execute_end c (ex_heap ex p) = (t', r)" by fastforce
  define st where "st = (case r of Inr x \<Rightarrow> Returned p x | Inl e \<Rightarrow> Threw p e)"
  have ex': "worker_execute c w ex = set_worker w st (on_ptr p (\<lambda>_. t') ex)"
    by (cases r) (simp_all add: worker_execute_def Executing run st_def)
  have st: "held st = {#p#}" by (cases r) (simp_all add: st_def)
  note law = frame_execute_end [OF run]
  show ?thesis
    unfolding ex'
    by (rule lock_ok_worker [OF ok w, where st = st])
      (use law lock_okD(1) [OF ok] in \<open>auto simp: set_worker_def on_ptr_def on_task_def frame_def Executing st\<close>)
qed (simp_all add: worker_execute_def ok)

lemma lock_ok_take:
  assumes ok: "lock_ok A n ex H" and w: "w < length (ex_workers ex)"
  shows "lock_ok A n (worker_take cas now w ex) H"
proof (cases "ex_workers ex ! w = Searching")
  case True
  obtain pool r where found: "find_task cas (ex_pool ex) w = (pool, r)" by fastforce
  have w': "w < unat (pl_num_threads (ex_pool ex))" using w lock_okD(2) [OF ok] by simp
  show ?thesis
  proof (cases r)
    case None
    from found None have "find_task cas (ex_pool ex) w = (pool, None)" by simp
    from find_task_None [OF lock_okD(1) [OF ok] w' this] have "pool = ex_pool ex" by simp
    then have "worker_take cas now w ex = set_worker w Sleeping ex"
      by (simp add: worker_take_def True found None)
    then show ?thesis using lock_ok_idle [OF ok w, of Sleeping] by simp
  next
    case (Some p)
    from found Some have step: "find_task cas (ex_pool ex) w = (pool, Some p)" by simp
    note law = find_task_Some [OF lock_okD(1) [OF ok] w' step]
    then have items: "pool_items (ex_pool ex) = pool_items pool + {#p#}" by (simp add: pool_items_def)
    let ?ex = "on_start now p (ex\<lparr>ex_pool := pool\<rparr>)"
    have heap: "ex_heap ?ex = ex_heap ex" by (simp add: on_start_def Let_def monitored_def)
    define t where "t = (case execute_begin now (ex_heap ex p) of Inl (t, e) \<Rightarrow> t | Inr t \<Rightarrow> t)"
    define st where "st = (case execute_begin now (ex_heap ex p) of Inl (t, e) \<Rightarrow> Threw p e | Inr t \<Rightarrow> Executing p)"
    have t: "t_callback t = t_callback (ex_heap ex p)" "t_enqueued t = t_enqueued (ex_heap ex p)"
      and st: "held st = {#p#}"
      by (simp_all add: t_def st_def execute_begin_def)
    have ex': "worker_take cas now w ex = set_worker w st (on_ptr p (\<lambda>_. t) ?ex)"
      unfolding worker_take_def True step t_def st_def Let_def
      by (simp add: heap execute_begin_def)
    show ?thesis
      unfolding ex'
      by (rule lock_ok_worker [OF ok w, where st = st])
        (use law t in \<open>auto simp: set_worker_def on_ptr_def on_task_def on_start_def Let_def monitored_def items st\<close>)
  qed
next
  case False
  then have "worker_take cas now w ex = ex" by (cases "ex_workers ex ! w") (simp_all add: worker_take_def)
  with ok show ?thesis by simp
qed

text \<open>The task of a hook that ends well is finished: the worker lets it go and its flag is cleared.\<close>

lemma lock_ok_clear:
  assumes ok: "lock_ok A n ex H" and w: "w < length (ex_workers ex)" and held: "held (ex_workers ex ! w) = {#p#}"
    and "\<And>t. t_callback (f t) = t_callback t"
  shows "lock_ok A n (set_worker w LoopHead (on_ptr p f ex)) H"
proof (rule lock_ok_worker [OF ok w, where st = LoopHead])
  let ?ex = "set_worker w LoopHead (on_ptr p f ex)"
  have "p \<in># placed ex + H" using held_placed [OF w] held by simp
  from lock_ok_member [OF ok this] have one: "count (placed ex + H) p = 1" by simp
  have "placed ?ex + {#p#} = placed ex"
    using held_sum_update [OF w, of LoopHead] held by (simp add: placed_def set_worker_def on_ptr_def)
  then have "count (placed ?ex + H) p + 1 = count (placed ex + H) p"
    by (metis count_union count_single add.commute add.left_commute)
  with one have "p \<notin># placed ?ex + H" by (simp only: not_in_iff)
  then show "t_enqueued (ex_heap ?ex q)" if "q \<in># placed ?ex + H" "t_enqueued (ex_heap ex q)" for q
    using that by (cases "q = p") (auto simp: set_worker_def on_ptr_def)
qed (use assms(4) lock_okD(1) [OF ok] in \<open>simp_all add: set_worker_def on_ptr_def on_task_def held\<close>)

lemma lock_ok_finished:
  assumes ok: "lock_ok A n ex H" and w: "w < length (ex_workers ex)" and held: "held (ex_workers ex ! w) = {#p#}"
  shows "lock_ok A n (set_worker w LoopHead (on_ptr p clear_enqueued_flag (on_graph (notify_task_completed tid) ex))) H"
  by (rule lock_ok_clear [OF lock_ok_notify [OF ok]])
    (use w held in \<open>simp_all add: on_graph_def clear_enqueued_flag_def\<close>)

lemma lock_ok_success:
  assumes ok: "lock_ok A n ex H" and w: "w < length (ex_workers ex)"
  shows "lock_ok A n (worker_success w ex) H"
proof (cases "ex_workers ex ! w")
  case (Returned p result)
  then have "p \<in># placed ex + H" using held_placed [OF w] by simp
  from lock_ok_member [OF ok this] lock_okD(4) [OF ok] obtain tid cb where
    cb: "t_callback (ex_heap ex p) = Some (ExecutorCallback tid p cb)" by blast
  obtain ex' r where run: "on_success p result ex = (ex', r)" by fastforce
  let ?ex = "monitored (record_completion (execution_time (ex_heap ex p))) ex"
  have "run_task_callback (ExecutorCallback tid p cb) result ?ex = (ex', r)"
    using run by (simp add: on_success_def invoke_callback_def monitored_def cb)
  from callback_cases [OF this] obtain ex1 where core: "same_core ex ex1"
    and r: "ex' = ex1 \<and> r \<noteq> None \<or> ex' = clear_if_alive p (on_graph (notify_task_completed tid) ex1) \<and> r = None"
    using same_core_trans [OF same_core_monitored] by blast
  note ok1 = lock_ok_core [OF core ok]
  have w1: "w < length (ex_workers ex1)" "ex_workers ex1 ! w = Returned p result"
    using w Returned by (simp_all add: same_core_workers [OF core])
  show ?thesis
  proof (cases r)
    case None
    with r run Returned have "worker_success w ex =
        set_worker w LoopHead (clear_if_alive p (on_graph (notify_task_completed tid) ex1))"
      by (simp add: worker_success_def)
    moreover have "lock_ok A n (set_worker w LoopHead (on_graph (notify_task_completed tid) ex1)) H"
      using w1 by (intro lock_ok_idle lock_ok_notify ok1) (simp_all add: on_graph_def)
    ultimately show ?thesis
      using lock_ok_finished [OF ok1 w1(1), of p tid] w1(2) by (simp add: clear_if_alive_def)
  next
    case (Some e)
    with r run Returned have "worker_success w ex = set_worker w (Threw p e) ex1"
      by (simp add: worker_success_def)
    moreover have "lock_ok A n (set_worker w (Threw p e) ex1) H"
      by (rule lock_ok_worker [OF ok1 w1(1), where st = "Threw p e"])
        (use w1 lock_okD(1) [OF ok1] in \<open>simp_all add: set_worker_def\<close>)
    ultimately show ?thesis by simp
  qed
qed (simp_all add: worker_success_def ok)

lemma lock_ok_part:
  assumes "lock_ok A n ex H" and "w < length (ex_workers ex)"
  shows "lock_ok A n (worker_part part w ex) H"
  using assms lock_ok_take lock_ok_execute lock_ok_success lock_ok_idle
  by (cases part; cases "ex_workers ex ! w")
    (simp_all add: worker_loop_head_def worker_pause_check_def worker_wake_def)

subsection \<open>Every step keeps the invariant\<close>

lemma lock_ok_aims:
  assumes "lock_ok A n ex H" and "A' \<subseteq> {..<ex_next_ptr ex}"
  shows "lock_ok A' n ex H"
  using assms unfolding lock_ok_def by blast

text \<open>One thread moves: its hand and its aim are replaced.\<close>

lemma client_moves:
  assumes ok: "lock_ok A (length (sy_retries sy)) ex H" and i: "i < length (sy_clients sy)"
    and A: "aims sy \<subseteq> A" "client_aims c \<subseteq> {..<ex_next_ptr ex}"
    and H: "H + client_hand (sy_clients sy ! i) = hands sy + client_hand c"
  shows "lock_inv (set_client i c (sy\<lparr>sy_ex := ex\<rparr>))"
proof -
  let ?sy = "set_client i c (sy\<lparr>sy_ex := ex\<rparr>)"
  have "hands ?sy + client_hand (sy_clients sy ! i) = hands sy + client_hand c"
    using sum_list_map_update [OF i, of client_hand c]
    by (simp add: hands_def set_client_def)
  with H have "hands ?sy = H" by (metis add_right_cancel)
  moreover have "aims ?sy \<subseteq> aims sy \<union> client_aims c"
    using set_update_subset_insert [of "sy_clients sy" i c] by (auto simp: aims_def set_client_def)
  then have "aims ?sy \<subseteq> {..<ex_next_ptr ex}" using A lock_okD(6) [OF ok] by blast
  ultimately show ?thesis using lock_ok_aims [OF ok] by (simp add: lock_inv_def set_client_def)
qed

lemma retry_moves:
  assumes ok: "lock_ok A (length (sy_retries sy)) ex H" and w: "w < length (sy_retries sy)"
    and A: "aims sy \<subseteq> A" "retry_aims r \<subseteq> {..<ex_next_ptr ex}"
    and H: "H + retry_hand (sy_retries sy ! w) = hands sy + retry_hand r"
  shows "lock_inv (set_retry w r (sy\<lparr>sy_ex := ex\<rparr>))"
proof -
  let ?sy = "set_retry w r (sy\<lparr>sy_ex := ex\<rparr>)"
  have "hands ?sy + retry_hand (sy_retries sy ! w) = hands sy + retry_hand r"
    using sum_list_map_update [OF w, of retry_hand r]
    by (simp add: hands_def set_retry_def add.assoc)
  with H have "hands ?sy = H" by (metis add_right_cancel)
  moreover have "aims ?sy \<subseteq> aims sy \<union> retry_aims r"
    using set_update_subset_insert [of "sy_retries sy" w r] by (auto simp: aims_def set_retry_def)
  then have "aims ?sy \<subseteq> {..<ex_next_ptr ex}" using A lock_okD(6) [OF ok] by blast
  ultimately show ?thesis using lock_ok_aims [OF ok] by (simp add: lock_inv_def set_retry_def)
qed

lemma scheduler_moves:
  assumes ok: "lock_ok A (length (sy_retries sy)) ex H"
    and A: "aims sy \<subseteq> A" "scheduler_aims s \<subseteq> {..<ex_next_ptr ex}"
    and H: "H + scheduler_hand (sy_sched sy) = hands sy + scheduler_hand s"
  shows "lock_inv (sy\<lparr>sy_ex := ex, sy_sched := s\<rparr>)"
proof -
  let ?sy = "sy\<lparr>sy_ex := ex, sy_sched := s\<rparr>"
  have "hands ?sy + scheduler_hand (sy_sched sy) = hands sy + scheduler_hand s"
    by (simp add: hands_def ac_simps)
  with H have "hands ?sy = H" by (metis add_right_cancel)
  moreover have "aims ?sy \<subseteq> aims sy \<union> scheduler_aims s" by (auto simp: aims_def)
  then have "aims ?sy \<subseteq> {..<ex_next_ptr ex}" using A lock_okD(6) [OF ok] by blast
  ultimately show ?thesis using lock_ok_aims [OF ok] by (simp add: lock_inv_def)
qed

lemma executor_moves:
  assumes "lock_ok (aims sy) (length (sy_retries sy)) ex (hands sy)"
  shows "lock_inv (sy\<lparr>sy_ex := ex\<rparr>)"
  using assms by (simp add: lock_inv_def aims_def hands_def)

lemma lock_inv_same_core:
  assumes "lock_inv sy" and "same_core (sy_ex sy) ex"
  shows "lock_inv (sy\<lparr>sy_ex := ex\<rparr>)"
  using assms executor_moves lock_ok_core unfolding lock_inv_def by blast

lemma client_step_inv:
  assumes inv: "lock_inv sy" and i: "i < length (sy_clients sy)"
  shows "ex_terminated (sy_ex (client_step cas i sy)) \<or> lock_inv (client_step cas i sy)"
proof -
  let ?ex = "sy_ex sy" and ?H = "hands sy"
  have ok: "lock_ok (aims sy) (length (sy_retries sy)) ?ex ?H" using inv by (simp add: lock_inv_def)
  have mem: "client_aims (sy_clients sy ! i) \<subseteq> aims sy" using i by (auto simp: aims_def intro: nth_mem)
  have aim: "client_aims (sy_clients sy ! i) \<subseteq> {..<ex_next_ptr ?ex}" using mem lock_okD(6) [OF ok] by blast
  show ?thesis
  proof (cases "sy_clients sy ! i")
    case CIdle
    then show ?thesis using inv by (simp add: client_step_def)
  next
    case (CDepend tid p deps)
    show ?thesis
    proof (cases deps)
      case Nil
      have "lock_inv (set_client i (if is_ready (ex_heap ?ex p) then CMark p else CIdle) (sy\<lparr>sy_ex := ?ex\<rparr>))"
        using aim by (intro client_moves [OF ok i]) (simp_all add: CDepend)
      then show ?thesis by (simp add: client_step_def CDepend Nil Let_def)
    next
      case (Cons dep rest)
      have "lock_inv (set_client i (CDepend tid p rest)
          (sy\<lparr>sy_ex := on_graph (graph_add_dependency tid dep) ?ex\<rparr>))"
        using aim by (intro client_moves [OF lock_ok_add_dependency [OF ok] i]) (simp_all add: CDepend on_graph_def)
      then show ?thesis by (simp add: client_step_def CDepend Cons Let_def)
    qed
  next
    case (CMark p)
    obtain t r where mark: "try_mark_enqueued (ex_heap ?ex p) = (t, r)" by fastforce
    have "p < ex_next_ptr ?ex" using aim CMark by simp
    from client_moves [OF lock_ok_mark [OF ok this mark] i, of "if r then CPut p else CIdle"]
    show ?thesis by (cases r) (simp_all add: client_step_def CMark mark Let_def)
  next
    case (CPut p)
    obtain ex' r where put: "submit_to_pool cas p ?ex = (ex', r)" by fastforce
    have "p \<in># sum_list (map client_hand (sy_clients sy))"
      using i CPut nth_mem [OF i] by (force simp: in_sum_list_mset)
    then have "?H = add_mset p (?H - {#p#})" by (simp add: hands_def)
    with ok have "lock_ok (aims sy) (length (sy_retries sy)) ?ex (add_mset p (?H - {#p#}))" by simp
    from client_moves [OF lock_ok_put [OF this put] i, of CIdle] \<open>?H = _\<close>
    show ?thesis
      by (cases r) (simp_all add: client_step_def CPut put terminate_def Let_def split: unit.splits)
  next
    case CJoin
    have "lock_inv (sy\<lparr>sy_ex := ?ex, sy_sched := SNone\<rparr>)" if "sy_sched sy = SExited"
      by (rule scheduler_moves [OF ok]) (simp_all add: that)
    moreover have "lock_inv (set_client i CShutdown sy')" if "lock_inv sy'" "sy_clients sy' = sy_clients sy" for sy'
      using client_moves [of "aims sy'" sy' "sy_ex sy'" "hands sy'" i CShutdown] that i
      by (simp add: lock_inv_def CJoin)
    ultimately show ?thesis using inv by (simp add: client_step_def CJoin Let_def)
  next
    case CShutdown
    have "lock_ok (aims sy) (length (sy_retries sy)) (?ex\<lparr>ex_pool := pool_shutdown (ex_pool ?ex)\<rparr>) ?H"
      using lock_okD(1) [OF ok] by (intro lock_ok_pool [OF ok]) (simp_all add: pool_shutdown_def pool_items_def)
    from client_moves [OF this i, of CIdle] show ?thesis by (simp add: client_step_def CShutdown Let_def)
  qed
qed

lemma scheduler_step_inv:
  assumes inv: "lock_inv sy"
  shows "ex_terminated (sy_ex (scheduler_step cas sy)) \<or> lock_inv (scheduler_step cas sy)"
proof -
  let ?ex = "sy_ex sy" and ?H = "hands sy"
  have ok: "lock_ok (aims sy) (length (sy_retries sy)) ?ex ?H" using inv by (simp add: lock_inv_def)
  have aim: "scheduler_aims (sy_sched sy) \<subseteq> {..<ex_next_ptr ?ex}"
    using lock_okD(6) [OF ok] by (auto simp: aims_def)
  have stay: "lock_inv (sy\<lparr>sy_sched := s\<rparr>)"
    if "scheduler_hand (sy_sched sy) = scheduler_hand s" "scheduler_aims s \<subseteq> {..<ex_next_ptr ?ex}" for s
    using scheduler_moves [OF ok subset_refl that(2)] that(1) by simp
  show ?thesis
  proof (cases "sy_sched sy")
    case SSnapshot
    have "set (get_ready_tasks (ex_graph ?ex)) \<subseteq> {..<ex_next_ptr ?ex}"
      using lock_okD(3) [OF ok] by (fastforce simp: get_ready_tasks_def)
    then show ?thesis
      using stay [of "SMark (get_ready_tasks (ex_graph ?ex))"] by (simp add: scheduler_step_def SSnapshot Let_def)
  next
    case (SMark todo)
    show ?thesis
    proof (cases todo)
      case Nil
      then show ?thesis using stay [of SLoop] by (simp add: scheduler_step_def SMark Let_def)
    next
      case (Cons p ps)
      obtain t r where mark: "try_mark_enqueued (ex_heap ?ex p) = (t, r)" by fastforce
      have p: "p < ex_next_ptr ?ex" "set ps \<subseteq> {..<ex_next_ptr ?ex}" using aim SMark Cons by simp_all
      have "lock_inv (sy\<lparr>sy_ex := on_ptr p (\<lambda>_. t) ?ex, sy_sched := if r then SPut p ps else SMark ps\<rparr>)"
        using p by (intro scheduler_moves [OF lock_ok_mark [OF ok p(1) mark]])
          (simp_all add: SMark on_ptr_def)
      then show ?thesis by (simp add: scheduler_step_def SMark Cons mark Let_def)
    qed
  next
    case (SPut p ps)
    obtain ex' r where put: "submit_to_pool cas p ?ex = (ex', r)" by fastforce
    have H: "?H = add_mset p (?H - {#p#})" by (simp add: hands_def SPut)
    with ok have "lock_ok (aims sy) (length (sy_retries sy)) ?ex (add_mset p (?H - {#p#}))" by simp
    note ok' = lock_ok_put [OF this put]
    have "set ps \<subseteq> aims sy" using SPut by (auto simp: aims_def)
    then have "set ps \<subseteq> {..<ex_next_ptr ex'}" using lock_okD(6) [OF ok'] by blast
    then have "lock_inv (sy\<lparr>sy_ex := ex', sy_sched := SMark ps\<rparr>)"
      using H by (intro scheduler_moves [OF ok' subset_refl]) (simp_all add: SPut)
    then show ?thesis
      by (cases r) (simp_all add: scheduler_step_def SPut put terminate_def Let_def split: unit.splits)
  qed (use inv stay [of SSnapshot] stay [of SExited] in \<open>simp_all add: scheduler_step_def Let_def\<close>)
qed

lemma worker_failure_ends:
  assumes "ex_workers ex ! w = Threw p e" and "\<not> can_retry (ex_heap ex p)"
  shows "ex_terminated (worker_failure cas w ex) \<or> (\<exists>ex1. same_core ex ex1 \<and> worker_failure cas w ex =
    set_worker w LoopHead (on_ptr p clear_enqueued_flag (on_graph (notify_task_completed (t_id (ex_heap ex p))) ex1)))"
proof -
  let ?ex = "monitored record_failure ex"
  obtain ex1 r where fail: "fail_promise (t_id (ex_heap ex p)) e ?ex = (ex1, r)" by fastforce
  have "same_core ex ex1" using same_core_trans [OF same_core_monitored fail_promise_core [OF fail]] .
  moreover have "worker_failure cas w ex = (case r of
      None \<Rightarrow> set_worker w LoopHead (on_ptr p clear_enqueued_flag (on_graph (notify_task_completed (t_id (ex_heap ex p))) ex1))
    | Some e' \<Rightarrow> ex1\<lparr>ex_terminated := True\<rparr>)"
    using assms fail
    by (cases r) (simp_all add: worker_failure_def on_failure_def handle_failure_def Let_def monitored_def
        split: unit.splits)
  ultimately show ?thesis by (cases r) auto
qed

lemma failure_begin_inv:
  assumes inv: "lock_inv sy" and w: "w < length (ex_workers (sy_ex sy))" and idle: "sy_retries sy ! w = RNone"
  shows "ex_terminated (sy_ex (failure_begin w sy)) \<or> lock_inv (failure_begin w sy)"
proof (cases "ex_workers (sy_ex sy) ! w")
  case (Threw p e)
  let ?ex = "sy_ex sy" and ?H = "hands sy" and ?n = "length (sy_retries sy)"
  have ok: "lock_ok (aims sy) ?n ?ex ?H" using inv by (simp add: lock_inv_def)
  have held: "held (ex_workers ?ex ! w) = {#p#}" by (simp add: Threw)
  have "p \<in># placed ?ex + ?H" using held_placed [OF w] held by simp
  from lock_ok_member [OF ok this] have p: "p < ex_next_ptr ?ex" by simp
  show ?thesis
  proof (cases "can_retry (ex_heap ?ex p)")
    case True
    let ?ex1 = "monitored record_retry (monitored record_failure ?ex)"
    have core: "same_core ?ex ?ex1" by (simp add: same_core_def monitored_def)
    have "lock_ok (aims sy) ?n (set_worker w LoopHead (on_ptr p reset_for_retry ?ex1)) ?H"
      using w held by (intro lock_ok_clear [OF lock_ok_core [OF core ok]])
        (simp_all add: same_core_workers [OF core] reset_for_retry_def clear_enqueued_flag_def)
    moreover have "w < ?n" using w lock_okD(7) [OF ok] by simp
    ultimately have "lock_inv (set_retry w (RMark p)
        (sy\<lparr>sy_ex := set_worker w LoopHead (on_ptr p reset_for_retry ?ex1)\<rparr>))"
      using p by (intro retry_moves [where A = "aims sy"]) (simp_all add: idle set_worker_def on_ptr_def monitored_def)
    then show ?thesis by (simp add: failure_begin_def Threw True Let_def)
  next
    case False
    have step: "failure_begin w sy = sy\<lparr>sy_ex := worker_failure (True, True, True) w ?ex\<rparr>"
      by (simp add: failure_begin_def Threw False Let_def)
    from worker_failure_ends [OF Threw False, of "(True, True, True)"] show ?thesis
    proof (elim disjE exE conjE)
      fix ex1 assume core: "same_core ?ex ex1" and ex': "worker_failure (True, True, True) w ?ex =
        set_worker w LoopHead (on_ptr p clear_enqueued_flag (on_graph (notify_task_completed (t_id (ex_heap ?ex p))) ex1))"
      have "lock_ok (aims sy) ?n (worker_failure (True, True, True) w ?ex) ?H"
        unfolding ex' using w held
        by (intro lock_ok_finished [OF lock_ok_core [OF core ok]]) (simp_all add: same_core_workers [OF core])
      then show ?thesis using executor_moves by (simp add: step)
    qed (simp add: step)
  qed
qed (use inv in \<open>simp_all add: failure_begin_def\<close>)

lemma retry_step_inv:
  assumes inv: "lock_inv sy" and w: "w < length (ex_workers (sy_ex sy))"
  shows "ex_terminated (sy_ex (retry_step cas w sy)) \<or> lock_inv (retry_step cas w sy)"
proof -
  let ?ex = "sy_ex sy" and ?H = "hands sy"
  have ok: "lock_ok (aims sy) (length (sy_retries sy)) ?ex ?H" using inv by (simp add: lock_inv_def)
  have w': "w < length (sy_retries sy)" using w lock_okD(7) [OF ok] by simp
  show ?thesis
  proof (cases "sy_retries sy ! w")
    case RNone
    then show ?thesis using inv by (simp add: retry_step_def)
  next
    case (RMark p)
    obtain t r where mark: "try_mark_enqueued (ex_heap ?ex p) = (t, r)" by fastforce
    have "p \<in> aims sy" using nth_mem [OF w'] RMark by (force simp: aims_def)
    then have "p < ex_next_ptr ?ex" by (rule lock_okD(6) [OF ok])
    from retry_moves [OF lock_ok_mark [OF ok this mark] w', of "if r then RPut p else RNone"]
    show ?thesis by (cases r) (simp_all add: retry_step_def RMark mark Let_def)
  next
    case (RPut p)
    obtain ex' r where put: "submit_to_pool cas p ?ex = (ex', r)" by fastforce
    have "p \<in># sum_list (map retry_hand (sy_retries sy))"
      using RPut nth_mem [OF w'] by (force simp: in_sum_list_mset)
    then have H: "?H = add_mset p (?H - {#p#})" by (simp add: hands_def)
    with ok have "lock_ok (aims sy) (length (sy_retries sy)) ?ex (add_mset p (?H - {#p#}))" by simp
    from retry_moves [OF lock_ok_put [OF this put] w', of RNone] H show ?thesis
      by (cases r) (simp_all add: retry_step_def RPut put terminate_def Let_def split: unit.splits)
  qed
qed

lemma client_submit_inv:
  assumes inv: "lock_inv sy" and i: "i < length (sy_clients sy)" "sy_clients sy ! i = CIdle"
  shows "lock_inv (client_submit i now func name sub promise sy)"
proof -
  have ok: "lock_ok (aims sy) (length (sy_retries sy)) (sy_ex sy) (hands sy)"
    using inv by (simp add: lock_inv_def)
  show ?thesis
    unfolding client_submit_def Let_def
    by (rule client_moves [OF lock_ok_create [OF ok] i(1)]) (simp_all add: i create_task_sel)
qed

lemma sys_apply_inv:
  assumes inv: "lock_inv sy" and e: "sys_ok sy e"
  shows "ex_terminated (sy_ex (sys_apply e sy)) \<or> lock_inv (sys_apply e sy)"
proof -
  have ok: "lock_ok (aims sy) (length (sy_retries sy)) (sy_ex sy) (hands sy)"
    using inv by (simp add: lock_inv_def)
  have pool: "lock_inv (sy\<lparr>sy_ex := (sy_ex sy)\<lparr>ex_pool := pool\<rparr>\<rparr>)"
    if "pool_inv pool" "pl_num_threads pool = pl_num_threads (ex_pool (sy_ex sy))"
      "pool_items pool \<subseteq># pool_items (ex_pool (sy_ex sy))" for pool
    by (rule executor_moves [OF lock_ok_pool [OF ok that]])
  note pinv = lock_okD(1) [OF ok]
  show ?thesis
  proof (cases e)
    case (ISubmit i now func name sub)
    then show ?thesis using client_submit_inv [OF inv] e by simp
  next
    case (ISubmitAsync i now func name deps opts user)
    let ?ex = "(sy_ex sy)\<lparr>ex_next_promise := Suc (ex_next_promise (sy_ex sy)),
      ex_promises := (ex_promises (sy_ex sy))(ex_next_promise (sy_ex sy) := Unset)\<rparr>"
    have "lock_inv (sy\<lparr>sy_ex := ?ex\<rparr>)"
      by (rule lock_inv_same_core [OF inv]) (simp add: same_core_def)
    from client_submit_inv [OF this] e show ?thesis
      by (simp add: ISubmitAsync client_submit_async_def Let_def)
  next
    case IStart
    have "lock_ok (aims sy) (length (sy_retries sy)) (executor_start (sy_ex sy)) (hands sy)"
      by (rule lock_ok_core [OF _ ok]) (simp add: same_core_def executor_start_def)
    from scheduler_moves [OF this, of SLoop] executor_moves [OF this] show ?thesis
      by (auto simp: IStart client_start_def terminate_def Let_def)
  next
    case (IStop i)
    let ?ex = "(sy_ex sy)\<lparr>ex_scheduler_running := False\<rparr>"
    have "lock_ok (aims sy) (length (sy_retries sy)) ?ex (hands sy)"
      by (rule lock_ok_core [OF _ ok]) (simp add: same_core_def)
    from client_moves [OF this, of i CJoin] client_moves [OF this, of i CShutdown] e show ?thesis
      by (simp add: IStop client_stop_def)
  next
    case (IWorker part w)
    then show ?thesis using executor_moves [OF lock_ok_part [OF ok]] e by simp
  next
    case IPause
    have "lock_inv (sys_apply IPause sy)"
      unfolding sys_apply.simps
      by (rule pool) (use pinv in \<open>simp_all add: pool_pause_def pool_items_def pool_inv_def queued_items_def\<close>)
    then show ?thesis by (simp add: IPause)
  next
    case IResume
    have "lock_inv (sys_apply IResume sy)"
      unfolding sys_apply.simps
      by (rule pool) (use pinv in \<open>simp_all add: pool_resume_def pool_items_def pool_inv_def queued_items_def\<close>)
    then show ?thesis by (simp add: IResume)
  next
    case (IRound c cw k)
    then show ?thesis using waiting_round_law [OF pinv, of c cw k] pool by simp
  qed (use inv e client_step_inv scheduler_step_inv failure_begin_inv retry_step_inv in simp_all)
qed

lemma system_of_inv:
  assumes "pool_inv p" and "pool_items p = {#}"
  shows "lock_inv (system_of n (executor_on_pool p m))"
  using assms
  by (simp add: lock_inv_def lock_ok_def system_of_def hands_def aims_def executor_on_pool_def
      empty_graph_def placed_def sum_list_replicate map_replicate_const)

lemma sys_reach_inv:
  assumes "sys_reach sy0 sy" and "lock_inv sy0"
  shows "ex_terminated (sy_ex sy) \<or> lock_inv sy"
  using assms(1) by (induction rule: sys_reach.induct) (use assms(2) sys_apply_inv in blast)+

lemma interleaved_inv:
  assumes "pool_inv p" and "pool_items p = {#}"
    and "sys_reach (system_of n (executor_on_pool p m)) sy" and "\<not> ex_terminated (sy_ex sy)"
  shows "lock_inv sy"
  using sys_reach_inv [OF assms(3) system_of_inv [OF assms(1,2)]] assms(4) by blast

subsection \<open>Properties of every interleaving\<close>

text \<open>C3. In every interleaving of submissions, the scheduler thread, retries and workers, a task is in
  one place at most: one queue, one worker, or one thread that has marked it and not yet handed it
  over; and only while its flag is set. So no two workers hold the same task.\<close>

theorem one_place_at_a_time:
  assumes "pool_inv p" and "pool_items p = {#}"
    and "sys_reach (system_of n (executor_on_pool p m)) sy" and "\<not> ex_terminated (sy_ex sy)"
  shows "count (placed (sy_ex sy) + hands sy) q \<le> (if t_enqueued (ex_heap (sy_ex sy) q) then 1 else 0) \<and>
    (i < length (ex_workers (sy_ex sy)) \<and> j < length (ex_workers (sy_ex sy)) \<and> i \<noteq> j \<longrightarrow>
      held (ex_workers (sy_ex sy) ! i) \<inter># held (ex_workers (sy_ex sy) ! j) = {#})"
proof -
  let ?ex = "sy_ex sy" and ?ws = "ex_workers (sy_ex sy)"
  have "lock_ok (aims sy) (length (sy_retries sy)) ?ex (hands sy)"
    using interleaved_inv [OF assms] by (simp add: lock_inv_def)
  from lock_okD(5) [OF this]
  have one: "count (placed ?ex + hands sy) r \<le> (if t_enqueued (ex_heap ?ex r) then 1 else 0)" for r
    by (rule le_trans) simp
  moreover have "held (?ws ! i) \<inter># held (?ws ! j) = {#}"
    if "i < length ?ws" "j < length ?ws" "i \<noteq> j"
  proof (rule ccontr)
    assume "held (?ws ! i) \<inter># held (?ws ! j) \<noteq> {#}"
    then obtain r where "r \<in># held (?ws ! i)" "r \<in># held (?ws ! j)"
       by (metis disjunct_not_in)
    then have "2 \<le> count (held (?ws ! i) + held (?ws ! j)) r" by (simp flip: count_greater_zero_iff)
    also have "\<dots> \<le> count (sum_list (map held ?ws)) r" by (rule mset_subset_eq_count [OF held_pair [OF that]])
    also have "\<dots> \<le> count (placed ?ex + hands sy) r" by (simp add: placed_def)
    finally show False using one [of r] by (simp split: if_splits)
  qed
  ultimately show ?thesis by blast
qed

text \<open>A run given as a list of events.\<close>

fun sys_run_ok :: "sys_event list \<Rightarrow> system \<Rightarrow> bool" where
  "sys_run_ok [] sy \<longleftrightarrow> True"
| "sys_run_ok (e # es) sy \<longleftrightarrow> \<not> ex_terminated (sy_ex sy) \<and> sys_ok sy e \<and> sys_run_ok es (sys_apply e sy)"

lemma sys_reach_run: "sys_reach sy0 sy \<Longrightarrow> sys_run_ok es sy \<Longrightarrow> sys_reach sy0 (fold sys_apply es sy)"
  by (induction es arbitrary: sy) (auto intro: sys_reach.step)

definition submission_run :: "string \<Rightarrow> task_id list \<Rightarrow> sys_event list" where
  "submission_run name deps =
     [ISubmit 0 0 (\<lambda>_. Inr AnyEmpty) name (plain_submission deps)] @
     replicate (Suc (length deps)) (IClient always 0)"

definition worker_run :: "nat \<Rightarrow> sys_event list" where
  "worker_run w = [IWorker PLoopHead w, IWorker PPauseCheck w, IWorker (PTake (\<lambda>_ _. True) 1) w,
     IWorker (PExecute demo_clock) w, IWorker PSuccess w]"

text \<open>A task a, a task b, and a task c after both. The scheduler thread takes its list of ready tasks,
  with a in it, after the client's own test of a and is then slow: the client submits a, b and c and
  worker 0 runs a before the scheduler comes to mark it.\<close>

definition stale_start :: "sys_event list" where
  "stale_start = [IStart] @ submission_run ''a'' [] @ replicate 2 (IScheduler always) @
     replicate 2 (IClient always 0) @ submission_run ''b'' [] @ replicate 2 (IClient always 0) @
     submission_run ''c'' [1, 2]"

definition stale_sys :: system where
  "stale_sys = fold sys_apply (stale_start @ worker_run 0) (system_of 1 demo_start)"

definition stale_end :: system where
  "stale_end = fold sys_apply (replicate 2 (IScheduler always) @ worker_run 0 @
     replicate 5 (IScheduler always)) stale_sys"

lemma stale_sys_reach: "sys_reach (system_of 1 (executor_on_pool pool2 (Some zero_metrics))) stale_sys"
  unfolding stale_sys_def demo_start_def [symmetric]
  by (rule sys_reach_run [OF sys_reach.refl]) code_simp

lemma stale_reach: "sys_reach (system_of 1 (executor_on_pool pool2 (Some zero_metrics))) stale_end"
  unfolding stale_end_def by (rule sys_reach_run [OF stale_sys_reach]) code_simp

theorem one_place_at_a_time_witness:
  "2 \<in># placed (sy_ex stale_end) \<and> count (placed (sy_ex stale_end) + hands stale_end) 2 = 1"
proof -
  have facts: "\<not> ex_terminated (sy_ex stale_end)" "2 \<in># placed (sy_ex stale_end)" by code_simp+
  have "count (placed (sy_ex stale_end) + hands stale_end) 2 \<le> 1"
    by (rule le_trans [OF conjunct1 [OF one_place_at_a_time [OF demo_pool stale_reach facts(1)]]]) simp
  moreover from facts(2) have "0 < count (placed (sy_ex stale_end) + hands stale_end) 2" by simp
  ultimately show ?thesis using facts(2) by linarith
qed

text \<open>C29. The scheduler thread marks the tasks of its list without looking at them again. There is a
  run of one client, the scheduler thread and one worker in which a task that allows no retry has
  completed, is put into the pool again and completes a second time; the second completion notifies
  its dependents again, so that a task is put into the pool while another task on which it depends is
  still Pending.\<close>

theorem stale_list_runs_twice:
  "\<exists>sy a b c. sys_reach (system_of 1 (executor_on_pool pool2 (Some zero_metrics))) sy \<and>
     \<not> ex_terminated (sy_ex sy) \<and>
     t_max_retries (ex_heap (sy_ex sy) a) = 0 \<and> t_attempts (ex_heap (sy_ex sy) a) = 2 \<and>
     t_status (ex_heap (sy_ex sy) a) = Completed \<and>
     c \<in># placed (sy_ex sy) \<and> b \<in> set (t_dependencies (ex_heap (sy_ex sy) c)) \<and>
     t_status (ex_heap (sy_ex sy) b) = Pending"
proof -
  have "\<not> ex_terminated (sy_ex stale_end)" "t_max_retries (ex_heap (sy_ex stale_end) 0) = 0"
    "t_attempts (ex_heap (sy_ex stale_end) 0) = 2" "t_status (ex_heap (sy_ex stale_end) 0) = Completed"
    "2 \<in># placed (sy_ex stale_end)" "1 \<in> set (t_dependencies (ex_heap (sy_ex stale_end) 2))"
    "t_status (ex_heap (sy_ex stale_end) 1) = Pending" by code_simp+
  with stale_reach show ?thesis by blast
qed

end
