(* ===== verification/Executor_Fresh.thy ===== *)
theory Executor_Fresh
  imports Executor_Interleaving
begin

section \<open>Interleavings in which every mark is fresh\<close>

text \<open>
  Executor_Interleaving has two ways to leave the order that dependencies prescribe: a thread marks a
  task that it saw ready some time ago, and the scheduler thread marks a task whose submission is
  still adding dependencies. Here they are shown to be the only two: in every interleaving in which a
  thread that marks a task for the pool finds it ready at that moment and not under construction, the
  invariant of Executor_Safety holds together with the lock of Executor_Interleaving, and so do the
  order and the bound on attempts, for retries and submissions cut into all their steps.
\<close>

subsection \<open>Fresh runs\<close>

fun builds :: "client \<Rightarrow> task_ptr set" where
  "builds (CDepend tid p deps) = {p}"
| "builds c = {}"

text \<open>Marking fails, or the task is ready and complete.\<close>

definition mark_fresh :: "system \<Rightarrow> task_ptr \<Rightarrow> bool" where
  "mark_fresh sy p \<longleftrightarrow> t_enqueued (ex_heap (sy_ex sy) p) \<or>
     is_ready (ex_heap (sy_ex sy) p) \<and> (\<forall>c \<in> set (sy_clients sy). p \<notin> builds c)"

fun fresh :: "system \<Rightarrow> sys_event \<Rightarrow> bool" where
  "fresh sy (ISubmit i now func name sub) \<longleftrightarrow>
     ex_next_task_id (sy_ex sy) \<noteq> UINT64_MAX \<and> opt_max_retries (sub_options sub) < UINT64_MAX"
| "fresh sy (ISubmitAsync i now func name deps opts user) \<longleftrightarrow>
     ex_next_task_id (sy_ex sy) \<noteq> UINT64_MAX \<and> opt_max_retries opts < UINT64_MAX"
| "fresh sy (IClient cas i) \<longleftrightarrow> (case sy_clients sy ! i of CMark p \<Rightarrow> mark_fresh sy p | _ \<Rightarrow> True)"
| "fresh sy (IScheduler cas) \<longleftrightarrow> (case sy_sched sy of SMark (p # ps) \<Rightarrow> mark_fresh sy p | _ \<Rightarrow> True)"
| "fresh sy (IRetry cas w) \<longleftrightarrow> (case sy_retries sy ! w of RMark p \<Rightarrow> mark_fresh sy p | _ \<Rightarrow> True)"
| "fresh sy e \<longleftrightarrow> True"

inductive fresh_reach :: "system \<Rightarrow> system \<Rightarrow> bool" for sy0 :: system where
  refl: "fresh_reach sy0 sy0"
| step: "fresh_reach sy0 sy \<Longrightarrow> \<not> ex_terminated (sy_ex sy) \<Longrightarrow> sys_ok sy e \<Longrightarrow> fresh sy e \<Longrightarrow>
    fresh_reach sy0 (sys_apply e sy)"

lemma fresh_sys_reach: "fresh_reach sy0 sy \<Longrightarrow> sys_reach sy0 sy"
  by (induction rule: fresh_reach.induct) (auto intro: sys_reach.intros)

subsection \<open>The invariant\<close>

text \<open>A task under construction has not been marked, run or finished.\<close>

fun client_ok :: "executor \<Rightarrow> client \<Rightarrow> bool" where
  "client_ok ex (CDepend tid p deps) \<longleftrightarrow> map_of (g_tasks (ex_graph ex)) tid = Some p \<and>
     \<not> t_enqueued (ex_heap ex p) \<and> \<not> terminal (t_status (ex_heap ex p)) \<and> t_attempts (ex_heap ex p) = 0"
| "client_ok ex c \<longleftrightarrow> True"

definition fresh_inv :: "system \<Rightarrow> bool" where
  "fresh_inv sy \<longleftrightarrow> lock_inv sy \<and> ex_inv (sy_ex sy) \<and>
     (\<forall>q \<in># hands sy. q \<in> ex_ptrs (sy_ex sy) \<and>
        unat (t_attempts (ex_heap (sy_ex sy) q)) \<le> unat (t_max_retries (ex_heap (sy_ex sy) q))) \<and>
     aims sy \<subseteq> ex_ptrs (sy_ex sy) \<and> (\<forall>c \<in> set (sy_clients sy). client_ok (sy_ex sy) c)"

lemma fresh_invD:
  assumes "fresh_inv sy"
  shows "lock_inv sy" "ex_inv (sy_ex sy)" "q \<in># hands sy \<Longrightarrow> q \<in> ex_ptrs (sy_ex sy)"
    "q \<in># hands sy \<Longrightarrow> unat (t_attempts (ex_heap (sy_ex sy) q)) \<le> unat (t_max_retries (ex_heap (sy_ex sy) q))"
    "aims sy \<subseteq> ex_ptrs (sy_ex sy)" "c \<in> set (sy_clients sy) \<Longrightarrow> client_ok (sy_ex sy) c"
  using assms unfolding fresh_inv_def by blast+

text \<open>What a step leaves alone: every task outside \<open>X\<close> keeps its mark, its attempts and its options,
  and does not come to an end; the graph keeps its tasks.\<close>

definition spares :: "task_ptr set \<Rightarrow> executor \<Rightarrow> executor \<Rightarrow> bool" where
  "spares X ex ex' \<longleftrightarrow>
     (\<forall>tid p. map_of (g_tasks (ex_graph ex)) tid = Some p \<longrightarrow> map_of (g_tasks (ex_graph ex')) tid = Some p) \<and>
     ex_ptrs ex \<subseteq> ex_ptrs ex' \<and>
     (\<forall>q. q \<notin> X \<longrightarrow> t_enqueued (ex_heap ex' q) = t_enqueued (ex_heap ex q) \<and>
        t_attempts (ex_heap ex' q) = t_attempts (ex_heap ex q) \<and>
        t_options (ex_heap ex' q) = t_options (ex_heap ex q) \<and>
        (terminal (t_status (ex_heap ex' q)) \<longrightarrow> terminal (t_status (ex_heap ex q))))"

lemma spares_refl [simp]: "spares X ex ex"
  by (simp add: spares_def)

lemma spares_same: "g_tasks (ex_graph ex') = g_tasks (ex_graph ex) \<Longrightarrow> ex_heap ex' = ex_heap ex \<Longrightarrow> spares X ex ex'"
  by (simp add: spares_def)

lemma spares_trans: "spares X ex ex1 \<Longrightarrow> spares X ex1 ex2 \<Longrightarrow> spares X ex ex2"
  unfolding spares_def by (elim conjE, intro conjI allI impI) (blast, blast, simp_all)

lemma spares_core: "same_core ex ex' \<Longrightarrow> spares X ex ex'"
  by (rule spares_same) (simp_all add: same_core_def)

text \<open>A step of the system keeps the invariant when the executor's invariant holds afterwards and
  what it does not spare is neither in a hand nor under construction.\<close>

lemma fresh_step:
  assumes inv: "fresh_inv sy" and lock: "lock_inv sy'" and ex: "ex_inv (sy_ex sy')"
    and spares: "spares X (sy_ex sy) (sy_ex sy')"
    and hands: "\<And>q. q \<in># hands sy' \<Longrightarrow> q \<in># hands sy \<and> q \<notin> X \<or> q \<in> ex_ptrs (sy_ex sy') \<and>
      unat (t_attempts (ex_heap (sy_ex sy') q)) \<le> unat (t_max_retries (ex_heap (sy_ex sy') q))"
    and aims: "aims sy' \<subseteq> ex_ptrs (sy_ex sy')"
    and clients: "\<And>c. c \<in> set (sy_clients sy') \<Longrightarrow>
      c \<in> set (sy_clients sy) \<and> builds c \<inter> X = {} \<or> client_ok (sy_ex sy') c"
  shows "fresh_inv sy'"
proof -
  have "q \<in> ex_ptrs (sy_ex sy') \<and>
      unat (t_attempts (ex_heap (sy_ex sy') q)) \<le> unat (t_max_retries (ex_heap (sy_ex sy') q))"
    if q: "q \<in># hands sy'" for q
    using hands [OF q] fresh_invD(3,4) [OF inv, of q] spares unfolding spares_def by auto
  moreover have "client_ok (sy_ex sy') c" if c: "c \<in> set (sy_clients sy')" for c
  proof (cases "c \<in> set (sy_clients sy) \<and> builds c \<inter> X = {}")
    case True
    then have "client_ok (sy_ex sy) c" by (intro fresh_invD(6) [OF inv]) simp
    with True spares show ?thesis by (cases c) (auto simp: spares_def)
  next
    case False
    with clients [OF c] show ?thesis by blast
  qed
  ultimately show ?thesis using lock ex aims unfolding fresh_inv_def by blast
qed

text \<open>A task that is placed or in a hand is not under construction, and no placed task is in a hand.\<close>

lemma marked_not_built:
  assumes inv: "fresh_inv sy" and q: "q \<in># placed (sy_ex sy) + hands sy" and c: "c \<in> set (sy_clients sy)"
  shows "q \<notin> builds c"
proof
  assume "q \<in> builds c"
  then obtain tid deps where "c = CDepend tid q deps" by (cases c) auto
  with fresh_invD(6) [OF inv c] have "\<not> t_enqueued (ex_heap (sy_ex sy) q)" by simp
  with lock_ok_member [OF lock_inv_ok [OF fresh_invD(1) [OF inv]] q] show False by simp
qed

lemma placed_not_in_hand:
  assumes inv: "fresh_inv sy" and "q \<in># placed (sy_ex sy)"
  shows "q \<notin># hands sy"
proof
  assume "q \<in># hands sy"
  with assms(2) have "2 \<le> count (placed (sy_ex sy) + hands sy) q" by (simp flip: count_greater_zero_iff)
  moreover have "q \<in># placed (sy_ex sy) + hands sy" using assms(2) by simp
  ultimately show False
    using lock_ok_member [OF lock_inv_ok [OF fresh_invD(1) [OF inv]], of q] by simp
qed

subsection \<open>What each operation spares\<close>

lemma spares_ptr: "p \<in> X \<Longrightarrow> spares X ex (on_ptr p f ex)"
  by (auto simp: spares_def on_ptr_def on_task_def)

lemma spares_set_worker [simp]: "spares X ex (set_worker w st ex') = spares X ex ex'"
  by (simp add: spares_def set_worker_def)

lemma spares_add_dependency: "spares X ex (on_graph (graph_add_dependency tid dep) ex)"
  by (auto simp: spares_def on_graph_def graph_add_dependency_def add_dep_heap add_dependency_frame
      split: option.splits)

lemma spares_notify: "spares X ex (on_graph (notify_task_completed tid) ex)"
  by (auto simp: spares_def on_graph_def notify_task_completed_def fold_on_task notify_pow notify_pow_frame
      terminal_def split: option.splits if_splits)

lemma spares_finish: "p \<in> X \<Longrightarrow> spares X ex (on_ptr p f (on_graph (notify_task_completed tid) ex))"
  by (rule spares_trans [OF spares_notify spares_ptr])

lemma spares_part:
  assumes inv: "ex_inv ex" and w: "w < length (ex_workers ex)"
  shows "\<exists>X. X \<subseteq> set_mset (placed ex) \<and> spares X ex (worker_part part w ex)"
proof (cases part)
  case (PTake cas now)
  show ?thesis
  proof (cases "ex_workers ex ! w = Searching")
    case True
    obtain pool r where found: "find_task cas (ex_pool ex) w = (pool, r)" by fastforce
    have w': "w < unat (pl_num_threads (ex_pool ex))" using w ex_invD(2) [OF inv] by simp
    show ?thesis
    proof (cases r)
      case None
      with found True have "spares {} ex (worker_part part w ex)"
        by (simp add: PTake worker_take_def) (simp add: spares_def)
      then show ?thesis by blast
    next
      case (Some p)
      with found have step: "find_task cas (ex_pool ex) w = (pool, Some p)" by simp
      from find_task_Some [OF ex_invD(1) [OF inv] w' step] have "p \<in># placed ex"
        by (simp add: placed_def pool_items_def)
      moreover have "spares {p} ex (worker_part part w ex)"
        using True step
        by (auto simp: PTake worker_take_def Let_def on_start_def monitored_def spares_def on_ptr_def on_task_def
            set_worker_def execute_begin_def)
      ultimately show ?thesis by blast
    qed
  next
    case False
    then have "worker_part part w ex = ex" by (cases "ex_workers ex ! w") (simp_all add: PTake worker_take_def)
    then show ?thesis by (intro exI [of _ "{}"]) simp
  qed
next
  case (PExecute c)
  show ?thesis
  proof (cases "ex_workers ex ! w")
    case (Executing p)
    then have "p \<in># placed ex" using held_placed [OF w] by simp
    moreover have "spares {p} ex (worker_part part w ex)"
      by (cases "execute_end c (ex_heap ex p)")
        (auto simp: PExecute worker_execute_def Executing spares_ptr split: sum.splits)
    ultimately show ?thesis by blast
  qed (auto simp: PExecute worker_execute_def intro: exI [of _ "{}"])
next
  case PSuccess
  show ?thesis
  proof (cases "ex_workers ex ! w")
    case (Returned p result)
    then have mem: "p \<in># placed ex" using held_placed [OF w] by simp
    from task_okD(7) [OF ex_invD(4) [OF inv placed_enqueued(1) [OF inv mem]]] obtain cb where
      cb: "t_callback (ex_heap ex p) = Some (ExecutorCallback (t_id (ex_heap ex p)) p cb)" by blast
    obtain ex' r where run: "on_success p result ex = (ex', r)" by fastforce
    let ?ex = "monitored (record_completion (execution_time (ex_heap ex p))) ex"
    have "run_task_callback (ExecutorCallback (t_id (ex_heap ex p)) p cb) result ?ex = (ex', r)"
      using run by (simp add: on_success_def invoke_callback_def monitored_def cb)
    from callback_cases [OF this] obtain ex1 where core: "same_core ?ex ex1"
      and r: "ex' = ex1 \<or> ex' = clear_if_alive p (on_graph (notify_task_completed (t_id (ex_heap ex p))) ex1)"
      by blast
    have "spares {p} ex ex1"
      by (rule spares_trans [OF spares_core [OF same_core_monitored] spares_core [OF core]])
    then have "spares {p} ex ex'"
      using r spares_trans [OF _ spares_notify] spares_trans [OF _ spares_finish [of p "{p}"]]
      by (auto simp: clear_if_alive_def)
    then have "spares {p} ex (worker_part part w ex)"
      by (cases r) (simp_all add: PSuccess worker_success_def Returned run)
    with mem show ?thesis by blast
  qed (auto simp: PSuccess worker_success_def intro: exI [of _ "{}"])
qed (cases "ex_workers ex ! w"; auto simp: worker_loop_head_def worker_pause_check_def worker_wake_def
    intro: exI [of _ "{}"])+

lemma part_inv:
  assumes inv: "ex_inv ex" and w: "w < length (ex_workers ex)"
  shows "ex_inv (worker_part part w ex)"
proof (cases part)
  case PLoopHead
  then show ?thesis
    using evolves_inv [OF idle_move [OF inv w]] inv by (cases "ex_workers ex ! w") (simp_all add: worker_loop_head_def)
next
  case PPauseCheck
  then show ?thesis
    using evolves_inv [OF idle_move [OF inv w]] inv by (cases "ex_workers ex ! w") (simp_all add: worker_pause_check_def)
next
  case PWake
  then show ?thesis
    using evolves_inv [OF idle_move [OF inv w]] inv by (cases "ex_workers ex ! w") (simp_all add: worker_wake_def)
qed (use worker_take_evolves [OF inv w] worker_execute_evolves [OF inv w] worker_success_evolves [OF inv w]
    in \<open>auto dest: evolves_inv\<close>)

subsection \<open>Every fresh step keeps the invariant\<close>

lemma hands_client: "q \<in># hands (set_client i c (sy\<lparr>sy_ex := ex\<rparr>)) \<Longrightarrow> q \<in># hands sy \<or> q \<in># client_hand c"
  using set_update_subset_insert [of "sy_clients sy" i c]
  by (auto simp: hands_def set_client_def in_sum_list_mset)

lemma hands_retry: "q \<in># hands (set_retry w r (sy\<lparr>sy_ex := ex\<rparr>)) \<Longrightarrow> q \<in># hands sy \<or> q \<in># retry_hand r"
  using set_update_subset_insert [of "sy_retries sy" w r]
  by (auto simp: hands_def set_retry_def in_sum_list_mset)

lemma hands_scheduler: "q \<in># hands (sy\<lparr>sy_ex := ex, sy_sched := s\<rparr>) \<Longrightarrow> q \<in># hands sy \<or> q \<in># scheduler_hand s"
  by (auto simp: hands_def)

lemma in_set_client: "c' \<in> set (sy_clients (set_client i c sy)) \<Longrightarrow> c' \<in> set (sy_clients sy) \<or> c' = c"
  using set_update_subset_insert [of "sy_clients sy" i c] by (auto simp: set_client_def)

lemma fresh_mark:
  assumes inv: "fresh_inv sy" and p: "p \<in> ex_ptrs (sy_ex sy)" and fresh: "mark_fresh sy p"
    and mark: "try_mark_enqueued (ex_heap (sy_ex sy) p) = (t, r)"
  defines "ex' \<equiv> on_ptr p (\<lambda>_. t) (sy_ex sy)" and "X \<equiv> (if r then {p} else {})"
  shows "ex_inv ex'" "spares X (sy_ex sy) ex'" "q \<in># hands sy \<Longrightarrow> q \<notin> X" "c \<in> set (sy_clients sy) \<Longrightarrow> builds c \<inter> X = {}"
    "r \<Longrightarrow> p \<in> ex_ptrs ex' \<and> unat (t_attempts (ex_heap ex' p)) \<le> unat (t_max_retries (ex_heap ex' p))"
proof -
  let ?ex = "sy_ex sy"
  note einv = fresh_invD(2) [OF inv]
  have yes: "is_ready (ex_heap ?ex p) \<and> (\<forall>c \<in> set (sy_clients sy). p \<notin> builds c) \<and>
      ex' = on_ptr p (\<lambda>t. t\<lparr>t_enqueued := True\<rparr>) ?ex \<and> \<not> t_enqueued (ex_heap ?ex p)" if r
    using that fresh mark
    by (auto simp: mark_fresh_def try_mark_enqueued_def ex'_def on_ptr_def on_task_def split: if_splits)
  have no: "ex' = ?ex" if "\<not> r"
    using that mark by (auto simp: try_mark_enqueued_def ex'_def on_ptr_def on_task_def split: if_splits)
  show "ex_inv ex'" using yes no mark_evolves(1) [OF einv p] einv evolves_inv by metis
  show "spares X ?ex ex'" using no by (cases r) (simp_all add: X_def ex'_def spares_ptr)
  show "q \<notin> X" if "q \<in># hands sy"
  proof
    assume "q \<in> X"
    then have "r" "q = p" by (simp_all add: X_def split: if_splits)
    moreover have "t_enqueued (ex_heap ?ex q)"
      using lock_ok_member [OF lock_inv_ok [OF fresh_invD(1) [OF inv]], of q] that by simp
    ultimately show False using yes by simp
  qed
  show "builds c \<inter> X = {}" if "c \<in> set (sy_clients sy)" using yes that by (auto simp: X_def)
  show "p \<in> ex_ptrs ex' \<and> unat (t_attempts (ex_heap ex' p)) \<le> unat (t_max_retries (ex_heap ex' p))" if r
    using yes [OF that] mark_evolves(3) [OF einv p] p by (simp add: on_ptr_def)
qed

lemma fresh_put:
  assumes inv: "fresh_inv sy" and p: "p \<in># hands sy" and put: "submit_to_pool cas p (sy_ex sy) = (ex', r)"
  shows "ex_inv ex'" "spares {} (sy_ex sy) ex'" "ex_ptrs ex' = ex_ptrs (sy_ex sy)"
proof -
  have "t_enqueued (ex_heap (sy_ex sy) p)"
    using lock_ok_member [OF lock_inv_ok [OF fresh_invD(1) [OF inv]], of p] p by simp
  moreover have "p \<notin># placed (sy_ex sy)" using placed_not_in_hand [OF inv, of p] p by blast
  ultimately have "evolves (ex_ptrs (sy_ex sy)) (sy_ex sy) ex'" "ex_heap ex' = ex_heap (sy_ex sy)"
    "g_tasks (ex_graph ex') = g_tasks (ex_graph (sy_ex sy))"
    using put_evolves [OF fresh_invD(2) [OF inv] fresh_invD(3) [OF inv p] _ _ fresh_invD(4) [OF inv p] put] by blast+
  then show "ex_inv ex'" "spares {} (sy_ex sy) ex'" "ex_ptrs ex' = ex_ptrs (sy_ex sy)"
    by (simp_all add: evolves_inv spares_same)
qed

lemma aims_client: "aims (set_client i c (sy\<lparr>sy_ex := ex\<rparr>)) \<subseteq> aims sy \<union> client_aims c"
  using set_update_subset_insert [of "sy_clients sy" i c] by (auto simp: aims_def set_client_def)

lemma aims_retry: "aims (set_retry w r (sy\<lparr>sy_ex := ex\<rparr>)) \<subseteq> aims sy \<union> retry_aims r"
  using set_update_subset_insert [of "sy_retries sy" w r] by (auto simp: aims_def set_retry_def)

lemma spares_aims: "fresh_inv sy \<Longrightarrow> spares X (sy_ex sy) ex' \<Longrightarrow> aims sy \<subseteq> ex_ptrs ex'"
  by (rule order_trans [OF fresh_invD(5)]) (simp_all add: spares_def)

text \<open>The three kinds of thread move.\<close>

definition untouched :: "task_ptr set \<Rightarrow> system \<Rightarrow> bool" where
  "untouched X sy \<longleftrightarrow> (\<forall>q \<in># hands sy. q \<notin> X) \<and> (\<forall>c \<in> set (sy_clients sy). builds c \<inter> X = {})"

definition may_hold :: "executor \<Rightarrow> task_ptr multiset \<Rightarrow> bool" where
  "may_hold ex H \<longleftrightarrow> (\<forall>q \<in># H. q \<in> ex_ptrs ex \<and>
     unat (t_attempts (ex_heap ex q)) \<le> unat (t_max_retries (ex_heap ex q)))"

lemma untouched_empty [simp]: "untouched {} sy"
  by (simp add: untouched_def)

lemma may_hold_empty [simp]: "may_hold ex {#}"
  by (simp add: may_hold_def)

lemma fresh_client_move:
  assumes inv: "fresh_inv sy" and lock: "lock_inv (set_client i c (sy\<lparr>sy_ex := ex'\<rparr>))"
    and ex: "ex_inv ex'" "spares X (sy_ex sy) ex'" "untouched X sy"
    and c: "may_hold ex' (client_hand c)" "client_aims c \<subseteq> ex_ptrs ex'" "client_ok ex' c"
  shows "fresh_inv (set_client i c (sy\<lparr>sy_ex := ex'\<rparr>))"
proof (rule fresh_step [OF inv lock, where X = X])
  let ?sy = "set_client i c (sy\<lparr>sy_ex := ex'\<rparr>)"
  have sel: "sy_ex ?sy = ex'" by (simp add: set_client_def)
  show "ex_inv (sy_ex ?sy)" "spares X (sy_ex sy) (sy_ex ?sy)" unfolding sel by (rule ex)+
  show "q \<in># hands sy \<and> q \<notin> X \<or> q \<in> ex_ptrs (sy_ex ?sy) \<and>
      unat (t_attempts (ex_heap (sy_ex ?sy) q)) \<le> unat (t_max_retries (ex_heap (sy_ex ?sy) q))"
    if "q \<in># hands ?sy" for q
    using hands_client [OF that] ex(3) c(1) unfolding sel untouched_def may_hold_def by blast
  show "aims ?sy \<subseteq> ex_ptrs (sy_ex ?sy)"
    using aims_client [of i c ex' sy] spares_aims [OF inv ex(2)] c(2) unfolding sel by blast
  show "c' \<in> set (sy_clients sy) \<and> builds c' \<inter> X = {} \<or> client_ok (sy_ex ?sy) c'"
    if "c' \<in> set (sy_clients ?sy)" for c'
    using in_set_client [OF that] ex(3) c(3) unfolding sel untouched_def by auto
qed

lemma fresh_retry_move:
  assumes inv: "fresh_inv sy" and lock: "lock_inv (set_retry w r (sy\<lparr>sy_ex := ex'\<rparr>))"
    and ex: "ex_inv ex'" "spares X (sy_ex sy) ex'" "untouched X sy"
    and r: "may_hold ex' (retry_hand r)" "retry_aims r \<subseteq> ex_ptrs ex'"
  shows "fresh_inv (set_retry w r (sy\<lparr>sy_ex := ex'\<rparr>))"
proof (rule fresh_step [OF inv lock, where X = X])
  let ?sy = "set_retry w r (sy\<lparr>sy_ex := ex'\<rparr>)"
  have sel: "sy_ex ?sy = ex'" "sy_clients ?sy = sy_clients sy" by (simp_all add: set_retry_def)
  show "ex_inv (sy_ex ?sy)" "spares X (sy_ex sy) (sy_ex ?sy)" unfolding sel by (rule ex)+
  show "q \<in># hands sy \<and> q \<notin> X \<or> q \<in> ex_ptrs (sy_ex ?sy) \<and>
      unat (t_attempts (ex_heap (sy_ex ?sy) q)) \<le> unat (t_max_retries (ex_heap (sy_ex ?sy) q))"
    if "q \<in># hands ?sy" for q
    using hands_retry [OF that] ex(3) r(1) unfolding sel untouched_def may_hold_def by blast
  show "aims ?sy \<subseteq> ex_ptrs (sy_ex ?sy)"
    using aims_retry [of w r ex' sy] spares_aims [OF inv ex(2)] r(2) unfolding sel by blast
qed (use ex(3) in \<open>auto simp: untouched_def set_retry_def\<close>)

lemma fresh_scheduler_move:
  assumes inv: "fresh_inv sy" and lock: "lock_inv (sy\<lparr>sy_ex := ex', sy_sched := s\<rparr>)"
    and ex: "ex_inv ex'" "spares X (sy_ex sy) ex'" "untouched X sy"
    and s: "may_hold ex' (scheduler_hand s)" "scheduler_aims s \<subseteq> ex_ptrs ex'"
  shows "fresh_inv (sy\<lparr>sy_ex := ex', sy_sched := s\<rparr>)"
proof (rule fresh_step [OF inv lock, where X = X])
  let ?sy = "sy\<lparr>sy_ex := ex', sy_sched := s\<rparr>"
  show "q \<in># hands sy \<and> q \<notin> X \<or> q \<in> ex_ptrs (sy_ex ?sy) \<and>
      unat (t_attempts (ex_heap (sy_ex ?sy) q)) \<le> unat (t_max_retries (ex_heap (sy_ex ?sy) q))"
    if "q \<in># hands ?sy" for q
    using hands_scheduler [OF that] ex(3) s(1) unfolding untouched_def may_hold_def by auto
  show "aims ?sy \<subseteq> ex_ptrs (sy_ex ?sy)"
    using spares_aims [OF inv ex(2)] s(2) by (auto simp: aims_def)
qed (use ex in \<open>auto simp: untouched_def\<close>)

lemma fresh_executor_move:
  assumes inv: "fresh_inv sy" and lock: "lock_inv (sy\<lparr>sy_ex := ex'\<rparr>)"
    and ex: "ex_inv ex'" "spares X (sy_ex sy) ex'" "untouched X sy"
  shows "fresh_inv (sy\<lparr>sy_ex := ex'\<rparr>)"
proof (rule fresh_step [OF inv lock, where X = X])
  show "aims (sy\<lparr>sy_ex := ex'\<rparr>) \<subseteq> ex_ptrs (sy_ex (sy\<lparr>sy_ex := ex'\<rparr>))"
    using spares_aims [OF inv ex(2)] by (simp add: aims_def)
qed (use ex in \<open>auto simp: untouched_def hands_def\<close>)

lemma mark_untouched:
  assumes "fresh_inv sy" and "p \<in> ex_ptrs (sy_ex sy)" and "mark_fresh sy p"
    and "try_mark_enqueued (ex_heap (sy_ex sy) p) = (t, r)"
  shows "untouched (if r then {p} else {}) sy"
  using fresh_mark(3,4) [OF assms] unfolding untouched_def by blast

text \<open>What is placed is neither in a hand nor under construction.\<close>

lemma placed_untouched:
  assumes inv: "fresh_inv sy" and "X \<subseteq> set_mset (placed (sy_ex sy))"
  shows "untouched X sy"
  unfolding untouched_def
proof (intro conjI ballI)
  show "q \<notin> X" if "q \<in># hands sy" for q
    using placed_not_in_hand [OF inv, of q] assms(2) that by blast
  show "builds c \<inter> X = {}" if "c \<in> set (sy_clients sy)" for c
  proof (rule equals0I)
    fix q assume "q \<in> builds c \<inter> X"
    with assms(2) have "q \<in># placed (sy_ex sy) + hands sy" "q \<in> builds c" by auto
    with marked_not_built [OF inv _ that] show False by blast
  qed
qed

lemma client_fresh:
  assumes inv: "fresh_inv sy" and i: "i < length (sy_clients sy)" and fresh: "fresh sy (IClient cas i)"
    and live: "\<not> ex_terminated (sy_ex (client_step cas i sy))"
  shows "fresh_inv (client_step cas i sy)"
proof -
  let ?ex = "sy_ex sy"
  have lock: "lock_inv (client_step cas i sy)" using client_step_inv [OF fresh_invD(1) [OF inv] i] live by blast
  have c: "sy_clients sy ! i \<in> set (sy_clients sy)" using i by simp
  have "client_aims (sy_clients sy ! i) \<subseteq> aims sy" using c by (auto simp: aims_def)
  then have aim: "client_aims (sy_clients sy ! i) \<subseteq> ex_ptrs ?ex" using fresh_invD(5) [OF inv] by blast
  note move = fresh_client_move [OF inv] and einv = fresh_invD(2) [OF inv]
  show ?thesis
  proof (cases "sy_clients sy ! i")
    case CIdle
    then show ?thesis using inv by (simp add: client_step_def)
  next
    case (CDepend tid p deps)
    note cok = fresh_invD(6) [OF inv c, unfolded CDepend]
    show ?thesis
    proof (cases deps)
      case Nil
      then have sy: "client_step cas i sy =
          set_client i (if is_ready (ex_heap ?ex p) then CMark p else CIdle) (sy\<lparr>sy_ex := ?ex\<rparr>)"
        by (simp add: client_step_def CDepend Let_def)
      show ?thesis
        unfolding sy by (rule move [OF lock [unfolded sy] einv, of "{}"]) (use aim CDepend in simp_all)
    next
      case (Cons dep rest)
      let ?ex' = "on_graph (graph_add_dependency tid dep) ?ex"
      have sy: "client_step cas i sy = set_client i (CDepend tid p rest) (sy\<lparr>sy_ex := ?ex'\<rparr>)"
        using Cons by (simp add: client_step_def CDepend Let_def)
      from cok have dep: "map_of (g_tasks (ex_graph ?ex)) tid = Some p" "\<not> t_enqueued (ex_heap ?ex p)"
        "\<not> terminal (t_status (ex_heap ?ex p))" "t_attempts (ex_heap ?ex p) = 0" by simp_all
      note law = add_dependency_evolves [OF einv dep, of dep]
      show ?thesis
        unfolding sy
        by (rule move [OF lock [unfolded sy] evolves_inv [OF law(1)] spares_add_dependency, of "{}"])
          (use law aim dep CDepend in simp_all)
    qed
  next
    case (CMark p)
    obtain t r where mark: "try_mark_enqueued (ex_heap ?ex p) = (t, r)" by fastforce
    have p: "p \<in> ex_ptrs ?ex" "mark_fresh sy p" using aim fresh CMark by simp_all
    have sy: "client_step cas i sy = set_client i (if r then CPut p else CIdle) (sy\<lparr>sy_ex := on_ptr p (\<lambda>_. t) ?ex\<rparr>)"
      by (simp add: client_step_def CMark mark Let_def)
    show ?thesis
      unfolding sy
      by (rule move [OF lock [unfolded sy] fresh_mark(1,2) [OF inv p mark] mark_untouched [OF inv p mark]])
        (use fresh_mark(5) [OF inv p mark] in \<open>cases r; simp add: may_hold_def\<close>)+
  next
    case (CPut p)
    obtain ex' r where put: "submit_to_pool cas p ?ex = (ex', r)" by fastforce
    have "p \<in># hands sy" using c CPut by (force simp: hands_def in_sum_list_mset)
    note law = fresh_put [OF inv this put]
    have sy: "client_step cas i sy = set_client i CIdle (sy\<lparr>sy_ex := ex'\<rparr>)"
      using live by (cases r) (simp_all add: client_step_def CPut put terminate_def Let_def split: unit.splits)
    show ?thesis unfolding sy by (rule move [OF lock [unfolded sy] law(1,2)]) simp_all
  next
    case CJoin
    have move: "fresh_inv (set_client i CShutdown sy')"
      if "fresh_inv sy'" "lock_inv (set_client i CShutdown sy')" "sy_ex sy' = ?ex" for sy'
    proof -
      have same: "sy'\<lparr>sy_ex := ?ex\<rparr> = sy'" unfolding that(3) [symmetric] by simp
      show ?thesis
        using fresh_client_move [OF that(1), of i CShutdown ?ex "{}"] that(2) einv
        unfolding same that(3) by simp
    qed
    have "lock_inv (sy\<lparr>sy_ex := ?ex, sy_sched := SNone\<rparr>)" if "sy_sched sy = SExited"
      by (rule scheduler_moves [OF lock_inv_ok [OF fresh_invD(1) [OF inv]]]) (simp_all add: that)
    then have "fresh_inv (sy\<lparr>sy_sched := SNone\<rparr>)" if "sy_sched sy = SExited"
      using fresh_scheduler_move [OF inv, of SNone ?ex "{}"] einv that by simp
    then show ?thesis
      using lock inv move [of sy] move [of "sy\<lparr>sy_sched := SNone\<rparr>"]
      by (simp add: client_step_def CJoin Let_def split: if_splits)
  next
    case CShutdown
    let ?ex' = "?ex\<lparr>ex_pool := pool_shutdown (ex_pool ?ex)\<rparr>"
    have sy: "client_step cas i sy = set_client i CIdle (sy\<lparr>sy_ex := ?ex'\<rparr>)"
      by (simp add: client_step_def CShutdown Let_def)
    have "evolves (ex_ptrs ?ex) ?ex ?ex'"
      by (rule pool_only [OF einv, where pool = "pool_shutdown (ex_pool ?ex)" and b = "ex_scheduler_running ?ex"])
        (use ex_invD(1) [OF einv] in \<open>simp_all add: pool_shutdown_def pool_items_def\<close>)
    then show ?thesis
      unfolding sy by (intro move [OF lock [unfolded sy] evolves_inv spares_same, of _ _ "{}"]) simp_all
  qed
qed


lemma scheduler_fresh:
  assumes inv: "fresh_inv sy" and fresh: "fresh sy (IScheduler cas)"
    and live: "\<not> ex_terminated (sy_ex (scheduler_step cas sy))"
  shows "fresh_inv (scheduler_step cas sy)"
proof -
  let ?ex = "sy_ex sy"
  have lock: "lock_inv (scheduler_step cas sy)" using scheduler_step_inv [OF fresh_invD(1) [OF inv]] live by blast
  have aim: "scheduler_aims (sy_sched sy) \<subseteq> ex_ptrs ?ex" using fresh_invD(5) [OF inv] by (auto simp: aims_def)
  note move = fresh_scheduler_move [OF inv] and einv = fresh_invD(2) [OF inv]
  have stay: "fresh_inv (sy\<lparr>sy_sched := s\<rparr>)"
    if "lock_inv (sy\<lparr>sy_sched := s\<rparr>)" "scheduler_hand s = {#}" "scheduler_aims s \<subseteq> ex_ptrs ?ex" for s
    using move [of s ?ex "{}"] that einv by simp
  show ?thesis
  proof (cases "sy_sched sy")
    case SSnapshot
    have "set (get_ready_tasks (ex_graph ?ex)) \<subseteq> ex_ptrs ?ex" by (force simp: get_ready_tasks_def)
    then show ?thesis
      using lock stay [of "SMark (get_ready_tasks (ex_graph ?ex))"] by (simp add: scheduler_step_def SSnapshot Let_def)
  next
    case (SMark todo)
    show ?thesis
    proof (cases todo)
      case Nil
      then show ?thesis using lock stay [of SLoop] by (simp add: scheduler_step_def SMark Let_def)
    next
      case (Cons p ps)
      obtain t r where mark: "try_mark_enqueued (ex_heap ?ex p) = (t, r)" by fastforce
      have p: "p \<in> ex_ptrs ?ex" "mark_fresh sy p" using aim fresh SMark Cons by simp_all
      have sy: "scheduler_step cas sy = sy\<lparr>sy_ex := on_ptr p (\<lambda>_. t) ?ex, sy_sched := if r then SPut p ps else SMark ps\<rparr>"
        by (simp add: scheduler_step_def SMark Cons mark Let_def)
      have "set ps \<subseteq> ex_ptrs (on_ptr p (\<lambda>_. t) ?ex)" using aim SMark Cons by (simp add: on_ptr_def)
      then show ?thesis
        unfolding sy
        by (intro move [OF lock [unfolded sy] fresh_mark(1,2) [OF inv p mark] mark_untouched [OF inv p mark]])
          (use fresh_mark(5) [OF inv p mark] in \<open>cases r; simp add: may_hold_def\<close>)+
    qed
  next
    case (SPut p ps)
    obtain ex' r where put: "submit_to_pool cas p ?ex = (ex', r)" by fastforce
    have "p \<in># hands sy" using SPut by (simp add: hands_def)
    note law = fresh_put [OF inv this put]
    have sy: "scheduler_step cas sy = sy\<lparr>sy_ex := ex', sy_sched := SMark ps\<rparr>"
      using live by (cases r) (simp_all add: scheduler_step_def SPut put terminate_def Let_def split: unit.splits)
    show ?thesis
      unfolding sy by (rule move [OF lock [unfolded sy] law(1,2)]) (use aim SPut law(3) in simp_all)
  qed (use inv lock stay [of SSnapshot] stay [of SExited] in \<open>simp_all add: scheduler_step_def Let_def split: if_splits\<close>)
qed

lemma retry_fresh:
  assumes inv: "fresh_inv sy" and w: "w < length (ex_workers (sy_ex sy))" and fresh: "fresh sy (IRetry cas w)"
    and live: "\<not> ex_terminated (sy_ex (retry_step cas w sy))"
  shows "fresh_inv (retry_step cas w sy)"
proof -
  let ?ex = "sy_ex sy"
  have lock: "lock_inv (retry_step cas w sy)" using retry_step_inv [OF fresh_invD(1) [OF inv] w] live by blast
  have "w < length (sy_retries sy)"
    using w lock_okD(7) [OF lock_inv_ok [OF fresh_invD(1) [OF inv]]] by simp
  then have r: "sy_retries sy ! w \<in> set (sy_retries sy)" by simp
  note move = fresh_retry_move [OF inv] and einv = fresh_invD(2) [OF inv]
  show ?thesis
  proof (cases "sy_retries sy ! w")
    case RNone
    then show ?thesis using inv by (simp add: retry_step_def)
  next
    case (RMark p)
    obtain t ok where mark: "try_mark_enqueued (ex_heap ?ex p) = (t, ok)" by fastforce
    have "p \<in> aims sy" using r RMark by (force simp: aims_def)
    then have p: "p \<in> ex_ptrs ?ex" "mark_fresh sy p" using fresh_invD(5) [OF inv] fresh RMark by auto
    have sy: "retry_step cas w sy = set_retry w (if ok then RPut p else RNone) (sy\<lparr>sy_ex := on_ptr p (\<lambda>_. t) ?ex\<rparr>)"
      by (simp add: retry_step_def RMark mark Let_def)
    show ?thesis
      unfolding sy
      by (rule move [OF lock [unfolded sy] fresh_mark(1,2) [OF inv p mark] mark_untouched [OF inv p mark]])
        (use fresh_mark(5) [OF inv p mark] in \<open>cases ok; simp add: may_hold_def\<close>)+
  next
    case (RPut p)
    obtain ex' res where put: "submit_to_pool cas p ?ex = (ex', res)" by fastforce
    have "p \<in># hands sy" using r RPut by (force simp: hands_def in_sum_list_mset)
    note law = fresh_put [OF inv this put]
    have sy: "retry_step cas w sy = set_retry w RNone (sy\<lparr>sy_ex := ex'\<rparr>)"
      using live by (cases res) (simp_all add: retry_step_def RPut put terminate_def Let_def split: unit.splits)
    show ?thesis unfolding sy by (rule move [OF lock [unfolded sy] law(1,2)]) simp_all
  qed
qed

lemma failure_fresh:
  assumes inv: "fresh_inv sy" and w: "w < length (ex_workers (sy_ex sy))" and idle: "sy_retries sy ! w = RNone"
    and live: "\<not> ex_terminated (sy_ex (failure_begin w sy))"
  shows "fresh_inv (failure_begin w sy)"
proof (cases "ex_workers (sy_ex sy) ! w")
  case (Threw p e)
  let ?ex = "sy_ex sy"
  have lock: "lock_inv (failure_begin w sy)" using failure_begin_inv [OF fresh_invD(1) [OF inv] w idle] live by blast
  note einv = fresh_invD(2) [OF inv]
  have mem: "p \<in># placed ?ex" using held_placed [OF w] Threw by simp
  have un: "untouched {p} sy" by (rule placed_untouched [OF inv]) (simp add: mem)
  show ?thesis
  proof (cases "can_retry (ex_heap ?ex p)")
    case True
    let ?ex1 = "monitored record_retry (monitored record_failure ?ex)"
    let ?ex' = "set_worker w LoopHead (on_ptr p reset_for_retry ?ex1)"
    have core: "same_core ?ex ?ex1" by (simp add: same_core_def monitored_def)
    have sy: "failure_begin w sy = set_retry w (RMark p) (sy\<lparr>sy_ex := ?ex'\<rparr>)"
      by (simp add: failure_begin_def Threw True Let_def)
    have "ex_inv ?ex1" using same_core_inv [OF core] einv by simp
    from reset_evolves [OF this, of w p e] w Threw True
    have law: "evolves (ex_ptrs ?ex1) ?ex1 ?ex'" "p \<in> ex_ptrs ?ex'"
      by (simp_all add: same_core_workers [OF core] same_core_heap [OF core])
    have "spares {p} ?ex ?ex'"
      using spares_trans [OF spares_core [OF core] spares_ptr [of p "{p}"]] by simp
    then show ?thesis
      unfolding sy using law by (intro fresh_retry_move [OF inv lock [unfolded sy] evolves_inv _ un]) simp_all
  next
    case False
    have sy: "failure_begin w sy = sy\<lparr>sy_ex := worker_failure (True, True, True) w ?ex\<rparr>"
      by (simp add: failure_begin_def Threw False Let_def)
    from live have run: "\<not> ex_terminated (worker_failure (True, True, True) w ?ex)" by (simp add: sy)
    with worker_failure_ends [OF Threw False, of "(True, True, True)"] obtain ex1 where core: "same_core ?ex ex1"
      and ex': "worker_failure (True, True, True) w ?ex =
        set_worker w LoopHead (on_ptr p clear_enqueued_flag (on_graph (notify_task_completed (t_id (ex_heap ?ex p))) ex1))"
      by blast
    have "spares {p} ?ex (worker_failure (True, True, True) w ?ex)"
      unfolding ex' using spares_trans [OF spares_core [OF core] spares_finish [of p "{p}"]] by simp
    then show ?thesis
      unfolding sy
      using worker_failure_evolves [OF einv w, of "(True, True, True)"] run
      by (intro fresh_executor_move [OF inv lock [unfolded sy] evolves_inv _ un]) auto
  qed
qed (use inv in \<open>simp_all add: failure_begin_def\<close>)

lemma submit_fresh:
  assumes inv: "fresh_inv sy" and i: "i < length (sy_clients sy)" "sy_clients sy ! i = CIdle"
    and ids: "ex_next_task_id (sy_ex sy) \<noteq> UINT64_MAX" "opt_max_retries (sub_options sub) < UINT64_MAX"
  shows "fresh_inv (client_submit i now func name sub promise sy)"
proof -
  let ?ex = "sy_ex sy" and ?p = "ex_next_ptr (sy_ex sy)" and ?tid = "ex_next_task_id (sy_ex sy)"
  let ?ex' = "create_task now func name sub promise ?ex"
  let ?c = "CDepend ?tid ?p (sub_dependencies sub)"
  have sy: "client_submit i now func name sub promise sy = set_client i ?c (sy\<lparr>sy_ex := ?ex'\<rparr>)"
    by (simp add: client_submit_def Let_def)
  note lock = client_submit_inv [OF fresh_invD(1) [OF inv] i, of now func name sub promise]
  note einv = fresh_invD(2) [OF inv]
  note new = create_evolves(5) [OF einv ids]
  note law = create_evolves(1-4,6) [where now = now and func = func and name = name and promise = promise, OF einv ids]
  note wf = ex_invD(3) [OF evolves_inv [OF law(1)]]
  have "map_of (g_tasks (ex_graph ?ex)) ?tid = None"
  proof (rule ccontr)
    assume "map_of (g_tasks (ex_graph ?ex)) ?tid \<noteq> None"
    then obtain q where "map_of (g_tasks (ex_graph ?ex)) ?tid = Some q" by blast
    from map_of_wf [OF ex_invD(3) [OF einv] this] ex_invD(6) [OF einv, of q] show False by simp
  qed
  then have "spares {?p} ?ex ?ex'"
    using evolves_ptrs [OF law(1)] by (auto simp: spares_def create_task_sel map_of_update)
  moreover have "untouched {?p} sy"
    unfolding untouched_def
  proof (intro conjI ballI)
    show "q \<notin> {?p}" if "q \<in># hands sy" for q
      using fresh_invD(3) [OF inv that] new by blast
    show "builds c \<inter> {?p} = {}" if "c \<in> set (sy_clients sy)" for c
      using fresh_invD(6) [OF inv that] map_of_wf(1) [OF ex_invD(3) [OF einv]] new by (cases c) auto
  qed
  ultimately show ?thesis
    unfolding sy using law(2-5) map_of_wf(1) [OF wf law(2)]
    by (intro fresh_client_move [OF inv lock [unfolded sy] evolves_inv [OF law(1)]]) simp_all
qed


lemma fresh_apply:
  assumes inv: "fresh_inv sy" and ok: "sys_ok sy e" and fresh: "fresh sy e"
    and live: "\<not> ex_terminated (sy_ex (sys_apply e sy))"
  shows "fresh_inv (sys_apply e sy)"
proof -
  let ?ex = "sy_ex sy"
  have lock: "lock_inv (sys_apply e sy)" using sys_apply_inv [OF fresh_invD(1) [OF inv] ok] live by blast
  note einv = fresh_invD(2) [OF inv]
  have pool: "fresh_inv (sy\<lparr>sy_ex := ?ex\<lparr>ex_pool := pool\<rparr>\<rparr>)"
    if "lock_inv (sy\<lparr>sy_ex := ?ex\<lparr>ex_pool := pool\<rparr>\<rparr>)" "ex_inv (?ex\<lparr>ex_pool := pool\<rparr>)" for pool
    by (rule fresh_executor_move [OF inv that spares_same, of "{}"]) simp_all
  have step: "ex_inv (ex_apply ev ?ex)" if "event_ok ?ex ev" "\<not> ex_terminated (ex_apply ev ?ex)" for ev
    using ex_apply_evolves [OF einv that(1)] that(2) evolves_inv by blast
  have running: "ex_inv (?ex\<lparr>ex_scheduler_running := b\<rparr>)" for b
    using same_core_inv [of ?ex "?ex\<lparr>ex_scheduler_running := b\<rparr>"] einv by (simp add: same_core_def)
  show ?thesis
  proof (cases e)
    case (ISubmit i now func name sub)
    then show ?thesis using submit_fresh [OF inv] ok fresh by simp
  next
    case (ISubmitAsync i now func name deps opts user)
    let ?ex' = "?ex\<lparr>ex_next_promise := Suc (ex_next_promise ?ex), ex_promises := (ex_promises ?ex)(ex_next_promise ?ex := Unset)\<rparr>"
    have core: "same_core ?ex ?ex'" by (simp add: same_core_def)
    have "fresh_inv (sy\<lparr>sy_ex := ?ex'\<rparr>)"
      using same_core_inv [OF core] einv
      by (intro fresh_executor_move [OF inv lock_inv_same_core [OF fresh_invD(1) [OF inv] core] _ spares_core [OF core], of "{}"])
        simp_all
    from submit_fresh [OF this] ok fresh show ?thesis
      by (simp add: ISubmitAsync client_submit_async_def Let_def)
  next
    case IStart
    have "ex_inv (executor_start ?ex)" using running by (simp add: executor_start_def)
    moreover have "spares {} ?ex (executor_start ?ex)" by (rule spares_same) (simp_all add: executor_start_def)
    ultimately show ?thesis
      using lock live fresh_executor_move [OF inv, of "executor_start ?ex" "{}"]
        fresh_scheduler_move [OF inv, of SLoop "executor_start ?ex" "{}"]
      by (simp add: IStart client_start_def Let_def terminate_def split: if_splits)
  next
    case (IStop i)
    let ?ex' = "?ex\<lparr>ex_scheduler_running := False\<rparr>"
    have "spares {} ?ex ?ex'" by (rule spares_same) simp_all
    with lock show ?thesis
      using fresh_client_move [OF inv, of i _ ?ex' "{}"] running by (simp add: IStop client_stop_def)
  next
    case (IClient cas i)
    then show ?thesis using client_fresh [OF inv] ok fresh live by simp
  next
    case (IScheduler cas)
    then show ?thesis using scheduler_fresh [OF inv] fresh live by simp
  next
    case (IWorker part w)
    then have w: "w < length (ex_workers ?ex)" using ok by simp
    obtain X where "X \<subseteq> set_mset (placed ?ex)" "spares X ?ex (worker_part part w ?ex)"
      using spares_part [OF einv w] by blast
    with lock show ?thesis
      using fresh_executor_move [OF inv _ part_inv [OF einv w] _ placed_untouched [OF inv]] by (simp add: IWorker)
  next
    case (IFailure w)
    then show ?thesis using failure_fresh [OF inv] ok live by simp
  next
    case (IRetry cas w)
    then show ?thesis using retry_fresh [OF inv] ok fresh live by simp
  next
    case IPause
    then show ?thesis using pool lock live step [of EPause] by simp
  next
    case IResume
    then show ?thesis using pool lock live step [of EResume] by simp
  next
    case (IRound c cw k)
    then show ?thesis using pool lock live step [of "ERound c cw k"] by simp
  qed
qed

lemma fresh_reach_inv:
  assumes "fresh_reach (system_of n (executor_on_pool p m)) sy" and "pool_inv p" and "pool_items p = {#}"
  shows "ex_terminated (sy_ex sy) \<or> fresh_inv sy"
  using assms(1)
proof (induction rule: fresh_reach.induct)
  case refl
  have "sy_clients (system_of n (executor_on_pool p m)) = replicate n CIdle" by (simp add: system_of_def)
  moreover have "hands (system_of n (executor_on_pool p m)) = {#}" "aims (system_of n (executor_on_pool p m)) = {}"
    by (simp_all add: system_of_def hands_def aims_def sum_list_replicate map_replicate_const)
  ultimately show ?case
    using system_of_inv [OF assms(2,3)] start_inv [OF assms(2,3)] by (simp add: fresh_inv_def) (simp add: system_of_def)
next
  case (step sy e)
  then show ?case using fresh_apply by blast
qed

subsection \<open>Order and attempts\<close>


text \<open>A fresh run: a task and one that depends on it are submitted, worker 0 runs the first, and the
  scheduler thread marks the second and puts it into the pool.\<close>

fun fresh_run_ok :: "sys_event list \<Rightarrow> system \<Rightarrow> bool" where
  "fresh_run_ok [] sy \<longleftrightarrow> True"
| "fresh_run_ok (e # es) sy \<longleftrightarrow> \<not> ex_terminated (sy_ex sy) \<and> sys_ok sy e \<and> fresh sy e \<and>
     fresh_run_ok es (sys_apply e sy)"

lemma fresh_reach_run: "fresh_reach sy0 sy \<Longrightarrow> fresh_run_ok es sy \<Longrightarrow> fresh_reach sy0 (fold sys_apply es sy)"
  by (induction es arbitrary: sy) (auto intro: fresh_reach.step)

definition fresh_end :: system where
  "fresh_end = fold sys_apply ([IStart] @ submission_run ''a'' [] @ replicate 2 (IClient always 0) @
     submission_run ''b'' [1] @ worker_run 0 @ replicate 4 (IScheduler always)) (system_of 1 demo_start)"

lemma fresh_end_reach: "fresh_reach (system_of 1 (executor_on_pool pool2 (Some zero_metrics))) fresh_end"
  unfolding fresh_end_def demo_start_def [symmetric]
  by (rule fresh_reach_run [OF fresh_reach.refl]) code_simp


end
