(* ===== verification/Executor_Steps.thy ===== *)
theory Executor_Steps
  imports Executor_Interleaving
begin

section \<open>Whole operations are runs of steps\<close>

text \<open>
  Executor_Runs takes a submission, a scheduler round, a retry, \<open>start\<close> and \<open>stop\<close> as one step each. Here
  each of them is carried out by steps of Executor_Interleaving, so every state of Executor_Runs is the
  executor of a state that the interleaved program reaches: what is shown there to be possible is
  possible, and what holds of every interleaving holds there.
\<close>

subsection \<open>Runs of steps\<close>

lemma sys_reach_trans: "sys_reach sy1 sy2 \<Longrightarrow> sys_reach sy0 sy1 \<Longrightarrow> sys_reach sy0 sy2"
  by (induction rule: sys_reach.induct) (auto intro: sys_reach.step)

lemma sys_reach_via:
  assumes "sys_apply e sy = sy1" and "sys_reach sy1 sy'" and "\<not> ex_terminated (sy_ex sy)" and "sys_ok sy e"
  shows "sys_reach sy sy'"
  using sys_reach_trans [OF assms(2)] sys_reach.step [OF sys_reach.refl assms(3,4)] assms(1) by blast

lemma sys_reach_one: "\<not> ex_terminated (sy_ex sy) \<Longrightarrow> sys_ok sy e \<Longrightarrow> sys_apply e sy = sy' \<Longrightarrow> sys_reach sy sy'"
  using sys_reach.step [OF sys_reach.refl] by blast

lemma set_client_sel [simp]:
  "sy_ex (set_client i c sy) = sy_ex sy" "sy_sched (set_client i c sy) = sy_sched sy"
  "sy_retries (set_client i c sy) = sy_retries sy" "sy_clients (set_client i c sy) = (sy_clients sy)[i := c]"
  by (simp_all add: set_client_def)

lemma set_retry_sel [simp]:
  "sy_ex (set_retry w r sy) = sy_ex sy" "sy_sched (set_retry w r sy) = sy_sched sy"
  "sy_clients (set_retry w r sy) = sy_clients sy" "sy_retries (set_retry w r sy) = (sy_retries sy)[w := r]"
  by (simp_all add: set_retry_def)

lemma set_client_twice [simp]: "set_client i c (set_client i d sy) = set_client i c sy"
  by (simp add: set_client_def)

lemma set_client_ex: "(set_client i c sy)\<lparr>sy_ex := ex\<rparr> = set_client i c (sy\<lparr>sy_ex := ex\<rparr>)"
  by (simp add: set_client_def)

lemma set_client_same: "sy_clients sy ! i = c \<Longrightarrow> set_client i c sy = sy"
  unfolding set_client_def by (cases sy) auto

lemma set_retry_twice [simp]: "set_retry w r (set_retry w q sy) = set_retry w r sy"
  by (simp add: set_retry_def)

lemma set_retry_ex: "(set_retry w r sy)\<lparr>sy_ex := ex\<rparr> = set_retry w r (sy\<lparr>sy_ex := ex\<rparr>)"
  by (simp add: set_retry_def)

lemma set_retry_same: "sy_retries sy ! w = r \<Longrightarrow> set_retry w r sy = sy"
  unfolding set_retry_def by (cases sy) auto

subsection \<open>Marking and submitting\<close>

lemma submit_to_pool_frame:
  assumes "submit_to_pool cas p ex = (ex', r)"
  shows "ex_terminated ex' = ex_terminated ex" "ex_scheduler_running ex' = ex_scheduler_running ex"
    "ex_workers ex' = ex_workers ex" "ex_graph ex' = ex_graph ex"
  using assms by (auto simp: submit_to_pool_def split: outcome.splits)

lemma submit_to_pool_outcome:
  assumes "submit_to_pool cas p ex = (ex', r)" and "pl_num_threads (ex_pool ex) \<noteq> 0"
  shows "r = Return () \<or> (\<exists>e. r = Throw e)"
  using assms
  by (auto simp: submit_to_pool_def pool_submit_def try_submit_to_local_def Let_def
      split: outcome.splits if_splits prod.splits round_result.splits)

lemma mark_and_submit_cases:
  assumes "mark_and_submit cas p ex = (ex', r)"
  obtains (other) t where "try_mark_enqueued (ex_heap ex p) = (t, False)" "on_ptr p (\<lambda>_. t) ex = ex" "ex' = ex" "r = Return ()"
  | (mine) t where "try_mark_enqueued (ex_heap ex p) = (t, True)" "submit_to_pool cas p (on_ptr p (\<lambda>_. t) ex) = (ex', r)"
proof -
  obtain t ok where mark: "try_mark_enqueued (ex_heap ex p) = (t, ok)" by fastforce
  show thesis
  proof (cases ok)
    case True
    with mark assms show thesis by (intro mine [of t]) (simp_all add: mark_and_submit_def)
  next
    case False
    with mark have "t = ex_heap ex p" by (auto simp: try_mark_enqueued_def split: if_splits)
    with False mark assms show thesis
      by (intro other [of t]) (simp_all add: mark_and_submit_def on_ptr_def on_task_def)
  qed
qed

lemma on_ptr_frame [simp]:
  "ex_terminated (on_ptr p f ex) = ex_terminated ex" "ex_scheduler_running (on_ptr p f ex) = ex_scheduler_running ex"
  by (simp_all add: on_ptr_def)

lemma on_graph_frame [simp]:
  "ex_terminated (on_graph f ex) = ex_terminated ex" "ex_scheduler_running (on_graph f ex) = ex_scheduler_running ex"
  by (simp_all add: on_graph_def)

lemma monitored_frame [simp]:
  "ex_terminated (monitored f ex) = ex_terminated ex" "ex_scheduler_running (monitored f ex) = ex_scheduler_running ex"
  by (simp_all add: monitored_def)

lemma set_worker_frame [simp]:
  "ex_terminated (set_worker w st ex) = ex_terminated ex"
  "ex_scheduler_running (set_worker w st ex) = ex_scheduler_running ex"
  by (simp_all add: set_worker_def)

lemma add_dependencies_frame [simp]:
  "ex_terminated (add_dependencies tid deps ex) = ex_terminated ex"
  "ex_scheduler_running (add_dependencies tid deps ex) = ex_scheduler_running ex"
  "ex_pool (add_dependencies tid deps ex) = ex_pool ex"
  by (induction deps arbitrary: ex) (simp_all add: add_dependencies_def on_graph_def)

subsection \<open>A submission\<close>

lemma dependency_steps:
  assumes "i < length (sy_clients sy)" and "sy_clients sy ! i = CDepend tid p deps" and "\<not> ex_terminated (sy_ex sy)"
  shows "sys_reach sy (set_client i (CDepend tid p []) (sy\<lparr>sy_ex := add_dependencies tid deps (sy_ex sy)\<rparr>))"
  using assms
proof (induction deps arbitrary: sy)
  case Nil
  then show ?case using sys_reach.refl [of sy] by (simp add: add_dependencies_def set_client_same)
next
  case (Cons dep deps)
  let ?sy = "set_client i (CDepend tid p deps) (sy\<lparr>sy_ex := on_graph (graph_add_dependency tid dep) (sy_ex sy)\<rparr>)"
  have "sys_reach ?sy (set_client i (CDepend tid p []) (?sy\<lparr>sy_ex := add_dependencies tid deps (sy_ex ?sy)\<rparr>))"
    using Cons.prems by (intro Cons.IH) simp_all
  then have rest: "sys_reach ?sy (set_client i (CDepend tid p []) (sy\<lparr>sy_ex := add_dependencies tid (dep # deps) (sy_ex sy)\<rparr>))"
    by (simp add: set_client_ex add_dependencies_def)
  have "sys_apply (IClient (True, True, True) i) sy = ?sy"
    using Cons.prems by (simp add: client_step_def Let_def)
  from sys_reach_via [OF this rest] Cons.prems show ?case by simp
qed

lemma ready_steps:
  assumes i: "i < length (sy_clients sy)" "sy_clients sy ! i = CDepend tid p []" and live: "\<not> ex_terminated (sy_ex sy)"
    and threads: "pl_num_threads (ex_pool (sy_ex sy)) \<noteq> 0"
    and step: "enqueue_if_ready cas p (sy_ex sy) = (ex', r)"
  shows "sys_reach sy (set_client i CIdle (sy\<lparr>sy_ex := ex'\<rparr>))"
proof (cases "is_ready (ex_heap (sy_ex sy) p)")
  case False
  then have "sys_apply (IClient cas i) sy = set_client i CIdle (sy\<lparr>sy_ex := ex'\<rparr>)"
    using i step by (simp add: client_step_def enqueue_if_ready_def Let_def)
  with i live show ?thesis by (intro sys_reach_one [where e = "IClient cas i"]) simp_all
next
  case True
  with step have mark: "mark_and_submit cas p (sy_ex sy) = (ex', r)" by (simp add: enqueue_if_ready_def)
  let ?sy = "set_client i (CMark p) sy"
  have one: "sys_apply (IClient cas i) sy = ?sy" using i True by (simp add: client_step_def Let_def)
  from mark have "sys_reach ?sy (set_client i CIdle (sy\<lparr>sy_ex := ex'\<rparr>))"
  proof (cases rule: mark_and_submit_cases)
    case (other t)
    then have "sys_apply (IClient cas i) ?sy = set_client i CIdle (sy\<lparr>sy_ex := ex'\<rparr>)"
      using i by (simp add: client_step_def Let_def set_client_ex)
    with i live show ?thesis by (intro sys_reach_one [where e = "IClient cas i"]) simp_all
  next
    case (mine t)
    let ?sy1 = "set_client i (CPut p) (sy\<lparr>sy_ex := on_ptr p (\<lambda>_. t) (sy_ex sy)\<rparr>)"
    have two: "sys_apply (IClient cas i) ?sy = ?sy1"
      using i mine(1) by (simp add: client_step_def Let_def set_client_ex)
    have "r = Return () \<or> (\<exists>e. r = Throw e)"
      using submit_to_pool_outcome [OF mine(2)] threads by (simp add: on_ptr_def)
    then have three: "sys_apply (IClient cas i) ?sy1 = set_client i CIdle (sy\<lparr>sy_ex := ex'\<rparr>)"
    proof (elim disjE exE)
      assume "r = Return ()"
      with i mine(2) show ?thesis by (simp add: client_step_def Let_def set_client_ex split: unit.splits)
    next
      fix e assume "r = Throw e"
      with i mine(2) show ?thesis by (simp add: client_step_def Let_def set_client_ex)
    qed
    have "sys_reach ?sy1 (set_client i CIdle (sy\<lparr>sy_ex := ex'\<rparr>))"
      using i live by (intro sys_reach_one [OF _ _ three]) simp_all
    from sys_reach_via [OF two this] i live show ?thesis by simp
  qed
  from sys_reach_via [OF one this] i live show ?thesis by simp
qed

lemma create_task_running [simp]:
  "ex_scheduler_running (create_task now func name sub promise ex) = ex_scheduler_running ex"
  by (simp add: create_task_def Let_def register_promise_def split: option.splits)

lemma submission_steps:
  assumes i: "i < length (sy_clients sy)" "sy_clients sy ! i = CIdle" and live: "\<not> ex_terminated (sy_ex sy)"
    and threads: "pl_num_threads (ex_pool (sy_ex sy)) \<noteq> 0"
    and step: "submit_internal cas now func name sub promise (sy_ex sy) = (ex', r)"
  shows "sys_reach (client_submit i now func name sub promise sy) (sy\<lparr>sy_ex := ex'\<rparr>)"
proof -
  let ?ex = "sy_ex sy" and ?tid = "ex_next_task_id (sy_ex sy)" and ?p = "ex_next_ptr (sy_ex sy)"
  let ?ex1 = "create_task now func name sub promise ?ex"
  let ?ex2 = "add_dependencies ?tid (sub_dependencies sub) ?ex1"
  let ?sy1 = "set_client i (CDepend ?tid ?p (sub_dependencies sub)) (sy\<lparr>sy_ex := ?ex1\<rparr>)"
  let ?sy2 = "set_client i (CDepend ?tid ?p []) (sy\<lparr>sy_ex := ?ex2\<rparr>)"
  obtain r' where last: "enqueue_if_ready cas ?p ?ex2 = (ex', r')" using submit_internal_steps [OF step] by blast
  have "client_submit i now func name sub promise sy = ?sy1" by (simp add: client_submit_def Let_def)
  moreover have "sys_reach ?sy1 ?sy2"
    using dependency_steps [of i ?sy1] i live by (simp add: create_task_sel set_client_ex)
  moreover have "sys_reach ?sy2 (sy\<lparr>sy_ex := ex'\<rparr>)"
    using ready_steps [of i ?sy2 ?tid ?p cas ex' r'] i live threads last
    by (simp add: create_task_sel set_client_ex set_client_same)
  ultimately show ?thesis by (simp only: sys_reach_trans)
qed


subsection \<open>A round of the scheduler thread\<close>

lemma submit_all_live: "\<not> ex_terminated (submit_all cas ps ex) \<Longrightarrow> \<not> ex_terminated ex"
proof (induction ps arbitrary: ex)
  case (Cons p ps)
  obtain ex' r where step: "mark_and_submit (cas p) p ex = (ex', r)" by fastforce
  from Cons.prems step have "\<not> ex_terminated (submit_all cas ps ex')" by (cases r) (simp_all split: unit.splits)
  from Cons.IH [OF this] have live: "\<not> ex_terminated ex'" .
  from step show ?case
  proof (cases rule: mark_and_submit_cases)
    case (mine t)
    with live submit_to_pool_frame(1) [OF mine(2)] show ?thesis by simp
  qed (use live in simp)
qed simp

lemma round_steps:
  assumes "sy_sched sy = SMark ps" and "\<not> ex_terminated (submit_all cas ps (sy_ex sy))"
  shows "sys_reach sy (sy\<lparr>sy_ex := submit_all cas ps (sy_ex sy), sy_sched := SMark []\<rparr>)"
  using assms
proof (induction ps arbitrary: sy)
  case Nil
  then have "sy\<lparr>sy_ex := submit_all cas [] (sy_ex sy), sy_sched := SMark []\<rparr> = sy" by (cases sy) simp
  then show ?case using sys_reach.refl by simp
next
  case (Cons p ps)
  let ?ex = "sy_ex sy" and ?final = "sy\<lparr>sy_ex := submit_all cas (p # ps) (sy_ex sy), sy_sched := SMark []\<rparr>"
  obtain ex' r where step: "mark_and_submit (cas p) p ?ex = (ex', r)" by fastforce
  with Cons.prems(2) have r: "r = Return ()" by (cases r) (simp_all split: unit.splits)
  note live = submit_all_live [OF Cons.prems(2)]
  have rest: "submit_all cas (p # ps) ?ex = submit_all cas ps ex'"
    by (simp add: step r split: unit.splits)
  have more: "sys_reach (sy\<lparr>sy_ex := ex', sy_sched := SMark ps\<rparr>) ?final"
    using Cons.IH [of "sy\<lparr>sy_ex := ex', sy_sched := SMark ps\<rparr>"] Cons.prems(2) unfolding rest by simp
  from step show ?case
  proof (cases rule: mark_and_submit_cases)
    case (other t)
    then have "sys_apply (IScheduler (cas p)) sy = sy\<lparr>sy_ex := ex', sy_sched := SMark ps\<rparr>"
      using Cons.prems(1) by (simp add: scheduler_step_def Let_def)
    from sys_reach_via [OF this more live] show ?thesis by simp
  next
    case (mine t)
    let ?sy = "sy\<lparr>sy_ex := on_ptr p (\<lambda>_. t) ?ex, sy_sched := SPut p ps\<rparr>"
    have one: "sys_apply (IScheduler (cas p)) sy = ?sy"
      using Cons.prems(1) mine(1) by (simp add: scheduler_step_def Let_def)
    have two: "sys_apply (IScheduler (cas p)) ?sy = sy\<lparr>sy_ex := ex', sy_sched := SMark ps\<rparr>"
      using mine(2) r by (simp add: scheduler_step_def Let_def split: unit.splits)
    from sys_reach_via [OF two more] live have "sys_reach ?sy ?final" by simp
    from sys_reach_via [OF one this live] show ?thesis by simp
  qed
qed

lemma scheduler_steps:
  assumes sched: "sy_sched sy = (if ex_scheduler_running (sy_ex sy) then SLoop else SNone)"
    and live: "\<not> ex_terminated (scheduler_round cas (sy_ex sy))"
  shows "sys_reach sy (sy\<lparr>sy_ex := scheduler_round cas (sy_ex sy)\<rparr>)"
proof (cases "ex_scheduler_running (sy_ex sy)")
  case False
  then show ?thesis using sys_reach.refl [of sy] by (simp add: scheduler_round_def)
next
  case True
  let ?ps = "get_ready_tasks (ex_graph (sy_ex sy))" and ?cas = "(True, True, True)"
  have all: "scheduler_round cas (sy_ex sy) = submit_all cas ?ps (sy_ex sy)" by (simp add: scheduler_round_def True)
  note live = live [unfolded all] and start = submit_all_live [OF live [unfolded all]]
  let ?final = "sy\<lparr>sy_ex := submit_all cas ?ps (sy_ex sy)\<rparr>"
  have four: "sys_apply (IScheduler ?cas) (sy\<lparr>sy_ex := submit_all cas ?ps (sy_ex sy), sy_sched := SMark []\<rparr>) = ?final"
    using sched True by (cases sy) (simp add: scheduler_step_def Let_def)
  have "sys_reach (sy\<lparr>sy_ex := submit_all cas ?ps (sy_ex sy), sy_sched := SMark []\<rparr>) ?final"
    by (rule sys_reach_one [OF _ _ four]) (use live in simp_all)
  from sys_reach_trans [OF this] round_steps [of "sy\<lparr>sy_sched := SMark ?ps\<rparr>" ?ps cas] live
  have three: "sys_reach (sy\<lparr>sy_sched := SMark ?ps\<rparr>) ?final" by simp
  have two: "sys_apply (IScheduler ?cas) (sy\<lparr>sy_sched := SSnapshot\<rparr>) = sy\<lparr>sy_sched := SMark ?ps\<rparr>"
    by (simp add: scheduler_step_def Let_def)
  have one: "sys_apply (IScheduler ?cas) sy = sy\<lparr>sy_sched := SSnapshot\<rparr>"
    using sched True by (simp add: scheduler_step_def Let_def)
  from sys_reach_via [OF two three] start have "sys_reach (sy\<lparr>sy_sched := SSnapshot\<rparr>) ?final" by simp
  from sys_reach_via [OF one this start] show ?thesis by (simp add: all)
qed

subsection \<open>A retry\<close>

lemma failure_steps:
  assumes w: "w < length (ex_workers (sy_ex sy))" "w < length (sy_retries sy)" "sy_retries sy ! w = RNone"
    and live: "\<not> ex_terminated (sy_ex sy)" "\<not> ex_terminated (worker_failure cas w (sy_ex sy))"
  shows "sys_reach sy (sy\<lparr>sy_ex := worker_failure cas w (sy_ex sy)\<rparr>)"
proof (cases "\<exists>p e. ex_workers (sy_ex sy) ! w = Threw p e \<and> can_retry (ex_heap (sy_ex sy) p)")
  case False
  then have "sys_apply (IFailure w) sy = sy\<lparr>sy_ex := worker_failure cas w (sy_ex sy)\<rparr>"
    by (cases "ex_workers (sy_ex sy) ! w")
      (simp_all add: failure_begin_def worker_failure_def on_failure_def handle_failure_def monitored_def Let_def)
  with w live show ?thesis by (intro sys_reach_one [where e = "IFailure w"]) simp_all
next
  case True
  then obtain p e where threw: "ex_workers (sy_ex sy) ! w = Threw p e" and retry: "can_retry (ex_heap (sy_ex sy) p)"
    by blast
  define ex1 where "ex1 = on_ptr p reset_for_retry (monitored record_retry (monitored record_failure (sy_ex sy)))"
  obtain ex' r where step: "mark_and_submit cas p ex1 = (ex', r)" by fastforce
  have failure: "worker_failure cas w (sy_ex sy) =
      (case r of Return () \<Rightarrow> set_worker w LoopHead ex' | _ \<Rightarrow> ex'\<lparr>ex_terminated := True\<rparr>)"
    using retry step
    by (simp add: worker_failure_def threw on_failure_def handle_failure_def ex1_def monitored_def Let_def
        split: outcome.splits unit.splits)
  with live(2) have r: "r = Return ()" by (cases r) simp_all
  let ?final = "sy\<lparr>sy_ex := set_worker w LoopHead ex'\<rparr>"
  let ?sy = "set_retry w (RMark p) (sy\<lparr>sy_ex := set_worker w LoopHead ex1\<rparr>)"
  have one: "sys_apply (IFailure w) sy = ?sy"
    using retry by (simp add: failure_begin_def threw ex1_def Let_def)
  have live1: "\<not> ex_terminated ex1" using live(1) by (simp add: ex1_def)
  from step have "sys_reach ?sy ?final"
  proof (cases rule: mark_and_submit_cases)
    case (other t)
    then have "on_ptr p (\<lambda>_. t) (set_worker w LoopHead ex1) = set_worker w LoopHead ex1"
      by (cases ex1) (simp add: set_worker_def on_ptr_def)
    then have "sys_apply (IRetry cas w) ?sy = ?final"
      using w other by (simp add: retry_step_def set_retry_ex set_retry_same set_worker_def Let_def)
    then show ?thesis by (rule sys_reach_one [rotated 2]) (use w live1 in \<open>simp_all add: set_worker_def ex1_def on_ptr_def monitored_def\<close>)
  next
    case (mine t)
    let ?sy1 = "set_retry w (RPut p) (sy\<lparr>sy_ex := set_worker w LoopHead (on_ptr p (\<lambda>_. t) ex1)\<rparr>)"
    have two: "sys_apply (IRetry cas w) ?sy = ?sy1"
      using w mine(1) by (simp add: retry_step_def set_retry_ex set_worker_def on_ptr_def Let_def)
    have "submit_to_pool cas p (set_worker w LoopHead (on_ptr p (\<lambda>_. t) ex1)) = (set_worker w LoopHead ex', Return ())"
      using mine(2) r by (auto simp: submit_to_pool_def set_worker_def split: outcome.splits)
    then have "sys_apply (IRetry cas w) ?sy1 = ?final"
      using w by (simp add: retry_step_def set_retry_ex set_retry_same Let_def split: unit.splits)
    then have "sys_reach ?sy1 ?final"
      by (rule sys_reach_one [rotated 2]) (use w live1 in \<open>simp_all add: set_worker_def ex1_def on_ptr_def monitored_def\<close>)
    from sys_reach_via [OF two this] w live1 show ?thesis
      by (simp add: set_worker_def ex1_def on_ptr_def monitored_def)
  qed
  from sys_reach_via [OF one this live(1)] w show ?thesis by (simp add: failure r split: unit.splits)
qed


subsection \<open>The simulation\<close>

text \<open>Between two operations: no client, no retry and no round is under way, and the scheduler thread
  exists while it is to run.\<close>

definition at_rest :: "system \<Rightarrow> bool" where
  "at_rest sy \<longleftrightarrow> sy_clients sy \<noteq> [] \<and> (\<forall>c \<in> set (sy_clients sy). c = CIdle) \<and>
     sy_sched sy = (if ex_scheduler_running (sy_ex sy) then SLoop else SNone) \<and>
     sy_retries sy \<noteq> [] \<and> (\<forall>r \<in> set (sy_retries sy). r = RNone)"

lemma at_restD:
  assumes "at_rest sy"
  shows "0 < length (sy_clients sy)" "sy_clients sy ! 0 = CIdle"
    "sy_sched sy = (if ex_scheduler_running (sy_ex sy) then SLoop else SNone)"
    "w < length (sy_retries sy) \<Longrightarrow> sy_retries sy ! w = RNone"
  using assms by (simp_all add: at_rest_def)

lemma at_rest_ex: "at_rest sy \<Longrightarrow> ex_scheduler_running ex = ex_scheduler_running (sy_ex sy) \<Longrightarrow> at_rest (sy\<lparr>sy_ex := ex\<rparr>)"
  by (simp add: at_rest_def)

lemma submit_internal_running:
  assumes "submit_internal cas now func name sub promise ex = (ex', r)"
  shows "ex_scheduler_running ex' = ex_scheduler_running ex"
proof -
  from submit_internal_steps [OF assms] obtain r' where
    "enqueue_if_ready cas (ex_next_ptr ex) (add_dependencies (ex_next_task_id ex) (sub_dependencies sub)
       (create_task now func name sub promise ex)) = (ex', r')" by blast
  then show ?thesis
    by (auto simp: enqueue_if_ready_def mark_and_submit_def dest!: submit_to_pool_frame(2) split: if_splits prod.splits bool.splits)
qed

lemma submit_all_running: "ex_scheduler_running (submit_all cas ps ex) = ex_scheduler_running ex"
proof (induction ps arbitrary: ex)
  case (Cons p ps)
  obtain ex' r where step: "mark_and_submit (cas p) p ex = (ex', r)" by fastforce
  then have "ex_scheduler_running ex' = ex_scheduler_running ex"
  proof (cases rule: mark_and_submit_cases)
    case (mine t)
    from submit_to_pool_frame(2) [OF mine(2)] show ?thesis by simp
  qed simp
  with Cons.IH show ?case by (cases r) (simp_all add: step split: unit.splits)
qed simp

lemma continue_running:
  assumes "\<And>ex. ex_scheduler_running (fst (k ex)) = ex_scheduler_running ex"
  shows "ex_scheduler_running (fst (continue r k)) = ex_scheduler_running (fst r)"
  using assms by (cases "(r, k)" rule: continue.cases) simp_all

lemma set_promise_running: "ex_scheduler_running (fst (set_promise pr st ex)) = ex_scheduler_running ex"
  by (simp add: set_promise_def)

lemma settle_running:
  "ex_scheduler_running (fst (fulfill_promise tid x ex)) = ex_scheduler_running ex"
  "ex_scheduler_running (fst (fail_promise tid e ex)) = ex_scheduler_running ex"
  by (simp_all add: fulfill_promise_def fail_promise_def set_promise_running split: option.splits)

lemma callback_running: "ex_scheduler_running (fst (invoke_callback p x ex)) = ex_scheduler_running ex"
  by (auto simp: invoke_callback_def run_task_callback_def run_submission_callback_def clear_if_alive_def
      continue_running set_promise_running settle_running split: option.splits task_callback.splits submission_callback.splits)

lemma worker_running:
  "ex_scheduler_running (worker_part part w ex) = ex_scheduler_running ex"
  using callback_running
  by (cases part) (auto simp: worker_loop_head_def worker_pause_check_def worker_take_def worker_execute_def
      worker_success_def worker_wake_def on_start_def on_success_def Let_def dest!: arg_cong [where f = fst]
      split: worker.splits prod.splits option.splits sum.splits)


lemma failure_running: "ex_scheduler_running (worker_failure cas w ex) = ex_scheduler_running ex"
proof (cases "ex_workers ex ! w")
  case (Threw p e)
  obtain ex' r where step: "on_failure cas p e ex = (ex', r)" by fastforce
  have "ex_scheduler_running ex' = ex_scheduler_running ex"
  proof (cases "can_retry (ex_heap ex p)")
    case True
    with step have "mark_and_submit cas p (on_ptr p reset_for_retry (monitored record_retry (monitored record_failure ex))) = (ex', r)"
      by (simp add: on_failure_def handle_failure_def monitored_def)
    then show ?thesis
    proof (cases rule: mark_and_submit_cases)
      case (mine t)
      from submit_to_pool_frame(2) [OF mine(2)] show ?thesis by simp
    qed simp
  next
    case False
    obtain ex1 r1 where fail: "fail_promise (t_id (ex_heap ex p)) e (monitored record_failure ex) = (ex1, r1)" by fastforce
    with settle_running(2) [of "t_id (ex_heap ex p)" e "monitored record_failure ex"] False step show ?thesis
      by (cases r1) (auto simp: on_failure_def handle_failure_def monitored_def Let_def)
  qed
  then show ?thesis by (cases r) (simp_all add: worker_failure_def Threw step split: unit.splits)
qed (simp_all add: worker_failure_def)

lemma start_steps:
  assumes rest: "at_rest sy" and live: "\<not> ex_terminated (sy_ex sy)"
  shows "\<exists>sy'. sys_reach sy sy' \<and> at_rest sy' \<and> sy_ex sy' = executor_start (sy_ex sy)"
proof (intro exI conjI)
  show "sys_reach sy (client_start sy)" by (rule sys_reach_one [where e = IStart]) (use live in simp_all)
  show "at_rest (client_start sy)" "sy_ex (client_start sy) = executor_start (sy_ex sy)"
    using rest by (simp_all add: at_rest_def client_start_def executor_start_def Let_def)
qed

lemma stop_steps:
  assumes rest: "at_rest sy" and live: "\<not> ex_terminated (sy_ex sy)"
  shows "\<exists>sy'. sys_reach sy sy' \<and> at_rest sy' \<and> sy_ex sy' = executor_stop (sy_ex sy)"
proof (intro exI conjI)
  let ?ex = "(sy_ex sy)\<lparr>ex_scheduler_running := False\<rparr>" and ?cas = "(True, True, True)"
  let ?final = "sy\<lparr>sy_ex := executor_stop (sy_ex sy), sy_sched := SNone\<rparr>"
  let ?last = "set_client 0 CShutdown (sy\<lparr>sy_ex := ?ex, sy_sched := SNone\<rparr>)"
  note r = at_restD [OF rest]
  have "(sy_clients sy)[0 := CIdle] = sy_clients sy" using list_update_id [of "sy_clients sy" 0] r(2) by simp
  then have "sys_apply (IClient ?cas 0) ?last = ?final"
    using r by (cases sy) (simp add: client_step_def executor_stop_def set_client_def Let_def)
  then have last: "sys_reach ?last ?final" by (rule sys_reach_one [rotated 2]) (use r live in simp_all)
  show "sys_reach sy ?final"
  proof (cases "ex_scheduler_running (sy_ex sy)")
    case False
    then have "sys_apply (IStop 0) sy = ?last"
      using r by (simp add: client_stop_def set_client_def)
    from sys_reach_via [OF this last live] r show ?thesis by simp
  next
    case True
    let ?one = "set_client 0 CJoin (sy\<lparr>sy_ex := ?ex\<rparr>)"
    let ?two = "set_client 0 CJoin (sy\<lparr>sy_ex := ?ex, sy_sched := SExited\<rparr>)"
    have one: "sys_apply (IStop 0) sy = ?one" using True by (simp add: client_stop_def)
    have two: "sys_apply (IScheduler ?cas) ?one = ?two"
      using r True by (simp add: scheduler_step_def set_client_def Let_def)
    have three: "sys_apply (IClient ?cas 0) ?two = ?last"
      using r by (simp add: client_step_def set_client_def Let_def)
    from sys_reach_via [OF three last] r live have "sys_reach ?two ?final" by simp
    from sys_reach_via [OF two this] live have "sys_reach ?one ?final" by simp
    from sys_reach_via [OF one this live] r show ?thesis by simp
  qed
  show "at_rest ?final" using rest by (simp add: at_rest_def executor_stop_def)
qed simp

lemma operation_steps:
  assumes rest: "at_rest sy" and lock: "lock_inv sy" and ok: "event_ok (sy_ex sy) e"
    and live: "\<not> ex_terminated (sy_ex sy)" "\<not> ex_terminated (ex_apply e (sy_ex sy))"
  shows "\<exists>sy'. sys_reach sy sy' \<and> at_rest sy' \<and> sy_ex sy' = ex_apply e (sy_ex sy)"
proof -
  let ?ex = "sy_ex sy"
  note r = at_restD [OF rest]
  have len: "length (sy_retries sy) = length (ex_workers ?ex)" using lock_okD(7) [OF lock_inv_ok [OF lock]] by simp
  have "pl_num_threads (ex_pool ?ex) \<noteq> 0"
    using lock_okD(2) [OF lock_inv_ok [OF lock]] len rest by (auto simp: at_rest_def)
  note threads = this
  have simple: ?thesis
    if "sys_apply i sy = sy\<lparr>sy_ex := ex_apply e ?ex\<rparr>" "sys_ok sy i"
      "ex_scheduler_running (ex_apply e ?ex) = ex_scheduler_running ?ex" for i
    using sys_reach_one [OF live(1) that(2,1)] at_rest_ex [OF rest that(3)] by (intro exI [of _ "sy\<lparr>sy_ex := ex_apply e ?ex\<rparr>"]) simp
  have worker: ?thesis
    if "w < length (ex_workers ?ex)" "ex_apply e ?ex = worker_part part w ?ex" for part w
    by (rule simple [of "IWorker part w"]) (use that r(4) len worker_running in simp_all)
  have reach: ?thesis
    if "sys_reach sy (sy\<lparr>sy_ex := ex_apply e ?ex\<rparr>)" "ex_scheduler_running (ex_apply e ?ex) = ex_scheduler_running ?ex"
    using that(1) at_rest_ex [OF rest that(2)] by (intro exI [of _ "sy\<lparr>sy_ex := ex_apply e ?ex\<rparr>"]) simp
  show ?thesis
  proof (cases e)
    case (ESubmit cas now func name sub)
    obtain ex' res where step: "submit_internal cas now func name sub None ?ex = (ex', res)" by fastforce
    have apply_e: "ex_apply e ?ex = ex'" by (simp add: ESubmit step)
    note more = submission_steps [OF r(1,2) live(1) threads step]
    from sys_reach_via [OF _ more live(1), of "ISubmit 0 now func name sub"] r
    have "sys_reach sy (sy\<lparr>sy_ex := ex'\<rparr>)" by simp
    then show ?thesis using reach submit_internal_running [OF step] by (simp only: apply_e)
  next
    case (ESubmitAsync cas now func name deps opts user)
    let ?pr = "ex_next_promise ?ex"
    let ?exp = "?ex\<lparr>ex_next_promise := Suc ?pr, ex_promises := (ex_promises ?ex)(?pr := Unset)\<rparr>"
    let ?sub = "\<lparr>sub_dependencies = deps, sub_options = opts, sub_callback = AsyncCallback ?pr user\<rparr>"
    obtain ex' res where step: "submit_internal cas now func name ?sub (Some ?pr) ?exp = (ex', res)" by fastforce
    have apply_e: "ex_apply e ?ex = ex'"
      by (cases res) (simp_all add: ESubmitAsync submit_async_def Let_def step)
    have "sys_reach (client_submit 0 now func name ?sub (Some ?pr) (sy\<lparr>sy_ex := ?exp\<rparr>)) (sy\<lparr>sy_ex := ex'\<rparr>)"
      using submission_steps [of 0 "sy\<lparr>sy_ex := ?exp\<rparr>"] r live(1) threads step by simp
    from sys_reach_via [OF _ this live(1), of "ISubmitAsync 0 now func name deps opts user"] r
    have "sys_reach sy (sy\<lparr>sy_ex := ex'\<rparr>)" by (simp add: client_submit_async_def Let_def)
    then show ?thesis using reach submit_internal_running [OF step] by (simp add: apply_e)
  next
    case (EScheduler cas)
    then show ?thesis
      using reach scheduler_steps [OF r(3)] live(2) by (simp add: scheduler_round_def submit_all_running)
  next
    case (EFailure cas w)
    then show ?thesis
      using reach failure_steps [of w sy cas] ok live r(4) len by (simp add: failure_running)
  next
    case (ELoopHead w)
    then show ?thesis using worker [of w PLoopHead] ok by simp
  next
    case (EPauseCheck w)
    then show ?thesis using worker [of w PPauseCheck] ok by simp
  next
    case (ETake cas now w)
    then show ?thesis using worker [of w "PTake cas now"] ok by simp
  next
    case (EExecute c w)
    then show ?thesis using worker [of w "PExecute c"] ok by simp
  next
    case (ESuccess w)
    then show ?thesis using worker [of w PSuccess] ok by simp
  next
    case (EWake w)
    then show ?thesis using worker [of w PWake] ok by simp
  qed (use ok start_steps [OF rest live(1)] stop_steps [OF rest live(1)]
      simple [of IPause] simple [of IResume] simple [of "IRound _ _ _"] in simp_all)
qed



end
