(* ===== verification/Executor_Open.thy ===== *)
theory Executor_Open
  imports Executor_Steps
begin

section \<open>The executor goes on until it is stopped\<close>

text \<open>
  Until \<open>stop\<close> is called, no exception ends the process, whatever clients submit and cancel and however
  the threads of Executor_Interleaving interleave. An exception leaves the scheduler thread or a worker
  only when \<open>submit\<close> of the pool throws, which needs a shutdown, or when \<open>fail_promise\<close> satisfies a
  promise twice: \<open>promises_ok\<close> says that a registered promise has not been satisfied. The runs here
  have cancellations at any moment; ids and attempts may wrap around.
\<close>

subsection \<open>Registered promises are unsatisfied\<close>

text \<open>A registered promise belongs to one task and was not set; the wrapper that \<open>submit_async\<close> builds
  sets no promise that another task has registered.\<close>

definition promises_ok :: "executor \<Rightarrow> bool" where
  "promises_ok ex \<longleftrightarrow>
     (\<forall>tid pr. ex_task_promises ex tid = Some pr \<longrightarrow>
        ex_promises ex pr = Unset \<and> pr < ex_next_promise ex \<and>
        (\<forall>tid'. ex_task_promises ex tid' = Some pr \<longrightarrow> tid' = tid)) \<and>
     (\<forall>p tid q pr user. t_callback (ex_heap ex p) = Some (ExecutorCallback tid q (AsyncCallback pr user)) \<longrightarrow>
        pr < ex_next_promise ex \<and> (\<forall>tid'. ex_task_promises ex tid' = Some pr \<longrightarrow> tid' = tid))"

lemma promises_okD:
  assumes "promises_ok ex"
  shows "ex_task_promises ex tid = Some pr \<Longrightarrow> ex_promises ex pr = Unset"
    "ex_task_promises ex tid = Some pr \<Longrightarrow> pr < ex_next_promise ex"
    "ex_task_promises ex tid = Some pr \<Longrightarrow> ex_task_promises ex tid' = Some pr \<Longrightarrow> tid' = tid"
    "t_callback (ex_heap ex p) = Some (ExecutorCallback tid q (AsyncCallback pr user)) \<Longrightarrow> pr < ex_next_promise ex"
    "t_callback (ex_heap ex p) = Some (ExecutorCallback tid q (AsyncCallback pr user)) \<Longrightarrow>
       ex_task_promises ex tid' = Some pr \<Longrightarrow> tid' = tid"
  using assms unfolding promises_ok_def by blast+

lemma promises_ok_cong:
  assumes "promises_ok ex" and "ex_task_promises ex' = ex_task_promises ex" and "ex_promises ex' = ex_promises ex"
    and "ex_next_promise ex' = ex_next_promise ex" and "\<And>p. t_callback (ex_heap ex' p) = t_callback (ex_heap ex p)"
  shows "promises_ok ex'"
  using assms by (simp add: promises_ok_def)

text \<open>A promise that no task has registered may be set, and an entry may be dropped.\<close>

lemma promises_ok_settle:
  assumes ok: "promises_ok ex" and "\<And>tid'. tid' \<noteq> tid \<Longrightarrow> ex_task_promises ex tid' \<noteq> Some pr"
  shows "promises_ok (ex\<lparr>ex_task_promises := (ex_task_promises ex)(tid := None), ex_promises := (ex_promises ex)(pr := st)\<rparr>)"
  unfolding promises_ok_def
proof (intro conjI allI impI)
  let ?ex = "ex\<lparr>ex_task_promises := (ex_task_promises ex)(tid := None), ex_promises := (ex_promises ex)(pr := st)\<rparr>"
  fix t q
  assume "ex_task_promises ?ex t = Some q"
  then have t: "t \<noteq> tid" "ex_task_promises ex t = Some q" by (simp_all split: if_splits)
  with assms(2) have "q \<noteq> pr" by blast
  with promises_okD(1,2) [OF ok t(2)] show "ex_promises ?ex q = Unset" "q < ex_next_promise ?ex" by simp_all
  show "t' = t" if "ex_task_promises ?ex t' = Some q" for t'
    using promises_okD(3) [OF ok t(2), of t'] that by (simp split: if_splits)
next
  let ?ex = "ex\<lparr>ex_task_promises := (ex_task_promises ex)(tid := None), ex_promises := (ex_promises ex)(pr := st)\<rparr>"
  fix p t q r user
  assume cb: "t_callback (ex_heap ?ex p) = Some (ExecutorCallback t q (AsyncCallback r user))"
  then show "r < ex_next_promise ?ex" using promises_okD(4) [OF ok, of p t q r user] by simp
  show "t' = t" if "ex_task_promises ?ex t' = Some r" for t'
    using promises_okD(5) [OF ok, of p t q r user t'] cb that by (simp split: if_splits)
qed

lemma promises_ok_drop:
  assumes "promises_ok ex"
  shows "promises_ok (ex\<lparr>ex_task_promises := (ex_task_promises ex)(tid := None)\<rparr>)"
  using assms unfolding promises_ok_def by (auto split: if_splits)

text \<open>What the promise operations leave alone.\<close>

definition same_task_state :: "executor \<Rightarrow> executor \<Rightarrow> bool" where
  "same_task_state ex ex' \<longleftrightarrow> ex_pool ex' = ex_pool ex \<and> ex_terminated ex' = ex_terminated ex \<and>
     ex_scheduler_running ex' = ex_scheduler_running ex \<and> ex_next_promise ex' = ex_next_promise ex \<and>
     (\<forall>p. t_callback (ex_heap ex' p) = t_callback (ex_heap ex p))"

lemma same_task_state_refl [simp]: "same_task_state ex ex"
  by (simp add: same_task_state_def)

lemma same_task_state_trans: "same_task_state ex1 ex2 \<Longrightarrow> same_task_state ex2 ex3 \<Longrightarrow> same_task_state ex1 ex3"
  by (simp add: same_task_state_def)

lemma fail_promise_ok:
  assumes ok: "promises_ok ex" and step: "fail_promise tid e ex = (ex', r)"
  shows "r = None" "promises_ok ex'" "same_task_state ex ex'"
proof -
  have all: "r = None \<and> promises_ok ex' \<and> same_task_state ex ex'"
  proof (cases "ex_task_promises ex tid")
    case None
    with ok step show ?thesis by (simp add: fail_promise_def)
  next
    case (Some pr)
    have "ex' = ex\<lparr>ex_task_promises := (ex_task_promises ex)(tid := None),
        ex_promises := (ex_promises ex)(pr := PromiseException e)\<rparr>" "r = None"
      using step promises_okD(1) [OF ok Some] by (simp_all add: fail_promise_def Some set_promise_def)
    moreover have "ex_task_promises ex tid' \<noteq> Some pr" if "tid' \<noteq> tid" for tid'
      using promises_okD(3) [OF ok Some, of tid'] that by blast
    ultimately show ?thesis using promises_ok_settle [OF ok] by (simp add: same_task_state_def)
  qed
  then show "r = None" "promises_ok ex'" "same_task_state ex ex'" by simp_all
qed

lemma fulfill_promise_ok:
  assumes "promises_ok ex" and "fulfill_promise tid x ex = (ex', r)"
  shows "promises_ok ex'" "same_task_state ex ex'"
proof -
  have "promises_ok ex' \<and> same_task_state ex ex'"
  proof (cases "ex_task_promises ex tid")
    case None
    with assms show ?thesis by (simp add: fulfill_promise_def)
  next
    case (Some pr)
    have "ex' = ex\<lparr>ex_task_promises := (ex_task_promises ex)(tid := None),
        ex_promises := (ex_promises ex)(pr := PromiseValue x)\<rparr>"
      using assms(2) promises_okD(1) [OF assms(1) Some] by (auto simp: fulfill_promise_def Some set_promise_def)
    moreover have "ex_task_promises ex tid' \<noteq> Some pr" if "tid' \<noteq> tid" for tid'
      using promises_okD(3) [OF assms(1) Some, of tid'] that by blast
    ultimately show ?thesis using promises_ok_settle [OF assms(1)] by (simp add: same_task_state_def)
  qed
  then show "promises_ok ex'" "same_task_state ex ex'" by simp_all
qed

text \<open>After the wrapper has set the promise of its task, \<open>fulfill_promise\<close> drops the entry and throws.\<close>

lemma fulfill_after_set:
  assumes ok: "promises_ok ex" and own: "\<And>tid'. ex_task_promises ex tid' = Some pr \<Longrightarrow> tid' = tid"
    and step: "fulfill_promise tid x (ex\<lparr>ex_promises := (ex_promises ex)(pr := st)\<rparr>) = (ex', r)"
  shows "promises_ok ex'" "same_task_state ex ex'"
proof -
  let ?ex = "ex\<lparr>ex_promises := (ex_promises ex)(pr := st)\<rparr>"
  have "promises_ok ex' \<and> same_task_state ex ex'"
  proof (cases "ex_task_promises ex tid = Some pr")
    case False
    then have "ex_task_promises ex tid' \<noteq> Some pr" for tid' using own by blast
    then have "promises_ok ?ex" using ok unfolding promises_ok_def by auto
    from fulfill_promise_ok [OF this step] show ?thesis by (simp add: same_task_state_def)
  next
    case True
    let ?drop = "ex\<lparr>ex_task_promises := (ex_task_promises ex)(tid := None), ex_promises := (ex_promises ex)(pr := st)\<rparr>"
    have free: "ex_task_promises ex tid' \<noteq> Some pr" if "tid' \<noteq> tid" for tid' using own that by blast
    have "ex' = ?drop \<or> ex' = ?drop\<lparr>ex_promises := (ex_promises ex)(pr := PromiseValue x)\<rparr>"
      using step True by (auto simp: fulfill_promise_def set_promise_def split: if_splits)
    moreover have "promises_ok (?drop\<lparr>ex_promises := (ex_promises ex)(pr := PromiseValue x)\<rparr>)"
      using promises_ok_settle [OF ok free] by simp
    ultimately show ?thesis using promises_ok_settle [OF ok free, of tid st] by (auto simp: same_task_state_def)
  qed
  then show "promises_ok ex'" "same_task_state ex ex'" by simp_all
qed

subsection \<open>The success hook\<close>

lemma finish_callback_keeps:
  "promises_ok (clear_if_alive q (on_graph (notify_task_completed tid) ex)) = promises_ok ex"
  "same_task_state ex (clear_if_alive q (on_graph (notify_task_completed tid) ex))"
proof -
  let ?ex = "clear_if_alive q (on_graph (notify_task_completed tid) ex)"
  have cb: "t_callback (ex_heap ?ex p) = t_callback (ex_heap ex p)" for p
    by (auto simp: clear_if_alive_def on_ptr_def on_graph_def on_task_def clear_enqueued_flag_def
        notify_task_completed_def fold_on_task notify_pow_frame split: option.splits)
  have sel: "ex_task_promises ?ex = ex_task_promises ex" "ex_promises ?ex = ex_promises ex"
    "ex_next_promise ?ex = ex_next_promise ex" "ex_pool ?ex = ex_pool ex" "ex_terminated ?ex = ex_terminated ex"
    "ex_scheduler_running ?ex = ex_scheduler_running ex"
    by (simp_all add: clear_if_alive_def on_ptr_def on_graph_def)
  show "promises_ok ?ex = promises_ok ex" by (simp add: promises_ok_def cb sel)
  show "same_task_state ex ?ex" by (simp add: same_task_state_def cb sel)
qed

lemma run_task_callback_ok:
  assumes ok: "promises_ok ex" and cb: "t_callback (ex_heap ex p) = Some c"
    and step: "run_task_callback c x ex = (ex', r)"
  shows "promises_ok ex' \<and> same_task_state ex ex'"
proof (cases c)
  case (DirectCallback f)
  with ok step show ?thesis by (simp add: run_task_callback_def)
next
  case (ExecutorCallback tid q scb)
  define fin where "fin = (\<lambda>ex. (clear_if_alive q (on_graph (notify_task_completed tid) ex), None :: exn option))"
  define k where "k = (\<lambda>ex. continue (fulfill_promise tid x ex) fin)"
  have step': "continue (run_submission_callback scb x ex) k = (ex', r)"
    using step by (simp add: ExecutorCallback run_task_callback_def k_def fin_def)
  have k: "promises_ok ex'' \<and> same_task_state ex1 ex''"
    if "fulfill_promise tid x ex1 = (ex2, r2)" "promises_ok ex2" "same_task_state ex1 ex2" "k ex1 = (ex'', r'')"
    for ex1 ex2 ex'' r2 r''
  proof -
    have "continue (ex2, r2) fin = (ex'', r'')" using that(1,4) by (simp add: k_def)
    from continue_cases [OF this] show ?thesis
      using that(2,3) finish_callback_keeps [where q = q and tid = tid and ex = ex2] same_task_state_trans unfolding fin_def by auto
  qed
  have plain: ?thesis if "run_submission_callback scb x ex = (ex, r0)" for r0
  proof -
    obtain ex2 r2 where ff: "fulfill_promise tid x ex = (ex2, r2)" by fastforce
    from that step' have "continue (ex, r0) k = (ex', r)" by simp
    from continue_cases [OF this] show ?thesis
      using ok k [OF ff fulfill_promise_ok [OF ok ff]] by auto
  qed
  show ?thesis
  proof (cases scb)
    case (AsyncCallback pr user)
    let ?set = "ex\<lparr>ex_promises := (ex_promises ex)(pr := PromiseValue x)\<rparr>"
    have own: "\<And>tid'. ex_task_promises ex tid' = Some pr \<Longrightarrow> tid' = tid"
      using promises_okD(5) [OF ok, of p tid q pr user] cb by (simp add: ExecutorCallback AsyncCallback)
    obtain ex1 r1 where first: "run_submission_callback scb x ex = (ex1, r1)" by fastforce
    then have "ex1 = ex \<or> ex1 = ?set"
      by (auto simp: AsyncCallback run_submission_callback_def set_promise_def elim!: continue.elims
          split: option.splits if_splits)
    then show ?thesis
    proof
      assume "ex1 = ex"
      with plain first show ?thesis by simp
    next
      assume ex1: "ex1 = ?set"
      show ?thesis
      proof (cases "ex1 = ex")
        case True
        with plain first show ?thesis by simp
      next
        case False
        have "r1 = None"
          using first False by (auto simp: AsyncCallback run_submission_callback_def set_promise_def
              elim!: continue.elims split: option.splits if_splits)
        with first ex1 step' have last: "k ?set = (ex', r)" by simp
        obtain ex2 r2 where ff: "fulfill_promise tid x ?set = (ex2, r2)" by fastforce
        note settled = fulfill_after_set [OF ok own ff]
        have "same_task_state ?set ex2" using settled(2) by (simp add: same_task_state_def)
        from k [OF ff settled(1) this last] show ?thesis by (simp add: same_task_state_def)
      qed
    qed
  qed (use plain in \<open>auto simp: run_submission_callback_def\<close>)
qed

lemma invoke_callback_ok:
  assumes "promises_ok ex" and "invoke_callback p x ex = (ex', r)"
  shows "promises_ok ex' \<and> same_task_state ex ex'"
  using assms run_task_callback_ok [OF assms(1), of p]
  by (cases "t_callback (ex_heap ex p)") (auto simp: invoke_callback_def)

subsection \<open>Every step of a running executor\<close>

definition open_ok :: "executor \<Rightarrow> bool" where
  "open_ok ex \<longleftrightarrow> promises_ok ex \<and> pl_running (ex_pool ex) \<and> pl_num_threads (ex_pool ex) \<noteq> 0 \<and> \<not> ex_terminated ex"

lemma open_ok_same: "same_task_state ex ex' \<Longrightarrow> promises_ok ex' \<Longrightarrow> open_ok ex \<Longrightarrow> open_ok ex'"
  by (simp add: open_ok_def same_task_state_def)

lemma open_ok_cong:
  assumes "open_ok ex" and "ex_task_promises ex' = ex_task_promises ex" and "ex_promises ex' = ex_promises ex"
    and "ex_next_promise ex' = ex_next_promise ex" and "\<And>p. t_callback (ex_heap ex' p) = t_callback (ex_heap ex p)"
    and "ex_terminated ex' = ex_terminated ex" and "pl_running (ex_pool ex')"
    and "pl_num_threads (ex_pool ex') = pl_num_threads (ex_pool ex)"
  shows "open_ok ex'"
  using assms promises_ok_cong [OF _ assms(2-5)] by (simp add: open_ok_def)

lemma open_ok_ptr:
  assumes "open_ok ex" and "t_callback (f (ex_heap ex p)) = t_callback (ex_heap ex p)"
  shows "open_ok (on_ptr p f ex)"
  by (rule open_ok_cong [OF assms(1)])
    (use assms in \<open>auto simp: on_ptr_def on_task_def open_ok_def\<close>)

lemma open_ok_monitored: "open_ok ex \<Longrightarrow> open_ok (monitored f ex)"
  by (rule open_ok_cong) (auto simp: monitored_def open_ok_def)

lemma open_ok_worker: "open_ok ex \<Longrightarrow> open_ok (set_worker w st ex)"
  by (rule open_ok_cong) (auto simp: set_worker_def open_ok_def)

lemma open_ok_pool:
  "open_ok ex \<Longrightarrow> pl_running pool \<Longrightarrow> pl_num_threads pool = pl_num_threads (ex_pool ex) \<Longrightarrow> open_ok (ex\<lparr>ex_pool := pool\<rparr>)"
  by (rule open_ok_cong) (auto simp: open_ok_def)

lemma open_ok_add_dependency: "open_ok ex \<Longrightarrow> open_ok (on_graph (graph_add_dependency tid dep) ex)"
  by (rule open_ok_cong)
    (auto simp: on_graph_def graph_add_dependency_def add_dep_heap open_ok_def split: option.splits)

lemma open_ok_notify: "open_ok ex \<Longrightarrow> open_ok (on_graph (notify_task_completed tid) ex)"
  by (rule open_ok_cong)
    (auto simp: on_graph_def notify_task_completed_def fold_on_task notify_pow_frame open_ok_def split: option.splits)

lemma open_ok_mark:
  assumes "open_ok ex" and "try_mark_enqueued (ex_heap ex p) = (t, ok)"
  shows "open_ok (on_ptr p (\<lambda>_. t) ex)"
  by (rule open_ok_ptr [OF assms(1)]) (use assms(2) in \<open>auto simp: try_mark_enqueued_def split: if_splits\<close>)

lemma find_task_frame:
  "pl_running (fst (find_task cas p w)) = pl_running p" "pl_num_threads (fst (find_task cas p w)) = pl_num_threads p"
  by (auto simp: find_task_def Let_def split: prod.splits option.splits)

lemma submit_to_pool_open:
  assumes ok: "open_ok ex" and step: "submit_to_pool cas p ex = (ex', r)"
  shows "r = Return ()" "open_ok ex'"
proof -
  have run: "pl_running (ex_pool ex)" "pl_num_threads (ex_pool ex) \<noteq> 0" using ok by (simp_all add: open_ok_def)
  have "\<exists>pool. pool_submit cas (ex_pool ex) p (t_priority (ex_heap ex p)) = Return pool \<and>
      pl_running pool \<and> pl_num_threads pool = pl_num_threads (ex_pool ex)"
    using run by (auto simp: pool_submit_def try_submit_to_local_def submit_round_def Let_def
        split: prod.splits round_result.splits)
  then obtain pool where pool: "pool_submit cas (ex_pool ex) p (t_priority (ex_heap ex p)) = Return pool"
    "pl_running pool" "pl_num_threads pool = pl_num_threads (ex_pool ex)" by blast
  with step show "r = Return ()" by (simp add: submit_to_pool_def)
  have "ex' = ex\<lparr>ex_pool := pool\<rparr>" using step pool(1) by (simp add: submit_to_pool_def)
  then show "open_ok ex'" using open_ok_pool [OF ok pool(2,3)] by simp
qed

lemma worker_part_open:
  assumes ok: "open_ok ex"
  shows "open_ok (worker_part part w ex)"
proof (cases part)
  case (PTake cas now)
  show ?thesis
  proof (cases "ex_workers ex ! w")
    case Searching
    obtain pool r where found: "find_task cas (ex_pool ex) w = (pool, r)" by fastforce
    have open1: "open_ok (ex\<lparr>ex_pool := pool\<rparr>)"
      using find_task_frame [of cas "ex_pool ex" w] ok
      by (intro open_ok_pool [OF ok]) (simp_all add: found open_ok_def)
    show ?thesis
    proof (cases r)
      case None
      then show ?thesis using open_ok_worker [OF open1] by (simp add: PTake worker_take_def Searching found)
    next
      case (Some p)
      let ?ex = "on_start now p (ex\<lparr>ex_pool := pool\<rparr>)"
      have open2: "open_ok ?ex" by (simp add: on_start_def Let_def open_ok_monitored [OF open1])
      have "open_ok (set_worker w st (on_ptr p (\<lambda>_. t) ?ex))" if "t_callback t = t_callback (ex_heap ?ex p)" for st t
        by (rule open_ok_worker [OF open_ok_ptr [OF open2]]) (rule that)
      then show ?thesis
        by (auto simp: PTake worker_take_def Searching found Some Let_def execute_begin_def split: sum.splits if_splits)
    qed
  qed (use ok in \<open>simp_all add: PTake worker_take_def\<close>)
next
  case (PExecute c)
  show ?thesis
  proof (cases "ex_workers ex ! w")
    case (Executing p)
    obtain t r where run: "execute_end c (ex_heap ex p) = (t, r)" by fastforce
    have "t_callback t = t_callback (ex_heap ex p)"
      using frame_execute_end [OF run] by (simp add: frame_def)
    then have "open_ok (set_worker w st (on_ptr p (\<lambda>_. t) ex))" for st
      by (intro open_ok_worker open_ok_ptr [OF ok])
    then show ?thesis by (cases r) (simp_all add: PExecute worker_execute_def Executing run)
  qed (use ok in \<open>simp_all add: PExecute worker_execute_def\<close>)
next
  case PSuccess
  show ?thesis
  proof (cases "ex_workers ex ! w")
    case (Returned p x)
    let ?ex = "monitored (record_completion (execution_time (ex_heap ex p))) ex"
    obtain ex' r where run: "invoke_callback p x ?ex = (ex', r)" by fastforce
    have "open_ok ?ex" by (rule open_ok_monitored [OF ok])
    with invoke_callback_ok [OF _ run] have "open_ok ex'" using open_ok_same by (simp add: open_ok_def same_task_state_def)
    then show ?thesis
      using open_ok_worker by (cases r) (simp_all add: PSuccess worker_success_def Returned on_success_def run)
  qed (use ok in \<open>simp_all add: PSuccess worker_success_def\<close>)
qed (use ok open_ok_worker in \<open>auto simp: worker_loop_head_def worker_pause_check_def worker_wake_def split: worker.splits\<close>)

lemma create_task_open:
  assumes ok: "open_ok ex"
    and plain: "promise = None \<Longrightarrow> \<nexists>pr user. sub_callback sub = AsyncCallback pr user"
    and async: "\<And>pr. promise = Some pr \<Longrightarrow> \<exists>user. sub_callback sub = AsyncCallback pr user"
    and new: "\<And>pr. promise = Some pr \<Longrightarrow> pr < ex_next_promise ex \<and> ex_promises ex pr = Unset \<and>
        (\<forall>tid. ex_task_promises ex tid \<noteq> Some pr) \<and>
        (\<forall>p tid q user. t_callback (ex_heap ex p) \<noteq> Some (ExecutorCallback tid q (AsyncCallback pr user)))"
  shows "open_ok (create_task now func name sub promise ex)"
proof -
  let ?ex = "create_task now func name sub promise ex" and ?tid = "ex_next_task_id ex" and ?p = "ex_next_ptr ex"
  note sel = create_task_sel [of now func name sub promise ex]
  have settled: "ex_promises ?ex = ex_promises ex" "ex_next_promise ?ex = ex_next_promise ex"
    "ex_task_promises ?ex = (case promise of None \<Rightarrow> ex_task_promises ex | Some pr \<Rightarrow> (ex_task_promises ex)(?tid \<mapsto> pr))"
    by (simp_all add: create_task_def Let_def on_graph_def on_ptr_def monitored_def register_promise_def split: option.splits)
  have cb: "t_callback (ex_heap ?ex q) = (if q = ?p then Some (ExecutorCallback ?tid ?p (sub_callback sub))
      else t_callback (ex_heap ex q))" for q
    by (simp add: sel set_callback_def)
  note okp = promises_okD [of ex]
  have prom: "promises_ok ex" using ok by (simp add: open_ok_def)
  have "promises_ok ?ex"
  proof (cases promise)
    case None
    with plain prom show ?thesis unfolding promises_ok_def settled cb by auto
  next
    case (Some pr)
    with async obtain user where user: "sub_callback sub = AsyncCallback pr user" by blast
    from prom new [OF Some] show ?thesis
      unfolding promises_ok_def Some settled [unfolded Some option.case] cb [unfolded Some user] by auto
  qed
  then show ?thesis using ok by (simp add: open_ok_def sel)
qed

text \<open>The promise that \<open>submit_async\<close> makes is new.\<close>

lemma new_promise_open:
  assumes ok: "open_ok ex"
  defines "pr \<equiv> ex_next_promise ex"
  defines "ex1 \<equiv> ex\<lparr>ex_next_promise := Suc pr, ex_promises := (ex_promises ex)(pr := Unset)\<rparr>"
  shows "open_ok ex1" "open_ok (create_task now func name
    \<lparr>sub_dependencies = deps, sub_options = opts, sub_callback = AsyncCallback pr user\<rparr> (Some pr) ex1)"
proof -
  have prom: "promises_ok ex" using ok by (simp add: open_ok_def)
  have free: "ex_task_promises ex tid \<noteq> Some pr"
    "t_callback (ex_heap ex p) \<noteq> Some (ExecutorCallback tid q (AsyncCallback pr user'))" for tid p q user'
    using promises_okD(2) [OF prom, of tid pr] promises_okD(4) [OF prom, of p tid q pr user'] by (auto simp: pr_def)
  have "promises_ok ex1" using prom free unfolding promises_ok_def ex1_def pr_def by (auto simp: less_Suc_eq)
  then show open1: "open_ok ex1" using ok by (simp add: open_ok_def ex1_def)
  show "open_ok (create_task now func name
    \<lparr>sub_dependencies = deps, sub_options = opts, sub_callback = AsyncCallback pr user\<rparr> (Some pr) ex1)"
    by (rule create_task_open [OF open1]) (use free in \<open>auto simp: ex1_def\<close>)
qed

lemma cancel_open:
  assumes ok: "open_ok ex"
  shows "open_ok (fst (executor_cancel tid ex))" "ex_scheduler_running (fst (executor_cancel tid ex)) = ex_scheduler_running ex"
    "\<exists>b. snd (executor_cancel tid ex) = Return b"
proof -
  let ?ex = "fst (executor_cancel tid ex)"
  have "open_ok ?ex \<and> ex_scheduler_running ?ex = ex_scheduler_running ex \<and> (\<exists>b. snd (executor_cancel tid ex) = Return b)"
  proof (cases "get_task tid (ex_graph ex)")
    case None
    with ok show ?thesis by (auto simp: executor_cancel_def)
  next
    case (Some p)
    obtain t b where cancel: "task_cancel (ex_heap ex p) = (t, b)" by fastforce
    show ?thesis
    proof (cases b)
      case False
      with ok Some cancel show ?thesis by (auto simp: executor_cancel_def)
    next
      case True
      let ?ex1 = "on_ptr p (\<lambda>_. t) ex"
      have open1: "open_ok ?ex1"
        by (rule open_ok_ptr [OF ok]) (use cancel in \<open>auto simp: task_cancel_def split: if_splits\<close>)
      obtain ex2 r where fail: "fail_promise tid (RuntimeError ''Task cancelled'') ?ex1 = (ex2, r)" by fastforce
      have "promises_ok ?ex1" using open1 by (simp add: open_ok_def)
      note law = fail_promise_ok [OF this fail]
      have open2: "open_ok ex2" by (rule open_ok_same [OF law(3,2) open1])
      have "open_ok (on_ptr p clear_enqueued_flag (on_graph (notify_task_completed tid) (monitored record_cancellation ex2)))"
        by (rule open_ok_ptr [OF open_ok_notify [OF open_ok_monitored [OF open2]]]) (simp add: clear_enqueued_flag_def)
      moreover have "ex_scheduler_running ex2 = ex_scheduler_running ex" using law(3) by (simp add: same_task_state_def)
      ultimately show ?thesis using Some cancel True law(1) fail by (auto simp: executor_cancel_def)
    qed
  qed
  then show "open_ok ?ex" "ex_scheduler_running ?ex = ex_scheduler_running ex"
    "\<exists>b. snd (executor_cancel tid ex) = Return b" by simp_all
qed

lemma worker_failure_open:
  assumes ok: "open_ok ex"
  shows "open_ok (worker_failure cas w ex)"
proof (cases "ex_workers ex ! w")
  case (Threw p e)
  let ?ex = "monitored record_failure ex"
  have open1: "open_ok ?ex" by (rule open_ok_monitored [OF ok])
  have "snd (handle_failure cas p e ?ex) = Return () \<and> open_ok (fst (handle_failure cas p e ?ex))"
  proof (cases "can_retry (ex_heap ?ex p)")
    case True
    let ?ex1 = "on_ptr p reset_for_retry (monitored record_retry ?ex)"
    have open2: "open_ok ?ex1"
      by (rule open_ok_ptr [OF open_ok_monitored [OF open1]]) (simp add: reset_for_retry_def clear_enqueued_flag_def)
    obtain ex' r where step: "mark_and_submit cas p ?ex1 = (ex', r)" by fastforce
    then have "r = Return () \<and> open_ok ex'"
    proof (cases rule: mark_and_submit_cases)
      case (mine t)
      from submit_to_pool_open [OF open_ok_mark [OF open2 mine(1)] mine(2)] show ?thesis by blast
    qed (use open2 in simp)
    with True step show ?thesis by (simp add: handle_failure_def)
  next
    case False
    obtain ex1 r where fail: "fail_promise (t_id (ex_heap ?ex p)) e ?ex = (ex1, r)" by fastforce
    have "promises_ok ?ex" using open1 by (simp add: open_ok_def)
    note law = fail_promise_ok [OF this fail]
    have "open_ok (on_ptr p clear_enqueued_flag (on_graph (notify_task_completed (t_id (ex_heap ?ex p))) ex1))"
      by (rule open_ok_ptr [OF open_ok_notify [OF open_ok_same [OF law(3,2) open1]]]) (simp add: clear_enqueued_flag_def)
    with False fail law(1) show ?thesis by (simp add: handle_failure_def Let_def)
  qed
  then obtain ex' where "handle_failure cas p e ?ex = (ex', Return ())" "open_ok ex'"
    by (cases "handle_failure cas p e ?ex") auto
  then show ?thesis
    using open_ok_worker [of ex'] by (simp add: worker_failure_def Threw on_failure_def split: unit.splits)
qed (use ok in \<open>simp_all add: worker_failure_def\<close>)

subsection \<open>Nothing ends the process before stop\<close>

text \<open>The interleavings of Executor_Interleaving without \<open>stop\<close>, with cancellations by any client.\<close>

fun open_event :: "sys_event \<Rightarrow> bool" where
  "open_event (ISubmit i now func name sub) \<longleftrightarrow>
     (case sub_callback sub of AsyncCallback pr user \<Rightarrow> False | _ \<Rightarrow> True)"
| "open_event (IStop i) \<longleftrightarrow> False"
| "open_event e \<longleftrightarrow> True"

inductive open_reach :: "system \<Rightarrow> system \<Rightarrow> bool" for sy0 :: system where
  refl: "open_reach sy0 sy0"
| step: "open_reach sy0 sy \<Longrightarrow> sys_ok sy e \<Longrightarrow> open_event e \<Longrightarrow> open_reach sy0 (sys_apply e sy)"
| cancel: "open_reach sy0 sy \<Longrightarrow> open_reach sy0 (sy\<lparr>sy_ex := fst (executor_cancel tid (sy_ex sy))\<rparr>)"

definition open_system :: "system \<Rightarrow> bool" where
  "open_system sy \<longleftrightarrow> open_ok (sy_ex sy) \<and> (sy_sched sy = SNone \<or> ex_scheduler_running (sy_ex sy)) \<and>
     (\<forall>c \<in> set (sy_clients sy). c \<noteq> CJoin \<and> c \<noteq> CShutdown)"

lemma open_system_ex:
  assumes "open_system sy" and "open_ok ex" and "ex_scheduler_running ex = ex_scheduler_running (sy_ex sy)"
  shows "open_system (sy\<lparr>sy_ex := ex\<rparr>)" "open_system (set_retry w r (sy\<lparr>sy_ex := ex\<rparr>))"
    "c \<noteq> CJoin \<Longrightarrow> c \<noteq> CShutdown \<Longrightarrow> open_system (set_client i c (sy\<lparr>sy_ex := ex\<rparr>))"
  using assms set_update_subset_insert [of "sy_clients sy" i c] by (auto simp: open_system_def)

lemma client_step_open:
  assumes inv: "open_system sy" and i: "i < length (sy_clients sy)"
  shows "open_system (client_step cas i sy)"
proof -
  have ok: "open_ok (sy_ex sy)" using inv by (simp add: open_system_def)
  have c: "sy_clients sy ! i \<noteq> CJoin" "sy_clients sy ! i \<noteq> CShutdown"
    using inv i by (auto simp: open_system_def)
  show ?thesis
  proof (cases "sy_clients sy ! i")
    case (CDepend tid p deps)
    show ?thesis
    proof (cases deps)
      case Nil
      then show ?thesis
        using open_system_ex(3) [OF inv ok, where i = i] by (simp add: client_step_def CDepend Let_def)
    next
      case (Cons dep rest)
      then show ?thesis
        using open_system_ex(3) [OF inv open_ok_add_dependency [OF ok], where i = i]
        by (simp add: client_step_def CDepend Let_def)
    qed
  next
    case (CMark p)
    obtain t r where mark: "try_mark_enqueued (ex_heap (sy_ex sy) p) = (t, r)" by fastforce
    show ?thesis
      using open_system_ex(3) [OF inv open_ok_mark [OF ok mark], where i = i]
      by (simp add: client_step_def CMark mark Let_def)
  next
    case (CPut p)
    obtain ex' r where put: "submit_to_pool cas p (sy_ex sy) = (ex', r)" by fastforce
    note law = submit_to_pool_open [OF ok put]
    show ?thesis
      using open_system_ex(3) [OF inv law(2) submit_to_pool_frame(2) [OF put], where i = i] law(1)
      by (simp add: client_step_def CPut put Let_def split: unit.splits)
  qed (use inv c in \<open>simp_all add: client_step_def\<close>)
qed

lemma scheduler_step_open:
  assumes inv: "open_system sy"
  shows "open_system (scheduler_step cas sy)"
proof -
  have ok: "open_ok (sy_ex sy)" using inv by (simp add: open_system_def)
  have move: "open_system (sy\<lparr>sy_ex := ex, sy_sched := s\<rparr>)"
    if "open_ok ex" "ex_scheduler_running ex = ex_scheduler_running (sy_ex sy)" "sy_sched sy \<noteq> SNone" for ex s
    using inv that by (auto simp: open_system_def)
  have stay: "open_system (sy\<lparr>sy_sched := s\<rparr>)" if "sy_sched sy \<noteq> SNone" for s
    using inv that by (auto simp: open_system_def)
  show ?thesis
  proof (cases "sy_sched sy")
    case (SMark ps)
    show ?thesis
    proof (cases ps)
      case Nil
      then show ?thesis using stay by (simp add: scheduler_step_def SMark Let_def)
    next
      case (Cons p rest)
      obtain t r where mark: "try_mark_enqueued (ex_heap (sy_ex sy) p) = (t, r)" by fastforce
      show ?thesis
        using move [OF open_ok_mark [OF ok mark]] by (simp add: scheduler_step_def SMark Cons mark Let_def)
    qed
  next
    case (SPut p ps)
    obtain ex' r where put: "submit_to_pool cas p (sy_ex sy) = (ex', r)" by fastforce
    note law = submit_to_pool_open [OF ok put]
    show ?thesis
      using move [OF law(2) submit_to_pool_frame(2) [OF put]] law(1)
      by (simp add: scheduler_step_def SPut put Let_def split: unit.splits)
  qed (use inv stay in \<open>simp_all add: scheduler_step_def Let_def\<close>)
qed

lemma retry_step_open:
  assumes inv: "open_system sy"
  shows "open_system (failure_begin w sy)" "open_system (retry_step cas w sy)"
proof -
  have ok: "open_ok (sy_ex sy)" using inv by (simp add: open_system_def)
  show "open_system (failure_begin w sy)"
  proof (cases "ex_workers (sy_ex sy) ! w")
    case (Threw p e)
    let ?ex1 = "monitored record_retry (monitored record_failure (sy_ex sy))"
    have "open_ok (set_worker w LoopHead (on_ptr p reset_for_retry ?ex1))"
      by (intro open_ok_worker open_ok_ptr open_ok_monitored ok) (simp add: reset_for_retry_def clear_enqueued_flag_def)
    then show ?thesis
      using open_system_ex(1) [OF inv worker_failure_open [OF ok] failure_running] open_system_ex(2) [OF inv]
      by (simp add: failure_begin_def Threw Let_def)
  qed (use inv in \<open>simp_all add: failure_begin_def\<close>)
  show "open_system (retry_step cas w sy)"
  proof (cases "sy_retries sy ! w")
    case (RMark p)
    obtain t r where mark: "try_mark_enqueued (ex_heap (sy_ex sy) p) = (t, r)" by fastforce
    show ?thesis
      using open_system_ex(2) [OF inv open_ok_mark [OF ok mark]] by (simp add: retry_step_def RMark mark Let_def)
  next
    case (RPut p)
    obtain ex' r where put: "submit_to_pool cas p (sy_ex sy) = (ex', r)" by fastforce
    note law = submit_to_pool_open [OF ok put]
    show ?thesis
      using open_system_ex(2) [OF inv law(2) submit_to_pool_frame(2) [OF put]] law(1)
      by (simp add: retry_step_def RPut put Let_def split: unit.splits)
  qed (use inv in \<open>simp add: retry_step_def\<close>)
qed

lemma client_submit_open:
  assumes inv: "open_system sy" and new: "open_ok (create_task now func name sub promise (sy_ex sy))"
  shows "open_system (client_submit i now func name sub promise sy)"
  using open_system_ex(3) [OF inv new, where i = i] by (simp add: client_submit_def Let_def)

lemma sys_apply_open:
  assumes inv: "open_system sy" and ok: "sys_ok sy e" and ev: "open_event e"
  shows "open_system (sys_apply e sy)"
proof -
  let ?ex = "sy_ex sy"
  have oex: "open_ok ?ex" and sched: "sy_sched sy = SNone \<or> ex_scheduler_running ?ex"
    using inv by (simp_all add: open_system_def)
  have pool: "open_system (sy\<lparr>sy_ex := ?ex\<lparr>ex_pool := pool\<rparr>\<rparr>)"
    if "pl_running pool = pl_running (ex_pool ?ex)" "pl_num_threads pool = pl_num_threads (ex_pool ?ex)" for pool
    by (rule open_system_ex(1) [OF inv open_ok_pool [OF oex]]) (use that oex in \<open>simp_all add: open_ok_def\<close>)
  show ?thesis
  proof (cases e)
    case (ISubmit i now func name sub)
    have "open_ok (create_task now func name sub None ?ex)"
      by (rule create_task_open [OF oex]) (use ev ISubmit in \<open>auto split: submission_callback.splits\<close>)
    from client_submit_open [OF inv this] show ?thesis by (simp add: ISubmit)
  next
    case (ISubmitAsync i now func name deps opts user)
    note new = new_promise_open [OF oex]
    show ?thesis
      using client_submit_open [OF open_system_ex(1) [OF inv new(1)]] new(2)
      by (simp add: ISubmitAsync client_submit_async_def Let_def)
  next
    case IStart
    have "open_ok (executor_start ?ex)"
      by (rule open_ok_cong [OF oex]) (use oex in \<open>simp_all add: executor_start_def open_ok_def\<close>)
    then show ?thesis
      using inv sched by (auto simp: IStart client_start_def Let_def open_system_def executor_start_def)
  next
    case (IClient cas i)
    then show ?thesis using client_step_open [OF inv] ok by simp
  next
    case (IWorker part w)
    then show ?thesis using open_system_ex(1) [OF inv worker_part_open [OF oex] worker_running] by simp
  next
    case (IRound c cw k)
    have "pl_running (waiting_round c cw k (ex_pool ?ex)) = pl_running (ex_pool ?ex)"
      "pl_num_threads (waiting_round c cw k (ex_pool ?ex)) = pl_num_threads (ex_pool ?ex)"
      by (auto simp: waiting_round_def submit_round_def split: prod.splits round_result.splits)
    then show ?thesis using pool by (simp add: IRound)
  qed (use ev scheduler_step_open [OF inv] retry_step_open [OF inv] pool in
      \<open>simp_all add: pool_pause_def pool_resume_def\<close>)
qed

lemma open_reach_inv:
  assumes "open_reach sy0 sy" and "open_system sy0"
  shows "open_system sy"
  using assms(1)
proof (induction rule: open_reach.induct)
  case (cancel sy tid)
  have "open_ok (sy_ex sy)" using cancel.IH by (simp add: open_system_def)
  from open_system_ex(1) [OF cancel.IH cancel_open(1,2) [OF this]] show ?case .
qed (use assms(2) sys_apply_open in blast)+


text \<open>A run of one client, which submits a task; worker 0 runs it.\<close>

fun open_run_ok :: "sys_event list \<Rightarrow> system \<Rightarrow> bool" where
  "open_run_ok [] sy \<longleftrightarrow> True"
| "open_run_ok (e # es) sy \<longleftrightarrow> sys_ok sy e \<and> open_event e \<and> open_run_ok es (sys_apply e sy)"

lemma open_reach_run: "open_reach sy0 sy \<Longrightarrow> open_run_ok es sy \<Longrightarrow> open_reach sy0 (fold sys_apply es sy)"
  by (induction es arbitrary: sy) (auto intro: open_reach.step)

definition open_end :: system where
  "open_end = fold sys_apply ([IStart] @ submission_run ''a'' [] @ replicate 2 (IClient always 0) @ worker_run 0)
     (system_of 1 demo_start)"

lemma open_end_reach: "open_reach (system_of 1 (executor_on_pool pool2 (Some zero_metrics))) open_end"
  unfolding open_end_def demo_start_def [symmetric]
  by (rule open_reach_run [OF open_reach.refl]) code_simp


end
