(* ===== verification/Executor_Live.thy ===== *)
theory Executor_Live
  imports Executor_Open
begin

section \<open>Runs before stop\<close>

text \<open>
  What holds in every run in which clients submit, start, pause and resume but do not stop or cancel:
  the process does not end, the workers stay, every marked task is in the pool or with a worker, and
  each step of a worker is one that \<open>distance\<close> measures. Executor_Completion builds on it.
\<close>

subsection \<open>Marked tasks are placed\<close>

text \<open>The converse of the invariant of Executor_Safety; it needs a pool that accepts submissions.\<close>

definition all_placed :: "executor \<Rightarrow> bool" where
  "all_placed ex \<longleftrightarrow> (\<forall>q \<in> ex_ptrs ex. t_enqueued (ex_heap ex q) \<longrightarrow> q \<in># placed ex)"

lemma all_placed_same:
  assumes "all_placed ex" and "ex_ptrs ex' = ex_ptrs ex" and "placed ex \<subseteq># placed ex'"
    and "\<And>q. t_enqueued (ex_heap ex' q) = t_enqueued (ex_heap ex q)"
  shows "all_placed ex'"
  using assms by (auto simp: all_placed_def dest: mset_subset_eqD)

lemma all_placed_core: "same_core ex ex' \<Longrightarrow> all_placed ex' = all_placed ex"
  by (simp add: same_core_def all_placed_def placed_def)

text \<open>A task leaves its worker with its flag cleared.\<close>

lemma all_placed_drop:
  assumes ok: "all_placed ex" and "ex_ptrs ex' = ex_ptrs ex" and placed: "placed ex' + {#p#} = placed ex"
    and clear: "\<not> t_enqueued (ex_heap ex' p)"
    and same: "\<And>q. q \<in> ex_ptrs ex \<Longrightarrow> q \<noteq> p \<Longrightarrow> t_enqueued (ex_heap ex' q) = t_enqueued (ex_heap ex q)"
  shows "all_placed ex'"
proof -
  have "q \<in># placed ex'" if "q \<in> ex_ptrs ex" "t_enqueued (ex_heap ex' q)" for q
  proof -
    have "q \<noteq> p" using that(2) clear by blast
    with same that have "q \<in># placed ex" using ok by (auto simp: all_placed_def)
    then have "q \<in># placed ex' + {#p#}" by (simp only: placed)
    with \<open>q \<noteq> p\<close> show ?thesis by simp
  qed
  then show ?thesis using assms(2) by (simp add: all_placed_def)
qed

lemma worker_placed:
  assumes "w < length (ex_workers ex)"
  shows "placed (set_worker w st ex) + held (ex_workers ex ! w) = placed ex + held st"
  using held_sum_update [OF assms, of st] by (simp add: placed_def set_worker_def add.assoc)

lemma all_placed_worker:
  assumes ok: "all_placed ex" and w: "w < length (ex_workers ex)" and held: "held (ex_workers ex ! w) = held st"
  shows "all_placed (set_worker w st ex)"
  by (rule all_placed_same [OF ok]) (use worker_placed [OF w, of st] held in \<open>simp_all add: set_worker_def\<close>)

lemma all_placed_ptr:
  assumes "all_placed ex" and "t_enqueued (f (ex_heap ex p)) = t_enqueued (ex_heap ex p)"
  shows "all_placed (on_ptr p f ex)"
  by (rule all_placed_same [OF assms(1)]) (use assms(2) in \<open>auto simp: on_ptr_def on_task_def placed_def\<close>)

lemma all_placed_finish:
  assumes inv: "ex_inv ex" and ok: "all_placed ex" and w: "w < length (ex_workers ex)"
    and held: "held (ex_workers ex ! w) = {#p#}"
  shows "all_placed (set_worker w LoopHead (finish_task p ex))"
proof -
  have p: "p \<in> ex_ptrs ex" using placed_enqueued(1) [OF inv held_placed [OF w]] held by simp
  note heap = finish_task_heap [OF ex_invD(3) [OF inv] p]
  show ?thesis
  proof (rule all_placed_drop [OF ok, where p = p])
    show "placed (set_worker w LoopHead (finish_task p ex)) + {#p#} = placed ex"
      using worker_placed [of w "finish_task p ex" LoopHead] w held by (simp add: placed_def)
    show "\<not> t_enqueued (ex_heap (set_worker w LoopHead (finish_task p ex)) p)"
      using heap [OF p] by (simp add: set_worker_def clear_enqueued_flag_def)
    show "t_enqueued (ex_heap (set_worker w LoopHead (finish_task p ex)) q) = t_enqueued (ex_heap ex q)"
      if "q \<in> ex_ptrs ex" "q \<noteq> p" for q
      using heap [OF that(1)] that(2) by (simp add: set_worker_def notify_pow)
  qed (simp add: set_worker_def)
qed

lemma all_placed_mark_and_submit:
  assumes inv: "pool_inv (ex_pool ex)" and ok: "all_placed ex"
    and step: "mark_and_submit cas p ex = (ex', Return ())"
  shows "all_placed ex'"
  using step
proof (cases rule: mark_and_submit_cases)
  case (other t)
  with ok show ?thesis by simp
next
  case (mine t)
  let ?ex = "on_ptr p (\<lambda>_. t) ex"
  have "pool_inv (ex_pool ?ex)" using inv by (simp add: on_ptr_def)
  from submit_to_pool_law [OF this mine(2)] obtain pool where ex': "ex' = ?ex\<lparr>ex_pool := pool\<rparr>"
    and items: "pool_items pool = pool_items (ex_pool ?ex) + {#p#}" by auto
  have "placed ex' = placed ex + {#p#}" using items by (simp add: ex' placed_def on_ptr_def)
  moreover have "t_enqueued (ex_heap ex' q) = t_enqueued (ex_heap ex q)" if "q \<noteq> p" for q
    using that by (simp add: ex' on_ptr_def on_task_def)
  moreover have "ex_ptrs ex' = ex_ptrs ex" by (simp add: ex' on_ptr_def)
  ultimately show ?thesis using ok by (auto simp: all_placed_def)
qed

lemma all_placed_retry:
  assumes inv: "ex_inv ex" and ok: "all_placed ex" and w: "w < length (ex_workers ex)"
    and held: "held (ex_workers ex ! w) = {#p#}"
    and step: "mark_and_submit cas p (on_ptr p reset_for_retry ex) = (ex', Return ())"
  shows "all_placed (set_worker w LoopHead ex')"
proof -
  let ?ex = "set_worker w LoopHead (on_ptr p reset_for_retry ex)"
  have "all_placed ?ex"
  proof (rule all_placed_drop [OF ok, where p = p])
    show "placed ?ex + {#p#} = placed ex"
      using worker_placed [of w "on_ptr p reset_for_retry ex" LoopHead] w held by (simp add: placed_def on_ptr_def)
  qed (simp_all add: set_worker_def on_ptr_def on_task_def reset_for_retry_def clear_enqueued_flag_def)
  moreover have "pool_inv (ex_pool ?ex)" using ex_invD(1) [OF inv] by (simp add: set_worker_def on_ptr_def)
  ultimately show ?thesis by (rule all_placed_mark_and_submit [rotated, OF _ mark_and_submit_set_worker [OF step]])
qed

subsection \<open>What the workers and the scheduler leave alone\<close>

text \<open>The tasks with their dependencies, options and attempts; the next id; the pause flag; the capacities.\<close>

definition global_capacities :: "pool \<Rightarrow> size_t list" where
  "global_capacities p = map q_capacity (pl_global p)"

definition steady :: "executor \<Rightarrow> executor \<Rightarrow> bool" where
  "steady ex ex' \<longleftrightarrow> g_tasks (ex_graph ex') = g_tasks (ex_graph ex) \<and> ex_next_task_id ex' = ex_next_task_id ex \<and>
     (\<forall>q. t_dependencies (ex_heap ex' q) = t_dependencies (ex_heap ex q) \<and>
        t_options (ex_heap ex' q) = t_options (ex_heap ex q) \<and> t_attempts (ex_heap ex' q) = t_attempts (ex_heap ex q)) \<and>
     pl_paused (ex_pool ex') = pl_paused (ex_pool ex) \<and>
     global_capacities (ex_pool ex') = global_capacities (ex_pool ex)"

lemma steady_refl [simp]: "steady ex ex"
  by (simp add: steady_def)

lemma steady_trans: "steady ex1 ex2 \<Longrightarrow> steady ex2 ex3 \<Longrightarrow> steady ex1 ex3"
  by (simp add: steady_def)

lemma steady_core: "same_core ex ex' \<Longrightarrow> steady ex ex'"
  by (simp add: same_core_def steady_def)

lemma steady_worker [simp]: "steady ex (set_worker w st ex') = steady ex ex'"
  by (simp add: steady_def set_worker_def)

lemma steady_ptr:
  "(\<And>t. t_dependencies (f t) = t_dependencies t \<and> t_options (f t) = t_options t \<and> t_attempts (f t) = t_attempts t) \<Longrightarrow>
   steady ex (on_ptr p f ex)"
  by (simp add: steady_def on_ptr_def on_task_def)

lemma steady_put:
  "t_dependencies t = t_dependencies (ex_heap ex p) \<Longrightarrow> t_options t = t_options (ex_heap ex p) \<Longrightarrow>
   t_attempts t = t_attempts (ex_heap ex p) \<Longrightarrow> steady ex (on_ptr p (\<lambda>_. t) ex)"
  by (simp add: steady_def on_ptr_def on_task_def)

lemma steady_notify: "steady ex (on_graph (notify_task_completed tid) ex)"
  by (auto simp: steady_def on_graph_def notify_task_completed_def fold_on_task notify_pow notify_pow_frame
      split: option.splits)

lemma steady_finish: "steady ex (finish_task p ex)"
  unfolding finish_task_def
  by (rule steady_trans [OF steady_notify steady_ptr]) (simp add: clear_enqueued_flag_def)

lemma steady_pool:
  "pl_paused pool = pl_paused (ex_pool ex) \<Longrightarrow> global_capacities pool = global_capacities (ex_pool ex) \<Longrightarrow>
   steady ex (ex\<lparr>ex_pool := pool\<rparr>)"
  by (simp add: steady_def)

lemma map_update_same: "f x = f (xs ! i) \<Longrightarrow> map f (xs[i := x]) = map f xs"
  by (induction xs arbitrary: i) (auto split: nat.splits)

lemma pqs_capacities:
  "map q_capacity (fst (pqs_try_enqueue cas s t pr)) = map q_capacity s"
  "map q_capacity (fst (try_dequeue_highest c s)) = map q_capacity s"
proof -
  show "map q_capacity (fst (pqs_try_enqueue cas s t pr)) = map q_capacity s"
    by (auto simp: pqs_try_enqueue_def try_enqueue_def Let_def split: prod.splits if_splits intro!: map_update_same)
  have one: "q_capacity (fst (try_dequeue b q)) = q_capacity q" for b and q :: "task_ptr lfq"
    by (simp add: try_dequeue_def Let_def split: option.splits)
  have "map q_capacity (fst (search try_dequeue c s order)) = map q_capacity s" for order
  proof (induction order arbitrary: s)
    case (Cons i order)
    obtain q r where deq: "try_dequeue (c i) (s ! i) = (q, r)" by fastforce
    with one [of "c i" "s ! i"] have "map q_capacity (s[i := q]) = map q_capacity s" by (intro map_update_same) simp
    with Cons.IH [of "s[i := q]"] deq show ?case by (cases r) simp_all
  qed simp
  then show "map q_capacity (fst (try_dequeue_highest c s)) = map q_capacity s"
    by (simp add: try_dequeue_highest_def)
qed

lemma find_task_steady:
  "pl_paused (fst (find_task cas p w)) = pl_paused p"
  "global_capacities (fst (find_task cas p w)) = global_capacities p"
  using pqs_capacities(2) [of "cas (unat (pl_num_threads p))" "pl_global p"]
  by (auto simp: find_task_def Let_def global_capacities_def split: prod.splits option.splits)

lemma submit_round_steady:
  assumes "submit_round c cw p t pr = (p', r)"
  shows "pl_paused p' = pl_paused p" "global_capacities p' = global_capacities p"
proof -
  obtain g ok where one: "pqs_try_enqueue c (pl_global p) t pr = (g, ok)" by fastforce
  obtain g' ok' where two: "pqs_try_enqueue cw g t pr = (g', ok')" by fastforce
  have "map q_capacity g = map q_capacity (pl_global p)" "map q_capacity g' = map q_capacity g"
    using pqs_capacities(1) [of c "pl_global p" t pr] pqs_capacities(1) [of cw g t pr] one two by simp_all
  then show "pl_paused p' = pl_paused p" "global_capacities p' = global_capacities p"
    using assms one two by (auto simp: submit_round_def global_capacities_def split: if_splits)
qed

lemma waiting_round_steady:
  "pl_paused (waiting_round c cw k p) = pl_paused p"
  "global_capacities (waiting_round c cw k p) = global_capacities p"
proof -
  obtain p' r where "submit_round c cw p (fst (pl_waiting p ! k)) (snd (pl_waiting p ! k)) = (p', r)" by fastforce
  from submit_round_steady [OF this] this
  show "pl_paused (waiting_round c cw k p) = pl_paused p"
    "global_capacities (waiting_round c cw k p) = global_capacities p"
    by (cases r; simp add: waiting_round_def global_capacities_def)+
qed

lemma pool_submit_steady:
  assumes "pool_submit cas p t pr = Return p'"
  shows "pl_paused p' = pl_paused p" "global_capacities p' = global_capacities p"
proof -
  obtain p1 ok where loc: "try_submit_to_local (fst cas) p t pr = Return (p1, ok)"
    using assms by (auto simp: pool_submit_def split: if_splits outcome.splits)
  then have one: "pl_paused p1 = pl_paused p" "global_capacities p1 = global_capacities p"
    by (auto simp: try_submit_to_local_def global_capacities_def Let_def split: if_splits prod.splits)
  obtain p2 r where round: "submit_round (fst (snd cas)) (snd (snd cas)) p1 t pr = (p2, r)" by fastforce
  note two = submit_round_steady [OF round]
  show "pl_paused p' = pl_paused p" "global_capacities p' = global_capacities p"
    using assms loc round one two
    by (cases ok; cases r; auto simp: pool_submit_def global_capacities_def split: if_splits)+
qed

lemma mark_and_submit_steady:
  assumes "mark_and_submit cas p ex = (ex', r)"
  shows "steady ex ex'" "ex_workers ex' = ex_workers ex"
proof -
  from assms have "steady ex ex' \<and> ex_workers ex' = ex_workers ex"
  proof (cases rule: mark_and_submit_cases)
    case (mine t)
    let ?ex = "on_ptr p (\<lambda>_. t) ex"
    have "steady ex ?ex"
      using mine(1) by (intro steady_put) (auto simp: try_mark_enqueued_def split: if_splits)
    moreover have "steady ?ex ex'"
    proof (cases "pool_submit cas (ex_pool ?ex) p (t_priority (ex_heap ?ex p))")
      case (Return pool)
      with mine(2) have "ex' = ?ex\<lparr>ex_pool := pool\<rparr>" by (simp add: submit_to_pool_def)
      then show ?thesis using steady_pool [OF pool_submit_steady [OF Return]] by simp
    qed (use mine(2) in \<open>simp_all add: submit_to_pool_def\<close>)
    ultimately show ?thesis
      using steady_trans submit_to_pool_frame(3) [OF mine(2)] by (auto simp: on_ptr_def)
  qed simp
  then show "steady ex ex'" "ex_workers ex' = ex_workers ex" by simp_all
qed

lemma submit_all_steady: "steady ex (submit_all cas ps ex) \<and> ex_workers (submit_all cas ps ex) = ex_workers ex"
proof (induction ps arbitrary: ex)
  case (Cons p ps)
  obtain ex' r where step: "mark_and_submit (cas p) p ex = (ex', r)" by fastforce
  note one = mark_and_submit_steady [OF step]
  have "steady ex (ex'\<lparr>ex_terminated := b\<rparr>)" for b using one(1) by (simp add: steady_def)
  with one Cons.IH [of ex'] steady_trans show ?case by (cases r) (auto simp: step split: unit.splits)
qed simp

subsection \<open>The steps of a worker\<close>

fun distance :: "worker \<Rightarrow> nat" where
  "distance (Executing p) = 3"
| "distance (Returned p result) = 2"
| "distance (Threw p e) = 1"
| "distance st = 0"

text \<open>Worker \<open>w\<close> goes to \<open>st\<close>; every marked task stays placed.\<close>

definition moves :: "nat \<Rightarrow> worker \<Rightarrow> executor \<Rightarrow> executor \<Rightarrow> bool" where
  "moves w st ex ex' \<longleftrightarrow> ex_workers ex' = (ex_workers ex)[w := st] \<and> steady ex ex' \<and>
     (all_placed ex \<longrightarrow> all_placed ex')"

lemma execute_moves:
  assumes w: "w < length (ex_workers ex)" and st: "ex_workers ex ! w = Executing p"
  shows "\<exists>st. distance st < 3 \<and> st \<noteq> Exited \<and> moves w st ex (worker_execute c w ex)"
proof -
  obtain t' r where run: "execute_end c (ex_heap ex p) = (t', r)" by fastforce
  define st' where "st' = (case r of Inr x \<Rightarrow> Returned p x | Inl e \<Rightarrow> Threw p e)"
  note law = frame_execute_end [OF run]
  let ?ex = "on_ptr p (\<lambda>_. t') ex"
  have ex': "worker_execute c w ex = set_worker w st' ?ex"
    by (cases r) (simp_all add: worker_execute_def st run st'_def)
  have held: "held st' = {#p#}" by (cases r) (simp_all add: st'_def)
  have "steady ex ?ex" using law by (intro steady_put) (simp_all add: frame_def)
  moreover have "all_placed (set_worker w st' ?ex)" if "all_placed ex"
    using w st held law by (intro all_placed_worker all_placed_ptr that) (simp_all add: on_ptr_def)
  ultimately have "moves w st' ex (worker_execute c w ex)"
    by (simp add: ex' moves_def) (simp add: set_worker_def on_ptr_def)
  moreover have "distance st' < 3" "st' \<noteq> Exited" by (cases r; simp add: st'_def)+
  ultimately show ?thesis by blast
qed

lemma finish_moves:
  assumes inv: "ex_inv ex" and w: "w < length (ex_workers ex)" and held: "held (ex_workers ex ! w) = {#p#}"
    and core: "same_core ex ex1"
  shows "moves w LoopHead ex (set_worker w LoopHead (finish_task p ex1))"
proof -
  have "ex_inv ex1" "w < length (ex_workers ex1)" "held (ex_workers ex1 ! w) = {#p#}"
    using same_core_inv [OF core] inv w held by (simp_all add: same_core_workers [OF core])
  then have "all_placed (set_worker w LoopHead (finish_task p ex1))" if "all_placed ex"
    using that all_placed_core [OF core] by (intro all_placed_finish) simp_all
  moreover have "steady ex (finish_task p ex1)" by (rule steady_trans [OF steady_core [OF core] steady_finish])
  ultimately show ?thesis by (simp add: moves_def) (simp add: set_worker_def same_core_workers [OF core])
qed

lemma success_moves:
  assumes inv: "ex_inv ex" and w: "w < length (ex_workers ex)" and st: "ex_workers ex ! w = Returned p x"
  shows "\<exists>st. distance st < 2 \<and> st \<noteq> Exited \<and> moves w st ex (worker_success w ex)"
proof -
  from success_cases [OF inv w st] obtain ex1 where core: "same_core ex ex1"
    and ends: "worker_success w ex = set_worker w LoopHead (finish_task p ex1) \<or>
      (\<exists>e. worker_success w ex = set_worker w (Threw p e) ex1)" by blast
  from ends show ?thesis
  proof (elim disjE exE)
    assume "worker_success w ex = set_worker w LoopHead (finish_task p ex1)"
    with finish_moves [OF inv w _ core, of p] st show ?thesis by (intro exI [of _ LoopHead]) simp
  next
    fix e assume ex': "worker_success w ex = set_worker w (Threw p e) ex1"
    have "all_placed (set_worker w (Threw p e) ex1)" if "all_placed ex"
      using that w st by (intro all_placed_worker) (simp_all add: all_placed_core [OF core] same_core_workers [OF core])
    then have "moves w (Threw p e) ex (worker_success w ex)"
      using steady_core [OF core] by (simp add: moves_def ex') (simp add: set_worker_def same_core_workers [OF core])
    then show ?thesis by (intro exI [of _ "Threw p e"]) simp
  qed
qed

lemma failure_moves:
  assumes inv: "ex_inv ex" and w: "w < length (ex_workers ex)" and st: "ex_workers ex ! w = Threw p e"
    and live: "\<not> ex_terminated (worker_failure cas w ex)"
  shows "moves w LoopHead ex (worker_failure cas w ex)"
proof -
  from failure_cases [OF st live] obtain ex1 ex' where core: "same_core ex ex1"
    and res: "worker_failure cas w ex = set_worker w LoopHead ex'"
    and ends: "can_retry (ex_heap ex1 p) \<and> mark_and_submit cas p (on_ptr p reset_for_retry ex1) = (ex', Return ()) \<or>
      ex' = finish_task p ex1" by blast
  from ends show ?thesis
  proof (elim disjE conjE)
    assume step: "mark_and_submit cas p (on_ptr p reset_for_retry ex1) = (ex', Return ())"
    have "ex_inv ex1" "w < length (ex_workers ex1)" "held (ex_workers ex1 ! w) = {#p#}"
      using same_core_inv [OF core] inv w st by (simp_all add: same_core_workers [OF core])
    then have "all_placed (set_worker w LoopHead ex')" if "all_placed ex"
      using that all_placed_core [OF core] by (intro all_placed_retry [OF _ _ _ _ step]) simp_all
    moreover have "steady ex1 (on_ptr p reset_for_retry ex1)"
      by (rule steady_ptr) (simp add: reset_for_retry_def clear_enqueued_flag_def)
    then have "steady ex ex'"
      using steady_trans [OF steady_core [OF core]] steady_trans mark_and_submit_steady(1) [OF step] by blast
    ultimately show ?thesis
      using mark_and_submit_steady(2) [OF step]
      by (simp add: res moves_def) (simp add: set_worker_def on_ptr_def same_core_workers [OF core])
  next
    assume "ex' = finish_task p ex1"
    with finish_moves [OF inv w _ core, of p] st show ?thesis by (simp add: res)
  qed
qed

text \<open>A worker that takes a task starts one more attempt of it.\<close>

lemma take_moves:
  fixes now :: time
  assumes inv: "ex_inv ex" and w: "w < length (ex_workers ex)" and st: "ex_workers ex ! w = Searching"
    and found: "find_task cas (ex_pool ex) w = (pool, Some p)"
  defines "ex' \<equiv> worker_take cas now w ex"
  shows "ex_workers ex' = (ex_workers ex)[w := Executing p]" "p \<in> ex_ptrs ex"
    "steady ex (on_ptr p (\<lambda>t. t\<lparr>t_attempts := t_attempts (ex_heap ex p)\<rparr>) ex')"
    "unat (t_attempts (ex_heap ex' p)) = Suc (unat (t_attempts (ex_heap ex p)))"
    "unat (t_attempts (ex_heap ex p)) \<le> unat (t_max_retries (ex_heap ex p))"
    "all_placed ex \<Longrightarrow> all_placed ex'"
proof -
  let ?t = "ex_heap ex p"
  let ?t' = "?t\<lparr>t_status := Running, t_start_time := Some now, t_attempts := t_attempts ?t + 1,
                t_last_scheduled_time := Some now\<rparr>"
  have w': "w < unat (pl_num_threads (ex_pool ex))" using w ex_invD(2) [OF inv] by simp
  note law = find_task_Some [OF ex_invD(1) [OF inv] w' found]
  then have items: "pool_items (ex_pool ex) = pool_items pool + {#p#}" by (simp add: pool_items_def)
  then have mem: "p \<in># placed ex" by (simp add: placed_def)
  show p: "p \<in> ex_ptrs ex" by (rule placed_enqueued(1) [OF inv mem])
  note ok = ex_invD(4) [OF inv p]
  have "execute_begin now ?t = Inr ?t'" using task_okD(1) [OF ok] by (simp add: execute_begin_def)
  then have ex': "ex' = set_worker w (Executing p) (on_ptr p (\<lambda>_. ?t') (on_start now p (ex\<lparr>ex_pool := pool\<rparr>)))"
    by (simp add: ex'_def worker_take_def st found Let_def on_start_def monitored_def)
  have sel: "ex_pool ex' = pool" "ex_heap ex' = (ex_heap ex)(p := ?t')"
    "g_tasks (ex_graph ex') = g_tasks (ex_graph ex)" "ex_next_task_id ex' = ex_next_task_id ex"
    and ws: "ex_workers ex' = (ex_workers ex)[w := Executing p]"
    by (simp_all add: ex' set_worker_def on_ptr_def on_task_def on_start_def monitored_def Let_def)
  show "ex_workers ex' = (ex_workers ex)[w := Executing p]" by (rule ws)
  show "steady ex (on_ptr p (\<lambda>t. t\<lparr>t_attempts := t_attempts (ex_heap ex p)\<rparr>) ex')"
    using find_task_steady [of cas "ex_pool ex" w] found sel
    by (simp add: steady_def on_ptr_def on_task_def)
  show le: "unat (t_attempts ?t) \<le> unat (t_max_retries ?t)" by (rule ex_invD(8) [OF inv]) (simp add: items)
  have "t_attempts ?t \<noteq> - 1" using le task_okD(6) [OF ok] by (auto simp: UINT64_MAX_def word_less_nat_alt)
  then have "1 + t_attempts ?t \<noteq> 0" by (metis add.commute eq_neg_iff_add_eq_0)
  then show "unat (t_attempts (ex_heap ex' p)) = Suc (unat (t_attempts ?t))"
    using Word.unatSuc [of "t_attempts ?t"] by (simp add: sel add.commute)
  have "placed ex' = placed ex"
    using held_sum_update [OF w, of "Executing p"] st by (simp add: placed_def ws sel(1) items)
  then show "all_placed ex'" if "all_placed ex"
    using that by (intro all_placed_same [OF that]) (simp_all add: sel)
qed

subsection \<open>Runs before stop\<close>

fun plain_event :: "ex_event \<Rightarrow> bool" where
  "plain_event (ESubmit cas now func name sub) \<longleftrightarrow>
     (case sub_callback sub of AsyncCallback pr user \<Rightarrow> False | _ \<Rightarrow> True)"
| "plain_event EStop \<longleftrightarrow> False"
| "plain_event e \<longleftrightarrow> True"

inductive live_reach :: "executor \<Rightarrow> executor \<Rightarrow> bool" for ex0 :: executor where
  refl: "live_reach ex0 ex0"
| step: "live_reach ex0 ex \<Longrightarrow> event_ok ex e \<Longrightarrow> plain_event e \<Longrightarrow> live_reach ex0 (ex_apply e ex)"

definition live_ok :: "executor \<Rightarrow> bool" where
  "live_ok ex \<longleftrightarrow> ex_inv ex \<and> open_ok ex \<and> all_placed ex \<and> Exited \<notin> set (ex_workers ex) \<and>
     (\<forall>c \<in> set (global_capacities (ex_pool ex)). 1 < unat c)"

lemma live_okD:
  assumes "live_ok ex"
  shows "ex_inv ex" "open_ok ex" "all_placed ex" "Exited \<notin> set (ex_workers ex)"
    "c \<in> set (global_capacities (ex_pool ex)) \<Longrightarrow> 1 < unat c" "\<not> ex_terminated ex"
    "pl_running (ex_pool ex)"
  using assms unfolding live_ok_def open_ok_def by blast+

lemma mark_and_submit_open:
  assumes ok: "open_ok ex" and step: "mark_and_submit cas p ex = (ex', r)"
  shows "r = Return ()" "open_ok ex'"
proof -
  from step have "r = Return () \<and> open_ok ex'"
  proof (cases rule: mark_and_submit_cases)
    case (mine t)
    from submit_to_pool_open [OF open_ok_mark [OF ok mine(1)] mine(2)] show ?thesis by blast
  qed (use ok in simp)
  then show "r = Return ()" "open_ok ex'" by simp_all
qed

lemma submit_all_open: "open_ok ex \<Longrightarrow> open_ok (submit_all cas ps ex)"
proof (induction ps arbitrary: ex)
  case (Cons p ps)
  obtain ex' r where step: "mark_and_submit (cas p) p ex = (ex', r)" by fastforce
  note one = mark_and_submit_open [OF Cons.prems step]
  from Cons.IH [OF one(2)] show ?case by (simp add: step one(1) split: unit.splits)
qed simp

lemma submit_all_placed:
  assumes "ex_inv ex" and "open_ok ex" and "all_placed ex"
  shows "all_placed (submit_all cas ps ex)"
proof -
  have "pool_inv (ex_pool ex)" by (rule ex_invD(1) [OF assms(1)])
  with assms(2,3) show ?thesis
  proof (induction ps arbitrary: ex)
    case (Cons p ps)
    obtain ex' r where step: "mark_and_submit (cas p) p ex = (ex', r)" by fastforce
    note one = mark_and_submit_open [OF Cons.prems(1) step]
    from step have "pool_inv (ex_pool ex')"
    proof (cases rule: mark_and_submit_cases)
      case (mine t)
      have "pool_inv (ex_pool (on_ptr p (\<lambda>_. t) ex))" using Cons.prems(3) by (simp add: on_ptr_def)
      with submit_to_pool_law [OF this mine(2)] show ?thesis by auto
    qed (use Cons.prems in simp)
    with Cons.IH [OF one(2) all_placed_mark_and_submit [OF Cons.prems(3,2) step [unfolded one(1)]]]
    show ?case by (simp add: step one(1) split: unit.splits)
  qed simp
qed

lemma create_all_placed:
  assumes inv: "ex_inv ex" and ids: "ex_next_task_id ex \<noteq> UINT64_MAX" "opt_max_retries (sub_options sub) < UINT64_MAX"
    and ok: "all_placed ex"
  shows "all_placed (create_task now func name sub promise ex)"
proof -
  let ?ex = "create_task now func name sub promise ex" and ?p = "ex_next_ptr ex"
  note sel = create_task_sel [of now func name sub promise ex]
  have "q \<in># placed ?ex" if q: "q \<in> ex_ptrs ?ex" "t_enqueued (ex_heap ?ex q)" for q
  proof -
    have "q \<noteq> ?p" using q(2) create_evolves(3) [OF inv ids, of now func name promise] by auto
    moreover have "ex_ptrs ?ex \<subseteq> insert ?p (ex_ptrs ex)" unfolding sel(6) by (rule update_values)
    ultimately have "q \<in> ex_ptrs ex" using q(1) by blast
    with \<open>q \<noteq> ?p\<close> q(2) ok show ?thesis by (auto simp: all_placed_def placed_def sel)
  qed
  then show ?thesis by (simp add: all_placed_def)
qed

lemma add_dependency_placed: "all_placed ex \<Longrightarrow> all_placed (on_graph (graph_add_dependency tid dep) ex)"
  by (rule all_placed_same)
    (auto simp: on_graph_def graph_add_dependency_def add_dep_heap placed_def split: option.splits)

lemma add_dependencies_frames:
  "open_ok ex \<Longrightarrow> open_ok (add_dependencies tid deps ex)"
  "all_placed ex \<Longrightarrow> all_placed (add_dependencies tid deps ex)"
  "ex_workers (add_dependencies tid deps ex) = ex_workers ex"
  unfolding add_dependencies_def
  by (induction deps arbitrary: ex)
    (simp_all add: open_ok_add_dependency add_dependency_placed, simp add: on_graph_def)

lemma submit_internal_live:
  assumes live: "live_ok ex" and ids: "ex_next_task_id ex \<noteq> UINT64_MAX" "opt_max_retries (sub_options sub) < UINT64_MAX"
    and new: "open_ok (create_task now func name sub promise ex)"
    and step: "submit_internal cas now func name sub promise ex = (ex', r)"
  shows "live_ok ex'"
proof -
  note inv = live_okD(1) [OF live]
  define ex1 where "ex1 = create_task now func name sub promise ex"
  define ex2 where "ex2 = add_dependencies (ex_next_task_id ex) (sub_dependencies sub) ex1"
  obtain r' where last: "enqueue_if_ready cas (ex_next_ptr ex) ex2 = (ex', r')"
    using submit_internal_steps [OF step] by (auto simp: ex1_def ex2_def)
  have inv': "ex_inv ex'" by (rule evolves_inv [OF submit_internal_evolves [OF inv ids step]])
  have open2: "open_ok ex2" using add_dependencies_frames(1) new by (simp add: ex2_def ex1_def)
  have placed2: "all_placed ex2"
    using add_dependencies_frames(2) create_all_placed [OF inv ids live_okD(3) [OF live]] by (simp add: ex2_def ex1_def)
  have sel: "ex_workers ex2 = ex_workers ex" "ex_pool ex2 = ex_pool ex"
    by (simp_all add: ex2_def ex1_def add_dependencies_frames(3) create_task_sel)
  show ?thesis
  proof (cases "is_ready (ex_heap ex2 (ex_next_ptr ex))")
    case False
    with last have "ex' = ex2" by (simp add: enqueue_if_ready_def)
    then show ?thesis using inv' open2 placed2 live_okD(4,5) [OF live] by (simp add: live_ok_def sel)
  next
    case True
    with last have mark: "mark_and_submit cas (ex_next_ptr ex) ex2 = (ex', r')" by (simp add: enqueue_if_ready_def)
    note marked = mark_and_submit_open [OF open2 mark]
    have "pool_inv (ex_pool ex2)" using ex_invD(1) [OF inv] by (simp add: sel)
    from all_placed_mark_and_submit [OF this placed2 mark [unfolded marked(1)]]
    show ?thesis
      using inv' marked(2) live_okD(4,5) [OF live] mark_and_submit_steady [OF mark]
      by (simp add: live_ok_def sel steady_def)
  qed
qed

text \<open>Steps that move at most one worker.\<close>

lemma live_ok_moves:
  assumes live: "live_ok ex" and moves: "moves w st ex ex'" and "st \<noteq> Exited"
    and "ex_inv ex'" and "open_ok ex'"
  shows "live_ok ex'"
proof -
  have "set (ex_workers ex') \<subseteq> insert st (set (ex_workers ex))"
    using moves set_update_subset_insert [of "ex_workers ex" w st] by (simp add: moves_def)
  then have "Exited \<notin> set (ex_workers ex')" using assms(3) live_okD(4) [OF live] by auto
  moreover have "all_placed ex'" "steady ex ex'" using moves live_okD(3) [OF live] by (simp_all add: moves_def)
  ultimately show ?thesis using assms(4,5) live_okD(5) [OF live] by (simp add: live_ok_def steady_def)
qed

lemma idle_moves:
  assumes w: "w < length (ex_workers ex)" and "held (ex_workers ex ! w) = {#}" and "held st = {#}"
  shows "moves w st ex (set_worker w st ex)"
  using all_placed_worker [OF _ w, of st] assms(2,3) by (simp add: moves_def) (simp add: set_worker_def)

lemma live_evolved:
  assumes "live_ok ex" and "event_ok ex e" and "open_ok (ex_apply e ex)"
  shows "ex_inv (ex_apply e ex)"
  using ex_apply_evolves [OF live_okD(1) [OF assms(1)] assms(2)] evolves_inv assms(3) by (auto simp: open_ok_def)

lemma live_idle:
  assumes live: "live_ok ex" and w: "w < length (ex_workers ex)"
    and "held (ex_workers ex ! w) = {#}" and "held st = {#}" and "st \<noteq> Exited"
  shows "live_ok (set_worker w st ex)"
  using live_ok_moves [OF live idle_moves [OF w assms(3,4)] assms(5)]
    evolves_inv [OF idle_move [OF live_okD(1) [OF live] w assms(3,4)]] open_ok_worker [OF live_okD(2) [OF live]]
  by simp

lemma live_pool:
  assumes live: "live_ok ex" and ok: "event_ok ex e" and eq: "ex_apply e ex = ex\<lparr>ex_pool := p\<rparr>"
    and p: "pl_running p" "pl_num_threads p = pl_num_threads (ex_pool ex)" "pool_items p = pool_items (ex_pool ex)"
      "global_capacities p = global_capacities (ex_pool ex)"
  shows "live_ok (ex_apply e ex)"
proof -
  have oex: "open_ok (ex_apply e ex)" unfolding eq by (rule open_ok_pool [OF live_okD(2) [OF live] p(1,2)])
  have "all_placed (ex_apply e ex)"
    unfolding eq by (rule all_placed_same [OF live_okD(3) [OF live]]) (simp_all add: placed_def p(3))
  then show ?thesis
    using live_evolved [OF live ok oex] oex live_okD(4,5) [OF live] by (simp add: live_ok_def eq p(4))
qed

lemma live_submit_async:
  assumes live: "live_ok ex" and ok: "event_ok ex (ESubmitAsync cas now func name deps opts user)"
  shows "live_ok (ex_apply (ESubmitAsync cas now func name deps opts user) ex)"
proof -
  note new = new_promise_open [OF live_okD(2) [OF live]]
  let ?pr = "ex_next_promise ex"
  let ?ex1 = "ex\<lparr>ex_next_promise := Suc ?pr, ex_promises := (ex_promises ex)(?pr := Unset)\<rparr>"
  let ?sub = "\<lparr>sub_dependencies = deps, sub_options = opts, sub_callback = AsyncCallback ?pr user\<rparr>"
  have core: "same_core ex ?ex1" by (simp add: same_core_def)
  have "live_ok ?ex1"
    using live new(1) same_core_inv [OF core] all_placed_core [OF core] by (simp add: live_ok_def)
  moreover obtain ex' r where run: "submit_internal cas now func name ?sub (Some ?pr) ?ex1 = (ex', r)" by fastforce
  ultimately have "live_ok ex'" using ok new(2) by (intro submit_internal_live [OF _ _ _ _ run]) simp_all
  then show ?thesis by (cases r) (simp_all add: submit_async_def run Let_def)
qed

lemma live_start:
  assumes live: "live_ok ex"
  shows "live_ok (executor_start ex)"
proof -
  note oex = live_okD(2) [OF live]
  have core: "same_core ex (executor_start ex)" by (simp add: same_core_def executor_start_def)
  have "open_ok (executor_start ex)"
    by (rule open_ok_cong [OF oex]) (use oex in \<open>simp_all add: executor_start_def open_ok_def\<close>)
  then show ?thesis
    using live same_core_inv [OF core] all_placed_core [OF core] by (simp add: live_ok_def) (simp add: executor_start_def)
qed

lemma live_scheduler:
  assumes live: "live_ok ex"
  shows "live_ok (scheduler_round cas ex)"
proof -
  note oex = live_okD(2) [OF live]
  have oex': "open_ok (scheduler_round cas ex)" using submit_all_open [OF oex] oex by (simp add: scheduler_round_def)
  then have "ex_inv (scheduler_round cas ex)" using live_evolved [OF live, of "EScheduler cas"] by simp
  moreover have "all_placed (scheduler_round cas ex)"
    using submit_all_placed [OF live_okD(1) [OF live] oex] live_okD(3) [OF live] by (simp add: scheduler_round_def)
  ultimately show ?thesis
    using oex' submit_all_steady [of ex cas "get_ready_tasks (ex_graph ex)"] live_okD(4,5) [OF live]
    by (auto simp: live_ok_def scheduler_round_def steady_def)
qed

lemma live_round:
  assumes live: "live_ok ex"
  shows "live_ok (ex_apply (ERound c cw k) ex)"
proof -
  note law = waiting_round_law [OF ex_invD(1) [OF live_okD(1) [OF live]], of c cw k]
  have run: "pl_running (ex_pool ex)" by (rule live_okD(7) [OF live])
  with law have "round_event c cw k (ex_pool ex) = []" by blast
  with law run show ?thesis by (intro live_pool [OF live, where p = "waiting_round c cw k (ex_pool ex)"]) (simp_all add: waiting_round_steady)
qed

lemma live_take:
  assumes live: "live_ok ex" and w: "w < length (ex_workers ex)"
  shows "live_ok (worker_take cas now w ex)"
proof (cases "ex_workers ex ! w")
  case Searching
  note inv = live_okD(1) [OF live]
  obtain pool r where found: "find_task cas (ex_pool ex) w = (pool, r)" by fastforce
  have oex: "open_ok (worker_take cas now w ex)" using worker_part_open [OF live_okD(2) [OF live], of "PTake cas now" w] by simp
  show ?thesis
  proof (cases r)
    case None
    have "w < unat (pl_num_threads (ex_pool ex))" using w ex_invD(2) [OF inv] by simp
    from find_task_None [OF ex_invD(1) [OF inv] this found [unfolded None]]
    have "worker_take cas now w ex = set_worker w Sleeping ex" using found None by (simp add: worker_take_def Searching)
    then show ?thesis using live_idle [OF live w, of Sleeping] Searching by simp
  next
    case (Some p)
    note found = found [unfolded Some]
    note take = take_moves(1,3,6) [OF inv w Searching found, of now]
    have "set (ex_workers (worker_take cas now w ex)) \<subseteq> insert (Executing p) (set (ex_workers ex))"
      using take(1) set_update_subset_insert [of "ex_workers ex" w "Executing p"] by simp
    then have "Exited \<notin> set (ex_workers (worker_take cas now w ex))" using live_okD(4) [OF live] by auto
    moreover have "global_capacities (ex_pool (worker_take cas now w ex)) = global_capacities (ex_pool ex)"
      using take(2) by (simp add: steady_def on_ptr_def)
    moreover have "ex_inv (worker_take cas now w ex)" using live_evolved [OF live, of "ETake cas now w"] w oex by simp
    ultimately show ?thesis using oex take(3) [OF live_okD(3) [OF live]] live_okD(5) [OF live] by (simp add: live_ok_def)
  qed
qed (use live in \<open>simp_all add: worker_take_def\<close>)

text \<open>The three steps of a worker that holds a task.\<close>

lemma live_holding:
  assumes live: "live_ok ex" and w: "w < length (ex_workers ex)"
  shows "live_ok (worker_execute c w ex)" "live_ok (worker_success w ex)" "live_ok (worker_failure cas w ex)"
proof -
  note inv = live_okD(1) [OF live] and oex = live_okD(2) [OF live]
  have step: "live_ok (ex_apply e ex)"
    if "moves w st ex (ex_apply e ex)" "st \<noteq> Exited" "event_ok ex e" "open_ok (ex_apply e ex)" for e st
    using live_ok_moves [OF live that(1,2) live_evolved [OF live that(3,4)] that(4)] .
  show "live_ok (worker_execute c w ex)"
  proof (cases "ex_workers ex ! w")
    case (Executing p)
    with execute_moves [OF w Executing, of c] obtain st where "st \<noteq> Exited" "moves w st ex (worker_execute c w ex)" by auto
    then show ?thesis using step [of st "EExecute c w"] worker_part_open [OF oex, of "PExecute c" w] w by simp
  qed (use live in \<open>simp_all add: worker_execute_def\<close>)
  show "live_ok (worker_success w ex)"
  proof (cases "ex_workers ex ! w")
    case (Returned p x)
    with success_moves [OF inv w Returned] obtain st where "st \<noteq> Exited" "moves w st ex (worker_success w ex)" by auto
    then show ?thesis using step [of st "ESuccess w"] worker_part_open [OF oex, of PSuccess w] w by simp
  qed (use live in \<open>simp_all add: worker_success_def\<close>)
  have oex': "open_ok (worker_failure cas w ex)" by (rule worker_failure_open [OF oex])
  then have "\<not> ex_terminated (worker_failure cas w ex)" by (simp add: open_ok_def)
  note go = failure_moves [OF inv w _ this]
  show "live_ok (worker_failure cas w ex)"
  proof (cases "ex_workers ex ! w")
    case (Threw p x)
    from go [OF Threw] show ?thesis using step [of LoopHead "EFailure cas w"] oex' w by simp
  qed (use live in \<open>simp_all add: worker_failure_def\<close>)
qed

lemma live_step:
  assumes live: "live_ok ex" and ok: "event_ok ex e" and plain: "plain_event e"
  shows "live_ok (ex_apply e ex)"
proof (cases e)
  case (ESubmit cas now func name sub)
  obtain ex' r where run: "submit_internal cas now func name sub None ex = (ex', r)" by fastforce
  have "open_ok (create_task now func name sub None ex)"
    by (rule create_task_open [OF live_okD(2) [OF live]]) (use plain ESubmit in \<open>auto split: submission_callback.splits\<close>)
  from submit_internal_live [OF live _ _ this run] ok show ?thesis by (simp add: ESubmit run)
next
  case (ESubmitAsync cas now func name deps opts user)
  with live_submit_async [OF live] ok show ?thesis by simp
next
  case EPause
  show ?thesis
    by (rule live_pool [OF live ok, where p = "pool_pause (ex_pool ex)"])
      (use live_okD(7) [OF live] in \<open>simp_all add: EPause pool_pause_def pool_items_def queued_items_def global_capacities_def\<close>)
next
  case EResume
  show ?thesis
    by (rule live_pool [OF live ok, where p = "pool_resume (ex_pool ex)"])
      (use live_okD(7) [OF live] in \<open>simp_all add: EResume pool_resume_def pool_items_def queued_items_def global_capacities_def\<close>)
next
  case (ELoopHead w)
  then show ?thesis
    using ok live_idle [OF live, of w] live live_okD(7) [OF live] by (cases "ex_workers ex ! w") (simp_all add: worker_loop_head_def)
next
  case (EPauseCheck w)
  then show ?thesis
    using ok live_idle [OF live, of w] live by (cases "ex_workers ex ! w") (simp_all add: worker_pause_check_def)
next
  case (EWake w)
  then show ?thesis
    using ok live_idle [OF live, of w] live by (cases "ex_workers ex ! w") (simp_all add: worker_wake_def)
qed (use ok plain live_start [OF live] live_scheduler [OF live] live_round [OF live] live_take [OF live] live_holding [OF live]
    in \<open>simp_all\<close>)

lemma live_reach_ok: "live_reach ex0 ex \<Longrightarrow> live_ok ex0 \<Longrightarrow> live_ok ex"
  by (induction rule: live_reach.induct) (auto intro: live_step)

lemma start_live:
  assumes new: "TaskExecutor n = Inr ex" and n: "n \<noteq> 0"
  shows "live_ok ex"
proof -
  obtain p where p: "ThreadPool n = Inr p" and ex: "ex = executor_on_pool p (Some zero_metrics)"
    using new by (auto simp: TaskExecutor_def split: sum.splits)
  note pool = new_pool_inv [OF p]
  have "ex_inv ex" using start_inv pool by (simp add: ex)
  moreover have "pl_num_threads p = n" "global_capacities p = replicate 4 2048"
    using p by (auto simp: ThreadPool_def PriorityQueueSet_def LockFreeTaskQueue_def Let_def global_capacities_def
        numeral_eq_Suc split: sum.splits if_splits)
  moreover from this have "open_ok ex"
    using pool n by (simp add: ex open_ok_def promises_ok_def executor_on_pool_def empty_graph_def new_task_def)
  ultimately show ?thesis
    by (auto simp: live_ok_def ex executor_on_pool_def all_placed_def empty_graph_def)
qed

end
