(* ===== verification/Executor_Completion.thy ===== *)
theory Executor_Completion
  imports Executor_Live
begin

section \<open>Tasks can always be completed\<close>

text \<open>
  The executor does not deadlock. From every state that clients, scheduler rounds and workers can
  reach before \<open>stop\<close>, the scheduler thread, the waiting submissions and the workers can bring every
  task to an end and empty the pool, and then \<open>wait_for_completion\<close> returns; provided the scheduler
  runs, the pool is not paused, no task depends on itself, and no dependency was added after it had
  finished (see \<open>late_dependency_never_runs\<close> for what happens then). The measure is the number of
  attempts that are left, four for each, and the distance of each worker from the end of its task.
\<close>

subsection \<open>Dependencies are older\<close>

text \<open>A dependency names a task that exists when it is added, so it is made before its dependent, or is
  the dependent itself.\<close>

definition deps_before :: "executor \<Rightarrow> bool" where
  "deps_before ex \<longleftrightarrow> (\<forall>q \<in> ex_ptrs ex. \<forall>d \<in> set (t_dependencies (ex_heap ex q)). d \<le> q)"

text \<open>What no step of the executor's own threads changes.\<close>

definition keeps :: "executor \<Rightarrow> executor \<Rightarrow> bool" where
  "keeps ex ex' \<longleftrightarrow> g_tasks (ex_graph ex') = g_tasks (ex_graph ex) \<and> ex_next_task_id ex' = ex_next_task_id ex \<and>
     global_capacities (ex_pool ex') = global_capacities (ex_pool ex) \<and> pl_paused (ex_pool ex') = pl_paused (ex_pool ex) \<and>
     (\<forall>q. t_dependencies (ex_heap ex' q) = t_dependencies (ex_heap ex q) \<and>
        t_options (ex_heap ex' q) = t_options (ex_heap ex q)) \<and>
     ex_scheduler_running ex' = ex_scheduler_running ex \<and> length (ex_workers ex') = length (ex_workers ex)"

lemma keeps_refl [simp]: "keeps ex ex"
  by (simp add: keeps_def)

lemma steady_keeps:
  "steady ex ex' \<Longrightarrow> ex_scheduler_running ex' = ex_scheduler_running ex \<Longrightarrow>
   length (ex_workers ex') = length (ex_workers ex) \<Longrightarrow> keeps ex ex'"
  by (simp add: steady_def keeps_def)

lemma keeps_worker [simp]: "keeps ex (set_worker w st ex)"
  by (simp add: keeps_def set_worker_def)

lemma deps_before_same:
  "deps_before ex \<Longrightarrow> ex_ptrs ex' = ex_ptrs ex \<Longrightarrow>
   (\<And>q. t_dependencies (ex_heap ex' q) = t_dependencies (ex_heap ex q)) \<Longrightarrow> deps_before ex'"
  by (simp add: deps_before_def)

text \<open>The steps of the scheduler thread, of the waiting submissions and of the workers.\<close>

fun own_event :: "ex_event \<Rightarrow> bool" where
  "own_event (EScheduler cas) \<longleftrightarrow> True"
| "own_event (ERound c cw k) \<longleftrightarrow> True"
| "own_event (ELoopHead w) \<longleftrightarrow> True"
| "own_event (EPauseCheck w) \<longleftrightarrow> True"
| "own_event (ETake cas now w) \<longleftrightarrow> True"
| "own_event (EExecute c w) \<longleftrightarrow> True"
| "own_event (ESuccess w) \<longleftrightarrow> True"
| "own_event (EFailure cas w) \<longleftrightarrow> True"
| "own_event (EWake w) \<longleftrightarrow> True"
| "own_event e \<longleftrightarrow> False"

lemma own_plain: "own_event e \<Longrightarrow> plain_event e"
  by (cases e) simp_all

lemma moves_keeps:
  "moves w st ex ex' \<Longrightarrow> ex_scheduler_running ex' = ex_scheduler_running ex \<Longrightarrow> keeps ex ex'"
  by (intro steady_keeps) (simp_all add: moves_def)

lemma own_keeps:
  assumes live: "live_ok ex" and ok: "event_ok ex e" and own: "own_event e"
  shows "keeps ex (ex_apply e ex)"
proof (cases e)
  case (EScheduler cas)
  then show ?thesis
    using submit_all_steady [of ex cas "get_ready_tasks (ex_graph ex)"] submit_all_running [of cas _ ex]
    by (auto simp: scheduler_round_def intro!: steady_keeps)
next
  case (ERound c cw k)
  then show ?thesis using waiting_round_steady [of c cw k "ex_pool ex"] by (simp add: keeps_def)
next
  case (EExecute c w)
  then show ?thesis
    using worker_running [of "PExecute c" w ex] ok execute_moves [of w ex _ c] moves_keeps
    by (cases "ex_workers ex ! w") (auto simp: worker_execute_def)
next
  case (ESuccess w)
  then show ?thesis
    using worker_running [of PSuccess w ex] ok success_moves [OF live_okD(1) [OF live], of w] moves_keeps
    by (cases "ex_workers ex ! w") (auto simp: worker_success_def)
next
  case (EFailure cas w)
  have live': "\<not> ex_terminated (worker_failure cas w ex)"
    using worker_failure_open [OF live_okD(2) [OF live], of cas w] by (simp add: open_ok_def)
  show ?thesis
  proof (cases "ex_workers ex ! w")
    case (Threw p x)
    with ok failure_moves [OF live_okD(1) [OF live] _ _ live'] have "moves w LoopHead ex (worker_failure cas w ex)"
      by (simp add: EFailure)
    then show ?thesis using moves_keeps failure_running [of cas w ex] by (simp add: EFailure)
  qed (simp_all add: EFailure worker_failure_def)
next
  case (ETake cas now w)
  note inv = live_okD(1) [OF live]
  show ?thesis
  proof (cases "ex_workers ex ! w")
    case Searching
    have w: "w < length (ex_workers ex)" using ok by (simp add: ETake)
    obtain pool r where found: "find_task cas (ex_pool ex) w = (pool, r)" by fastforce
    show ?thesis
    proof (cases r)
      case None
      have "w < unat (pl_num_threads (ex_pool ex))" using w ex_invD(2) [OF inv] by simp
      from find_task_None [OF ex_invD(1) [OF inv] this found [unfolded None]] show ?thesis
        using found None by (simp add: ETake worker_take_def Searching)
    next
      case (Some p)
      note found = found [unfolded Some]
      note take = take_moves(1,3) [OF inv w Searching found, of now]
      have "ex_scheduler_running (worker_take cas now w ex) = ex_scheduler_running ex"
        using worker_running [of "PTake cas now" w ex] by simp
      with take show ?thesis by (simp add: ETake keeps_def steady_def on_ptr_def on_task_def split: if_splits) blast
    qed
  qed (simp_all add: ETake worker_take_def)
qed (use own in \<open>auto simp: worker_loop_head_def worker_pause_check_def worker_wake_def split: worker.splits\<close>)

lemma create_deps:
  assumes inv: "ex_inv ex" and ok: "deps_before ex"
  shows "deps_before (create_task now func name sub promise ex)"
proof -
  let ?ex = "create_task now func name sub promise ex" and ?p = "ex_next_ptr ex"
  note sel = create_task_sel [of now func name sub promise ex]
  have "d \<le> q" if "q \<in> ex_ptrs ?ex" "d \<in> set (t_dependencies (ex_heap ?ex q))" for q d
  proof -
    have "q \<noteq> ?p" using that(2) by (auto simp: sel set_callback_def new_task_def)
    moreover have "ex_ptrs ?ex \<subseteq> insert ?p (ex_ptrs ex)" unfolding sel(6) by (rule update_values)
    ultimately have "q \<in> ex_ptrs ex" using that(1) by blast
    with \<open>q \<noteq> ?p\<close> show ?thesis using that(2) ok by (auto simp: sel deps_before_def)
  qed
  then show ?thesis by (simp add: deps_before_def)
qed

lemma add_dependencies_before:
  assumes "map_of (g_tasks (ex_graph ex)) tid = Some p" and "\<forall>q \<in> ex_ptrs ex. q \<le> p" and "deps_before ex"
  shows "deps_before (add_dependencies tid deps ex)"
  using assms unfolding add_dependencies_def
proof (induction deps arbitrary: ex)
  case (Cons dep deps)
  let ?ex = "on_graph (graph_add_dependency tid dep) ex"
  have tasks: "g_tasks (ex_graph ?ex) = g_tasks (ex_graph ex)"
    by (simp add: on_graph_def graph_add_dependency_def split: option.splits)
  have "deps_before ?ex"
  proof (cases "map_of (g_tasks (ex_graph ex)) dep")
    case (Some e)
    then have "e \<in> ex_ptrs ex" by (force dest: map_of_SomeD)
    with Cons.prems(2) have "e \<le> p" by blast
    then show ?thesis
      using Cons.prems(3)
      by (auto simp: deps_before_def tasks) (auto simp: Some Cons.prems(1) on_graph_def graph_add_dependency_def add_dependency_frame split: if_splits)
  qed (use Cons.prems in \<open>simp add: on_graph_def graph_add_dependency_def deps_before_def split: option.splits\<close>)
  then show ?case using Cons.IH [of ?ex] Cons.prems(1,2) by (simp add: tasks)
qed simp

lemma submit_deps:
  assumes inv: "ex_inv ex" and ids: "ex_next_task_id ex \<noteq> UINT64_MAX" "opt_max_retries (sub_options sub) < UINT64_MAX"
    and ok: "deps_before ex" and step: "submit_internal cas now func name sub promise ex = (ex', r)"
  shows "deps_before ex'"
proof -
  define ex1 where "ex1 = create_task now func name sub promise ex"
  define ex2 where "ex2 = add_dependencies (ex_next_task_id ex) (sub_dependencies sub) ex1"
  obtain r' where last: "enqueue_if_ready cas (ex_next_ptr ex) ex2 = (ex', r')"
    using submit_internal_steps [OF step] by (auto simp: ex1_def ex2_def)
  have sub: "ex_ptrs ex1 \<subseteq> insert (ex_next_ptr ex) (ex_ptrs ex)" unfolding ex1_def create_task_sel by (rule update_values)
  have "q \<le> ex_next_ptr ex" if "q \<in> ex_ptrs ex1" for q
    using subsetD [OF sub that] ex_invD(5) [OF inv] by (metis insertE less_imp_le order_refl)
  then have "\<forall>q \<in> ex_ptrs ex1. q \<le> ex_next_ptr ex" by blast
  with create_evolves(2) [OF inv ids, of now func name promise, folded ex1_def] create_deps [OF inv ok]
  have "deps_before ex2" unfolding ex2_def by (intro add_dependencies_before) (simp_all add: ex1_def)
  moreover have "steady ex2 ex'"
    using last mark_and_submit_steady(1) by (auto simp: enqueue_if_ready_def split: if_splits)
  ultimately show ?thesis by (simp add: deps_before_def steady_def)
qed

lemma deps_step:
  assumes live: "live_ok ex" and ok: "event_ok ex e" and plain: "plain_event e" and deps: "deps_before ex"
  shows "deps_before (ex_apply e ex)"
proof -
  note inv = live_okD(1) [OF live]
  show ?thesis
  proof (cases "own_event e")
    case True
    from own_keeps [OF live ok this] deps show ?thesis by (simp add: keeps_def deps_before_def)
  next
    case False
    then show ?thesis
    proof (cases e)
      case (ESubmit cas now func name sub)
      obtain ex' r where "submit_internal cas now func name sub None ex = (ex', r)" by fastforce
      from submit_deps [OF inv _ _ deps this] this ok show ?thesis by (simp add: ESubmit)
    next
      case (ESubmitAsync cas now func name dep_ids opts user)
      let ?pr = "ex_next_promise ex"
      let ?ex = "ex\<lparr>ex_next_promise := Suc ?pr, ex_promises := (ex_promises ex)(?pr := Unset)\<rparr>"
      let ?sub = "\<lparr>sub_dependencies = dep_ids, sub_options = opts, sub_callback = AsyncCallback ?pr user\<rparr>"
      have "same_core ex ?ex" by (simp add: same_core_def)
      then have "ex_inv ?ex" using same_core_inv inv by blast
      moreover obtain ex' r where run: "submit_internal cas now func name ?sub (Some ?pr) ?ex = (ex', r)" by fastforce
      ultimately have "deps_before ex'"
        using ok deps by (intro submit_deps [OF _ _ _ _ run]) (simp_all add: ESubmitAsync deps_before_def)
      then show ?thesis by (cases r) (simp_all add: ESubmitAsync submit_async_def run Let_def)
    qed (use ok plain deps in \<open>simp_all add: deps_before_def executor_start_def\<close>)
  qed
qed

subsection \<open>Nothing but running is left to do\<close>

definition can_complete :: "executor \<Rightarrow> bool" where
  "can_complete ex \<longleftrightarrow> live_ok ex \<and> ex_scheduler_running ex \<and> \<not> pl_paused (ex_pool ex) \<and> deps_before ex \<and>
     (\<forall>q \<in> ex_ptrs ex. slack (ex_heap ex) q = 0 \<and> q \<notin> set (t_dependencies (ex_heap ex q)))"

lemma can_completeD:
  assumes "can_complete ex"
  shows "live_ok ex" "ex_scheduler_running ex" "\<not> pl_paused (ex_pool ex)"
    "q \<in> ex_ptrs ex \<Longrightarrow> slack (ex_heap ex) q = 0"
    "q \<in> ex_ptrs ex \<Longrightarrow> d \<in> set (t_dependencies (ex_heap ex q)) \<Longrightarrow> d < q"
proof -
  show "live_ok ex" "ex_scheduler_running ex" "\<not> pl_paused (ex_pool ex)" using assms by (simp_all add: can_complete_def)
  show "slack (ex_heap ex) q = 0" if "q \<in> ex_ptrs ex" using assms that unfolding can_complete_def by blast
  show "d < q" if "q \<in> ex_ptrs ex" "d \<in> set (t_dependencies (ex_heap ex q))"
  proof -
    have "d \<noteq> q" "d \<le> q" using assms that by (auto simp: can_complete_def deps_before_def)
    then show ?thesis by simp
  qed
qed

text \<open>A run of the executor's own threads that leaves the tasks in place and keeps the condition.\<close>

definition own_run :: "executor \<Rightarrow> executor \<Rightarrow> bool" where
  "own_run ex ex' \<longleftrightarrow> (\<exists>es. (\<forall>e \<in> set es. own_event e) \<and> run_ok es ex \<and> ex' = fold ex_apply es ex)"

lemma own_run_refl: "own_run ex ex"
  unfolding own_run_def by (rule exI [of _ "[]"]) simp

lemma run_ok_append: "run_ok (es @ fs) ex \<longleftrightarrow> run_ok es ex \<and> run_ok fs (fold ex_apply es ex)"
  by (induction es arbitrary: ex) auto

lemma own_run_trans: "own_run ex1 ex2 \<Longrightarrow> own_run ex2 ex3 \<Longrightarrow> own_run ex1 ex3"
proof -
  assume "own_run ex1 ex2" "own_run ex2 ex3"
  then obtain es fs where "\<forall>e \<in> set es. own_event e" "run_ok es ex1" "ex2 = fold ex_apply es ex1"
    "\<forall>e \<in> set fs. own_event e" "run_ok fs ex2" "ex3 = fold ex_apply fs ex2" unfolding own_run_def by blast
  then show ?thesis unfolding own_run_def by (intro exI [of _ "es @ fs"]) (auto simp: run_ok_append)
qed

lemma own_run_step:
  assumes "can_complete ex" and "own_event e" and "event_ok ex e"
  shows "own_run ex (ex_apply e ex)"
  using assms live_okD(6) [OF can_completeD(1) [OF assms(1)]]
  unfolding own_run_def by (intro exI [of _ "[e]"]) simp

lemma can_complete_step:
  assumes can: "can_complete ex" and own: "own_event e" and ok: "event_ok ex e"
  shows "can_complete (ex_apply e ex)" "keeps ex (ex_apply e ex)"
proof -
  note live = can_completeD(1) [OF can]
  show keeps: "keeps ex (ex_apply e ex)" by (rule own_keeps [OF live ok own])
  have live': "live_ok (ex_apply e ex)" by (rule live_step [OF live ok own_plain [OF own]])
  have "evolves (ex_ptrs ex) ex (ex_apply e ex)"
    using ex_apply_evolves [OF live_okD(1) [OF live] ok] live_okD(6) [OF live'] by blast
  then show "can_complete (ex_apply e ex)"
    using can keeps live' by (simp add: can_complete_def keeps_def evolves_def deps_before_def)
qed

subsection \<open>The work that is left\<close>

definition attempts_left :: "executor \<Rightarrow> task_ptr \<Rightarrow> nat" where
  "attempts_left ex q = Suc (unat (t_max_retries (ex_heap ex q))) - unat (t_attempts (ex_heap ex q))"

definition work :: "executor \<Rightarrow> nat" where
  "work ex = 4 * (\<Sum>q \<in> ex_ptrs ex. attempts_left ex q) + sum_list (map distance (ex_workers ex))"

lemma steady_attempts:
  assumes "steady ex ex'"
  shows "(\<Sum>q \<in> ex_ptrs ex'. attempts_left ex' q) = (\<Sum>q \<in> ex_ptrs ex. attempts_left ex q)"
  using assms by (simp add: steady_def attempts_left_def)

lemma distance_update:
  assumes "w < length ws"
  shows "sum_list (map distance (ws[w := st])) + distance (ws ! w) = sum_list (map distance ws) + distance st"
  by (rule sum_list_map_update [OF assms])

lemma moves_work:
  assumes moves: "moves w st ex ex'" and w: "w < length (ex_workers ex)"
    and less: "distance st < distance (ex_workers ex ! w)"
  shows "work ex' < work ex"
  using steady_attempts [of ex ex'] distance_update [OF w, of st] moves less by (simp add: work_def moves_def)

lemma take_work:
  fixes now :: time
  assumes inv: "ex_inv ex" and w: "w < length (ex_workers ex)" and st: "ex_workers ex ! w = Searching"
    and found: "find_task cas (ex_pool ex) w = (pool, Some p)"
  shows "work (worker_take cas now w ex) < work ex"
proof -
  let ?ex = "worker_take cas now w ex"
  let ?undo = "on_ptr p (\<lambda>t. t\<lparr>t_attempts := t_attempts (ex_heap ex p)\<rparr>) ?ex"
  note take = take_moves [OF inv w st found]
  have p: "p \<in> ex_ptrs ex" by (rule take(2))
  note same = take(3) [of now]
  have ptrs: "ex_ptrs ?ex = ex_ptrs ex" using same by (simp add: steady_def on_ptr_def)
  have heap: "t_options (ex_heap ?undo q) = t_options (ex_heap ex q) \<and> t_attempts (ex_heap ?undo q) = t_attempts (ex_heap ex q)" for q
    using same by (simp add: steady_def)
  have other: "attempts_left ?ex q = attempts_left ex q" if "q \<noteq> p" for q
    using heap [of q] that by (simp add: on_ptr_def attempts_left_def)
  have "t_max_retries (ex_heap ?ex p) = t_max_retries (ex_heap ex p)"
    using heap [of p] by (simp add: on_ptr_def)
  with take(4) [of now] take(5) have one: "Suc (attempts_left ?ex p) = attempts_left ex p" by (simp add: attempts_left_def)
  have "(\<Sum>q \<in> ex_ptrs ex. attempts_left ex q) = attempts_left ex p + (\<Sum>q \<in> ex_ptrs ex - {p}. attempts_left ex q)"
    by (rule sum.remove [OF _ p]) simp
  moreover have "(\<Sum>q \<in> ex_ptrs ex. attempts_left ?ex q) = attempts_left ?ex p + (\<Sum>q \<in> ex_ptrs ex - {p}. attempts_left ?ex q)"
    by (rule sum.remove [OF _ p]) simp
  moreover have "(\<Sum>q \<in> ex_ptrs ex - {p}. attempts_left ?ex q) = (\<Sum>q \<in> ex_ptrs ex - {p}. attempts_left ex q)"
    by (rule sum.cong) (simp_all add: other)
  ultimately have "Suc (\<Sum>q \<in> ex_ptrs ?ex. attempts_left ?ex q) = (\<Sum>q \<in> ex_ptrs ex. attempts_left ex q)"
    using one by (simp add: ptrs)
  moreover have "sum_list (map distance (ex_workers ?ex)) = sum_list (map distance (ex_workers ex)) + 3"
    using distance_update [OF w, of "Executing p"] st by (simp add: take(1))
  ultimately show ?thesis by (simp add: work_def)
qed

subsection \<open>Progress\<close>

text \<open>A worker that holds a task brings it a step nearer to its end.\<close>

lemma holding_progress:
  assumes can: "can_complete ex" and w: "w < length (ex_workers ex)" and held: "held (ex_workers ex ! w) \<noteq> {#}"
  shows "\<exists>e. own_event e \<and> event_ok ex e \<and> work (ex_apply e ex) < work ex"
proof (cases "ex_workers ex ! w")
  case (Executing p)
  obtain st where "distance st < 3" "moves w st ex (worker_execute demo_clock w ex)"
    using execute_moves [OF w Executing] by blast
  with moves_work [OF _ w] Executing w show ?thesis by (intro exI [of _ "EExecute demo_clock w"]) simp
next
  case (Returned p x)
  obtain st where "distance st < 2" "moves w st ex (worker_success w ex)"
    using success_moves [OF live_okD(1) [OF can_completeD(1) [OF can]] w Returned] by blast
  with moves_work [OF _ w] Returned w show ?thesis by (intro exI [of _ "ESuccess w"]) simp
next
  case (Threw p x)
  note live = can_completeD(1) [OF can]
  have "\<not> ex_terminated (worker_failure always w ex)"
    using worker_failure_open [OF live_okD(2) [OF live], of always w] by (simp add: open_ok_def)
  from failure_moves [OF live_okD(1) [OF live] w Threw this]
  show ?thesis using moves_work [OF _ w] Threw w by (intro exI [of _ "EFailure always w"]) simp
qed (use held in simp_all)

text \<open>A submission that waits for room in the global queue gets in when the queues are empty.\<close>

lemma waiting_enters:
  assumes inv: "pool_inv p" and cap: "\<forall>c \<in> set (global_capacities p). 1 < unat c"
    and none: "queued_items p = {#}" and some: "pl_waiting p \<noteq> []"
  shows "queued_items (waiting_round True True 0 p) \<noteq> {#}"
proof -
  let ?t = "fst (pl_waiting p ! 0)" and ?pr = "snd (pl_waiting p ! 0)"
  let ?q = "pl_global p ! priority_index ?pr"
  have pqs: "pqs_inv (pl_global p)" using inv by (simp add: pool_inv_def)
  then have len: "priority_index ?pr < length (pl_global p)" using priority_index_less by (simp add: pqs_inv_def)
  have "pqs_items (pl_global p) = {#}" using none by (simp add: queued_items_def)
  then have "q_list ?q = []" using len by (auto simp: pqs_items_def sum_list_mset_empty_iff)
  moreover have "1 < unat (q_capacity ?q)" using cap len by (simp add: global_capacities_def)
  then have "0 < q_bound ?q" by (simp add: q_bound_def)
  moreover obtain g ok where enq: "pqs_try_enqueue True (pl_global p) ?t ?pr = (g, ok)" by fastforce
  ultimately have ok: "ok" "pqs_items g = pqs_items (pl_global p) + {#?t#}"
    using pqs_enqueue_law [OF pqs enq] by auto
  let ?p = "p\<lparr>pl_global := g, pl_waiting := drop 1 (pl_waiting p)\<rparr>"
  have "waiting_round True True 0 p = ?p" using some enq ok(1) by (simp add: waiting_round_def submit_round_def)
  moreover have "queued_items ?p \<noteq> {#}" using ok(2) by (simp add: queued_items_def)
  ultimately show ?thesis by simp
qed

text \<open>An idle worker comes back to its search for a task.\<close>

lemma idle_searches:
  assumes can: "can_complete ex" and w: "w < length (ex_workers ex)" and idle: "held (ex_workers ex ! w) = {#}"
    and pending: "has_pending_work (ex_pool ex)"
  shows "own_run ex (set_worker w Searching ex)"
proof -
  note live = can_completeD(1) [OF can]
  let ?wake = "[EWake w, ELoopHead w, EPauseCheck w]"
  have "ex_workers ex ! w \<noteq> Exited" using live_okD(4) [OF live] w by (metis nth_mem)
  note go = w live_okD(6,7) [OF live] can_completeD(3) [OF can] pending
  show ?thesis
  proof (cases "ex_workers ex ! w")
    case LoopHead
    with go show ?thesis unfolding own_run_def
      by (intro exI [of _ "[ELoopHead w, EPauseCheck w]"]) (simp add: worker_loop_head_def worker_pause_check_def set_worker_def)
  next
    case PauseCheck
    with go show ?thesis unfolding own_run_def
      by (intro exI [of _ "[EPauseCheck w]"]) (simp add: worker_pause_check_def)
  next
    case Searching
    then have "set_worker w Searching ex = ex" using w by (simp add: set_worker_def list_update_same_conv)
    then show ?thesis using own_run_refl by simp
  next
    case Sleeping
    with go show ?thesis unfolding own_run_def
      by (intro exI [of _ ?wake])
        (simp add: worker_wake_def worker_loop_head_def worker_pause_check_def set_worker_def)
  qed (use idle \<open>ex_workers ex ! w \<noteq> Exited\<close> in simp_all)
qed

lemma can_complete_run: "own_run ex ex' \<Longrightarrow> can_complete ex \<Longrightarrow> can_complete ex' \<and> keeps ex ex'"
proof -
  have "can_complete (fold ex_apply es ex) \<and> keeps ex (fold ex_apply es ex)"
    if "\<forall>e \<in> set es. own_event e" "run_ok es ex" "can_complete ex" for es
    using that
  proof (induction es arbitrary: ex)
    case (Cons e es)
    then have "own_event e" "event_ok ex e" by simp_all
    note one = can_complete_step [OF Cons.prems(3) this]
    from Cons.IH [of "ex_apply e ex"] Cons.prems one show ?case by (simp add: keeps_def)
  qed simp
  then show "own_run ex ex' \<Longrightarrow> can_complete ex \<Longrightarrow> can_complete ex' \<and> keeps ex ex'"
    unfolding own_run_def by blast
qed

text \<open>When no worker holds a task and the queues are not empty, worker 0 takes one.\<close>

lemma queue_progress:
  assumes can: "can_complete ex" and idle: "\<forall>st \<in> set (ex_workers ex). held st = {#}"
    and pending: "has_pending_work (ex_pool ex)"
  shows "\<exists>ex'. own_run ex ex' \<and> work ex' < work ex"
proof -
  note live = can_completeD(1) [OF can]
  note inv = live_okD(1) [OF live]
  have n: "0 < unat (pl_num_threads (ex_pool ex))" using live_okD(2) [OF live] by (simp add: open_ok_def unat_gt_0)
  then have w: "0 < length (ex_workers ex)" using ex_invD(2) [OF inv] by simp
  then have held: "held (ex_workers ex ! 0) = {#}" using idle by simp
  let ?ex = "set_worker 0 Searching ex"
  note run = idle_searches [OF can w held pending]
  then have can': "can_complete ?ex" using can_complete_run can by blast
  note inv' = live_okD(1) [OF can_completeD(1) [OF can']]
  have sel: "ex_pool ?ex = ex_pool ex" "ex_workers ?ex = (ex_workers ex)[0 := Searching]" by (simp_all add: set_worker_def)
  obtain pool r where found: "find_task (\<lambda>_ _. True) (ex_pool ?ex) 0 = (pool, r)" by fastforce
  have "r \<noteq> None"
  proof
    assume "r = None"
    from find_task_None [OF ex_invD(1) [OF inv] n found [unfolded sel this]] pending show False by blast
  qed
  then obtain p where "r = Some p" by blast
  note take = take_work [OF inv' _ _ found [unfolded this], of 0]
  have less: "work (ex_apply (ETake (\<lambda>_ _. True) 0 0) ?ex) < work ?ex" using take w by (simp add: sel)
  have "distance (ex_workers ex ! 0) = 0" using held by (cases "ex_workers ex ! 0") simp_all
  then have "work ?ex = work ex"
    using distance_update [OF w, of Searching] by (simp add: work_def sel attempts_left_def) (simp add: set_worker_def)
  moreover have "own_run ?ex (ex_apply (ETake (\<lambda>_ _. True) 0 0) ?ex)"
    by (rule own_run_step [OF can']) (use w in \<open>simp_all add: sel\<close>)
  ultimately show ?thesis using own_run_trans [OF run] less by auto
qed

lemma pool_progress:
  assumes can: "can_complete ex" and idle: "\<forall>st \<in> set (ex_workers ex). held st = {#}"
    and items: "pool_items (ex_pool ex) \<noteq> {#}"
  shows "\<exists>ex'. own_run ex ex' \<and> work ex' < work ex"
proof (cases "queued_items (ex_pool ex) = {#}")
  case False
  note pool = ex_invD(1) [OF live_okD(1) [OF can_completeD(1) [OF can]]]
  from False queued_items_empty_iff [OF pool] show ?thesis using queue_progress [OF can idle] by blast
next
  case True
  note live = can_completeD(1) [OF can]
  note pool = ex_invD(1) [OF live_okD(1) [OF live]]
  have "pl_waiting (ex_pool ex) \<noteq> []" using items True by (auto simp: pool_items_def)
  from waiting_enters [OF pool _ True this] live_okD(5) [OF live]
  have "queued_items (waiting_round True True 0 (ex_pool ex)) \<noteq> {#}" by blast
  moreover define ex1 where "ex1 = ex_apply (ERound True True 0) ex"
  have run: "own_run ex ex1" unfolding ex1_def by (rule own_run_step [OF can]) simp_all
  then have can1: "can_complete ex1" using can_complete_run can by blast
  have sel: "ex_workers ex1 = ex_workers ex" "ex_pool ex1 = waiting_round True True 0 (ex_pool ex)" "work ex1 = work ex"
    by (simp_all add: ex1_def work_def attempts_left_def)
  ultimately have "has_pending_work (ex_pool ex1)"
    using queued_items_empty_iff [OF ex_invD(1) [OF live_okD(1) [OF can_completeD(1) [OF can1]]]] by simp
  with queue_progress [OF can1] idle sel obtain ex2 where "own_run ex1 ex2" "work ex2 < work ex" by auto
  then show ?thesis using own_run_trans [OF run] by blast
qed

text \<open>When nothing is placed, the oldest unfinished task is ready.\<close>

lemma oldest_is_ready:
  assumes can: "can_complete ex" and none: "placed ex = {#}"
    and some: "q \<in> ex_ptrs ex" "\<not> finished (ex_heap ex q)"
  shows "get_ready_tasks (ex_graph ex) \<noteq> []"
proof -
  note live = can_completeD(1) [OF can]
  note inv = live_okD(1) [OF live]
  define P where "P = (\<lambda>q. q \<in> ex_ptrs ex \<and> \<not> finished (ex_heap ex q))"
  define o1 where "o1 = (LEAST q. P q)"
  have "P q" using some by (simp add: P_def)
  then have o1: "P o1" and least: "\<And>d. P d \<Longrightarrow> o1 \<le> d" unfolding o1_def by (rule LeastI) (rule Least_le)
  then have p: "o1 \<in> ex_ptrs ex" and unfin: "\<not> finished (ex_heap ex o1)" by (simp_all add: P_def)
  have "finished (ex_heap ex d)" if d: "d \<in> set (t_dependencies (ex_heap ex o1))" for d
  proof -
    have "d \<in> ex_ptrs ex" using ex_invD(3) [OF inv] p d by (auto simp: graph_wf_def edges_ok_def)
    moreover have "\<not> P d" using can_completeD(5) [OF can p d] least [of d] by (auto simp: not_le [symmetric])
    ultimately show ?thesis by (simp add: P_def)
  qed
  then have "live (ex_heap ex) o1 = 0" by (simp add: live_def)
  with can_completeD(4) [OF can p] have cnt: "t_dependencies_count (ex_heap ex o1) = 0" by (simp add: slack_def)
  have enq: "\<not> t_enqueued (ex_heap ex o1)" using live_okD(3) [OF live] p none by (auto simp: all_placed_def)
  from task_okD(4) [OF ex_invD(4) [OF inv p] enq] unfin enq
  have "t_status (ex_heap ex o1) = Pending \<or> t_status (ex_heap ex o1) = Ready" by (auto simp: finished_def)
  with cnt enq have "is_ready (ex_heap ex o1)" by (simp add: is_ready_def)
  with p have "o1 \<in> set (get_ready_tasks (ex_graph ex))" by (force simp: get_ready_tasks_def)
  then show ?thesis by force
qed

lemma ready_progress:
  assumes can: "can_complete ex" and none: "placed ex = {#}" and ready: "get_ready_tasks (ex_graph ex) \<noteq> []"
  shows "\<exists>ex'. own_run ex ex' \<and> work ex' < work ex"
proof -
  note live = can_completeD(1) [OF can]
  note inv = live_okD(1) [OF live]
  let ?ps = "get_ready_tasks (ex_graph ex)"
  define ex1 where "ex1 = ex_apply (EScheduler (\<lambda>_. always)) ex"
  have ex1: "ex1 = submit_all (\<lambda>_. always) ?ps ex"
    using can_completeD(2) [OF can] by (simp add: ex1_def scheduler_round_def)
  have run: "own_run ex ex1" unfolding ex1_def by (rule own_run_step [OF can]) simp_all
  then have can1: "can_complete ex1" using can_complete_run can by blast
  have dist: "distinct ?ps" "set ?ps \<subseteq> ex_ptrs ex" "\<forall>p \<in> set ?ps. is_ready (ex_heap ex p)"
    using ex_invD(3) [OF inv] by (auto simp: get_ready_tasks_def graph_wf_def)
  have "\<not> ex_terminated (submit_all (\<lambda>_. always) ?ps ex)"
    using live_okD(6) [OF can_completeD(1) [OF can1]] by (simp add: ex1)
  with submit_all_complete [OF inv dist] have "placed ex1 = mset ?ps" using none by (simp add: ex1)
  moreover have workers: "ex_workers ex1 = ex_workers ex" and steady: "steady ex ex1"
    using submit_all_steady by (simp_all add: ex1)
  have "held st = {#}" if "st \<in> set (ex_workers ex)" for st
    using none that by (auto simp: placed_def sum_list_mset_empty_iff)
  then have idle: "\<forall>st \<in> set (ex_workers ex1). held st = {#}" by (simp add: workers)
  moreover from this have "sum_list (map held (ex_workers ex1)) = {#}" by (auto simp: sum_list_mset_empty_iff)
  ultimately have "pool_items (ex_pool ex1) \<noteq> {#}" using ready by (simp add: placed_def)
  from pool_progress [OF can1 idle this] obtain ex2 where ex2: "own_run ex1 ex2" "work ex2 < work ex1" by blast
  have "work ex1 = work ex" using steady_attempts [OF steady] by (simp add: work_def workers)
  with ex2 own_run_trans [OF run] show ?thesis by auto
qed

lemma completes:
  "can_complete ex \<Longrightarrow> \<exists>ex'. own_run ex ex' \<and> placed ex' = {#} \<and> (\<forall>q \<in> ex_ptrs ex'. finished (ex_heap ex' q))"
proof (induction "work ex" arbitrary: ex rule: less_induct)
  case less
  have more: ?case if "own_run ex ex1" "work ex1 < work ex" for ex1
  proof -
    have "can_complete ex1" using can_complete_run [OF that(1) less.prems] by blast
    from less.hyps [OF that(2) this] show ?thesis using own_run_trans [OF that(1)] by blast
  qed
  show ?case
  proof (cases "\<exists>w < length (ex_workers ex). held (ex_workers ex ! w) \<noteq> {#}")
    case True
    then obtain w where "w < length (ex_workers ex)" "held (ex_workers ex ! w) \<noteq> {#}" by blast
    from holding_progress [OF less.prems this] own_run_step [OF less.prems] more show ?thesis by blast
  next
    case False
    then have idle: "\<forall>st \<in> set (ex_workers ex). held st = {#}" by (metis in_set_conv_nth)
    then have held: "sum_list (map held (ex_workers ex)) = {#}" by (auto simp: sum_list_mset_empty_iff)
    show ?thesis
    proof (cases "pool_items (ex_pool ex) = {#}")
      case True
      then have none: "placed ex = {#}" using held by (simp add: placed_def)
      show ?thesis
      proof (cases "\<forall>q \<in> ex_ptrs ex. finished (ex_heap ex q)")
        case True
        with none own_run_refl show ?thesis by blast
      next
        case False
        with oldest_is_ready [OF less.prems none] have "get_ready_tasks (ex_graph ex) \<noteq> []" by blast
        from ready_progress [OF less.prems none this] more show ?thesis by blast
      qed
    qed (use pool_progress [OF less.prems idle] more in blast)
  qed
qed

lemma pool_start_live:
  assumes pool: "pool_inv p" "pool_items p = {#}" and open_pool: "pl_running p" "pl_num_threads p \<noteq> 0"
    and cap: "\<forall>c \<in> set (global_capacities p). 1 < unat c"
  shows "live_ok (executor_on_pool p m)" "deps_before (executor_on_pool p m)"
proof -
  have "open_ok (executor_on_pool p m)"
    using open_pool by (simp add: open_ok_def promises_ok_def executor_on_pool_def empty_graph_def new_task_def)
  then show "live_ok (executor_on_pool p m)"
    using start_inv [OF pool] cap by (simp add: live_ok_def) (simp add: executor_on_pool_def all_placed_def empty_graph_def)
  show "deps_before (executor_on_pool p m)" by (simp add: deps_before_def executor_on_pool_def empty_graph_def)
qed

lemma live_reach_deps:
  "live_reach ex0 ex \<Longrightarrow> live_ok ex0 \<Longrightarrow> deps_before ex0 \<Longrightarrow> deps_before ex"
  by (induction rule: live_reach.induct) (auto intro: deps_step live_reach_ok)

subsection \<open>Tasks can be completed\<close>


lemma live_reach_run:
  "live_reach ex0 ex \<Longrightarrow> run_ok es ex \<Longrightarrow> \<forall>e \<in> set es. plain_event e \<Longrightarrow> live_reach ex0 (fold ex_apply es ex)"
  by (induction es arbitrary: ex) (auto intro: live_reach.step)

text \<open>Two tasks, the second after the first; worker 0 has just taken the first.\<close>

definition taken_demo :: executor where
  "taken_demo = fold ex_apply (take 6 demo_run) demo_start"

lemma taken_demo_reach: "live_reach (executor_on_pool pool2 (Some zero_metrics)) taken_demo"
  unfolding taken_demo_def demo_start_def [symmetric]
  by (rule live_reach_run [OF live_reach.refl]) code_simp+

lemma taken_demo_counts:
  "ex_scheduler_running taken_demo" "\<not> pl_paused (ex_pool taken_demo)"
  "\<forall>q \<in> ex_ptrs taken_demo. slack (ex_heap taken_demo) q = 0 \<and> q \<notin> set (t_dependencies (ex_heap taken_demo q))"
  by code_simp+


end
