(* ===== verification/Executor_Clients.thy ===== *)
theory Executor_Clients
  imports Executor_Runs
begin

section \<open>What a client of the executor sees\<close>

text \<open>
  The task group, the batch, the chain and the distributed executor only submit tasks, cancel them and
  ask for their status. This theory says what a submission does to the store of tasks, and states the
  contract that groups and batches share as an interface: both keep the list of the ids they were given.
\<close>

subsection \<open>The effect of a submission\<close>

text \<open>What a task is made of and no later operation changes.\<close>

definition made_of :: "task \<Rightarrow> task_id \<times> string \<times> (nat \<Rightarrow> exn + any) \<times> task_options" where
  "made_of t = (t_id t, t_name t, t_func t, t_options t)"

lemma add_dependency_made [simp]: "made_of (task_add_dependency p d h q) = made_of (h q)"
  by (simp add: made_of_def task_add_dependency_def on_task_def)

lemma graph_add_dependency_made:
  "made_of (g_heap (graph_add_dependency i j g) q) = made_of (g_heap g q)"
  by (simp add: graph_add_dependency_def split: option.splits)

lemma add_dependencies_spec:
  fixes tid :: task_id and deps :: "task_id list" and ex :: executor
  assumes "map_of (g_tasks (ex_graph ex)) tid = Some p"
  defines "ex' \<equiv> add_dependencies tid deps ex"
  shows "g_tasks (ex_graph ex') = g_tasks (ex_graph ex) \<and> ex_next_ptr ex' = ex_next_ptr ex \<and>
    ex_next_task_id ex' = ex_next_task_id ex \<and> ex_pool ex' = ex_pool ex \<and>
    ex_workers ex' = ex_workers ex \<and> made_of (ex_heap ex' q) = made_of (ex_heap ex q) \<and>
    t_status (ex_heap ex' q) = t_status (ex_heap ex q) \<and>
    t_dependencies (ex_heap ex' q) = t_dependencies (ex_heap ex q) @
      (if q = p then List.map_filter (map_of (g_tasks (ex_graph ex))) deps else [])"
  using assms(1) unfolding ex'_def
proof (induction deps arbitrary: ex)
  case Nil
  then show ?case by (simp add: add_dependencies_def map_filter_simps)
next
  case (Cons j deps)
  let ?ex = "on_graph (graph_add_dependency tid j) ex"
  have tasks: "g_tasks (ex_graph ?ex) = g_tasks (ex_graph ex)"
    by (simp add: on_graph_def graph_add_dependency_def split: option.splits)
  have rest: "ex_next_ptr ?ex = ex_next_ptr ex" "ex_next_task_id ?ex = ex_next_task_id ex"
    "ex_pool ?ex = ex_pool ex" "ex_workers ?ex = ex_workers ex"
    "made_of (ex_heap ?ex q) = made_of (ex_heap ex q)"
    by (simp_all add: on_graph_def graph_add_dependency_made)
  have dep: "t_status (ex_heap ?ex q) = t_status (ex_heap ex q)"
    "t_dependencies (ex_heap ?ex q) = t_dependencies (ex_heap ex q) @
      (if q = p then List.map_filter (map_of (g_tasks (ex_graph ex))) [j] else [])"
    using Cons.prems
    by (auto simp: on_graph_def graph_add_dependency_def task_add_dependency_def on_task_def
        map_filter_simps split: option.splits)
  have step: "add_dependencies tid (j # deps) ex = add_dependencies tid deps ?ex"
    by (simp add: add_dependencies_def)
  show ?case
    using Cons.IH [of ?ex] Cons.prems
    unfolding step tasks rest dep by (simp add: map_filter_simps split: option.splits)
qed

lemma mark_and_submit_spec:
  assumes "mark_and_submit cas p ex = (ex', r)"
  shows "g_tasks (ex_graph ex') = g_tasks (ex_graph ex) \<and> ex_next_ptr ex' = ex_next_ptr ex \<and>
    ex_next_task_id ex' = ex_next_task_id ex \<and> made_of (ex_heap ex' q) = made_of (ex_heap ex q) \<and>
    t_status (ex_heap ex' q) = t_status (ex_heap ex q) \<and>
    t_dependencies (ex_heap ex' q) = t_dependencies (ex_heap ex q)"
  using assms
  by (auto simp: mark_and_submit_def try_mark_enqueued_def submit_to_pool_def on_ptr_def on_task_def
      made_of_def split: if_splits outcome.splits)

text \<open>
  A submission makes one task, with the next id and the next pointer, whose dependencies are the known
  ones among those asked for; it leaves the other tasks as they are, but for their lists of dependents.
\<close>

lemma submit_internal_spec:
  fixes cas now func name sub promise ex ex' r
  defines "p \<equiv> ex_next_ptr ex" and "tid \<equiv> ex_next_task_id ex"
  defines "tasks \<equiv> AList.update tid p (g_tasks (ex_graph ex))"
  assumes run: "submit_internal cas now func name sub promise ex = (ex', r)"
  shows "ex_next_task_id ex' = tid + 1" "ex_next_ptr ex' = Suc p"
    "g_tasks (ex_graph ex') = tasks"
    "made_of (ex_heap ex' p) = made_of (new_task tid func name (sub_options sub) now)"
    "t_dependencies (ex_heap ex' p) = List.map_filter (map_of tasks) (sub_dependencies sub)"
    "q \<noteq> p \<Longrightarrow> made_of (ex_heap ex' q) = made_of (ex_heap ex q)"
    "q \<noteq> p \<Longrightarrow> t_status (ex_heap ex' q) = t_status (ex_heap ex q)"
    "q \<noteq> p \<Longrightarrow> t_dependencies (ex_heap ex' q) = t_dependencies (ex_heap ex q)"
    "r = Return i \<Longrightarrow> i = tid"
proof -
  define ex1 where "ex1 = create_task now func name sub promise ex"
  define ex2 where "ex2 = add_dependencies tid (sub_dependencies sub) ex1"
  obtain r' where last: "enqueue_if_ready cas p ex2 = (ex', r')"
    using submit_internal_steps [OF run] by (auto simp: ex1_def ex2_def p_def tid_def)
  note one = create_task_sel [of now func name sub promise ex, folded ex1_def p_def tid_def]
  have "map_of (g_tasks (ex_graph ex1)) tid = Some p" by (simp add: one map_of_update)
  note two = add_dependencies_spec [OF this, where deps = "sub_dependencies sub", folded ex2_def]
  have three: "g_tasks (ex_graph ex') = g_tasks (ex_graph ex2) \<and> ex_next_ptr ex' = ex_next_ptr ex2 \<and>
    ex_next_task_id ex' = ex_next_task_id ex2 \<and> made_of (ex_heap ex' q) = made_of (ex_heap ex2 q) \<and>
    t_status (ex_heap ex' q) = t_status (ex_heap ex2 q) \<and>
    t_dependencies (ex_heap ex' q) = t_dependencies (ex_heap ex2 q)" for q
    using last mark_and_submit_spec by (auto simp: enqueue_if_ready_def split: if_splits)
  have new: "made_of (ex_heap ex1 p) = made_of (new_task tid func name (sub_options sub) now)"
    "t_dependencies (ex_heap ex1 p) = []"
    by (simp_all add: one made_of_def set_callback_def new_task_def)
  show "ex_next_task_id ex' = tid + 1" "ex_next_ptr ex' = Suc p" "g_tasks (ex_graph ex') = tasks"
    using two three by (simp_all add: one tasks_def)
  show "made_of (ex_heap ex' p) = made_of (new_task tid func name (sub_options sub) now)"
    using two three new by simp
  show "t_dependencies (ex_heap ex' p) = List.map_filter (map_of tasks) (sub_dependencies sub)"
    using two three new by (simp add: one tasks_def)
  show "q \<noteq> p \<Longrightarrow> made_of (ex_heap ex' q) = made_of (ex_heap ex q)"
    "q \<noteq> p \<Longrightarrow> t_status (ex_heap ex' q) = t_status (ex_heap ex q)"
    "q \<noteq> p \<Longrightarrow> t_dependencies (ex_heap ex' q) = t_dependencies (ex_heap ex q)"
    using two three by (simp_all add: one)
  show "r = Return i \<Longrightarrow> i = tid"
    using run by (auto simp: submit_internal_def tid_def Let_def split: prod.splits outcome.splits unit.splits)
qed

text \<open>A submission without dependencies that returns has put its task into the pool.\<close>

lemma submit_queues:
  assumes inv: "pool_inv (ex_pool ex)" and deps: "sub_dependencies sub = []"
    and run: "submit_internal cas now func name sub promise ex = (ex', Return i)"
  shows "placed ex' = add_mset (ex_next_ptr ex) (placed ex)"
proof -
  define ex1 where "ex1 = create_task now func name sub promise ex"
  note one = create_task_sel [of now func name sub promise ex, folded ex1_def]
  have ready: "is_ready (ex_heap ex1 (ex_next_ptr ex))"
    by (simp add: one is_ready_def set_callback_def new_task_def)
  have "mark_and_submit cas (ex_next_ptr ex) ex1 = (ex', Return ())"
    using run deps ready
    by (auto simp: submit_internal_def add_dependencies_def enqueue_if_ready_def ex1_def [symmetric]
        Let_def split: prod.splits outcome.splits unit.splits)
  moreover have "pool_inv (ex_pool ex1)" using inv by (simp add: one)
  ultimately have "placed ex' = add_mset (ex_next_ptr ex) (placed ex1)"
    using mark_and_submit_ready [OF _ ready] by blast
  then show ?thesis by (simp add: placed_def one)
qed

subsection \<open>Cancelling\<close>

lemma notify_keeps:
  "t_cancelled (g_heap (notify_task_completed i g) q) = t_cancelled (g_heap g q)"
  "t_id (g_heap (notify_task_completed i g) q) = t_id (g_heap g q)"
proof -
  have pow: "t_id ((notify_dependency_completed ^^ k) t) = t_id t" for k t
    by (induction k) (simp_all add: notify_dependency_completed_def Let_def)
  show "t_cancelled (g_heap (notify_task_completed i g) q) = t_cancelled (g_heap g q)"
    "t_id (g_heap (notify_task_completed i g) q) = t_id (g_heap g q)"
    by (simp_all add: notify_task_completed_def fold_on_task notify_pow_frame pow split: option.splits)
qed

text \<open>\<open>cancel\<close> sets the mark of one task that was not marked, and says whether it did.\<close>

lemma executor_cancel_spec:
  assumes "executor_cancel tid ex = (ex', r)"
  shows "g_tasks (ex_graph ex') = g_tasks (ex_graph ex)"
    "t_id (ex_heap ex' q) = t_id (ex_heap ex q)"
    "t_cancelled (ex_heap ex' q) \<longleftrightarrow>
       t_cancelled (ex_heap ex q) \<or> get_task tid (ex_graph ex) = Some q"
    "r = Return b \<Longrightarrow>
       (b \<longleftrightarrow> (\<exists>p. get_task tid (ex_graph ex) = Some p \<and> \<not> t_cancelled (ex_heap ex p)))"
    "ex_next_task_id ex' = ex_next_task_id ex"
proof -
  have "g_tasks (ex_graph ex') = g_tasks (ex_graph ex) \<and>
    t_id (ex_heap ex' q) = t_id (ex_heap ex q) \<and>
    (t_cancelled (ex_heap ex' q) \<longleftrightarrow>
       t_cancelled (ex_heap ex q) \<or> get_task tid (ex_graph ex) = Some q) \<and>
    (\<forall>b. r = Return b \<longrightarrow>
       (b \<longleftrightarrow> (\<exists>p. get_task tid (ex_graph ex) = Some p \<and> \<not> t_cancelled (ex_heap ex p)))) \<and>
    ex_next_task_id ex' = ex_next_task_id ex"
  proof (cases "\<exists>p. get_task tid (ex_graph ex) = Some p \<and> \<not> t_cancelled (ex_heap ex p)")
    case False
    then have "ex' = ex \<and> r = Return False"
      using assms by (auto simp: executor_cancel_def task_cancel_def split: option.splits)
    then show ?thesis using False by auto
  next
    case True
    then obtain p where p: "get_task tid (ex_graph ex) = Some p" "\<not> t_cancelled (ex_heap ex p)" by blast
    define t where "t = (ex_heap ex p)\<lparr>t_cancelled := True, t_status := Cancelled\<rparr>"
    obtain ex1 e where fp: "fail_promise tid (RuntimeError ''Task cancelled'') (on_ptr p (\<lambda>_. t) ex) = (ex1, e)"
      by fastforce
    have core: "same_core (on_ptr p (\<lambda>_. t) ex) ex1" by (rule fail_promise_core [OF fp])
    then have heap: "ex_heap ex1 = (ex_heap ex)(p := t)" "g_tasks (ex_graph ex1) = g_tasks (ex_graph ex)"
      "ex_next_task_id ex1 = ex_next_task_id ex"
      by (simp_all add: same_core_def on_ptr_def on_task_def)
    show ?thesis
    proof (cases e)
      case None
      then have "ex' = on_ptr p clear_enqueued_flag
          (on_graph (notify_task_completed tid) (monitored record_cancellation ex1)) \<and> r = Return True"
        using assms p fp by (auto simp: executor_cancel_def task_cancel_def t_def)
      then show ?thesis
        using p heap
        by (auto simp: on_ptr_def on_graph_def monitored_def on_task_def clear_enqueued_flag_def
            notify_keeps t_def)
    next
      case (Some x)
      then have "ex' = ex1 \<and> r = Throw x"
        using assms p fp by (auto simp: executor_cancel_def task_cancel_def t_def)
      then show ?thesis using p heap by (auto simp: t_def)
    qed
  qed
  then show "g_tasks (ex_graph ex') = g_tasks (ex_graph ex)"
    "t_id (ex_heap ex' q) = t_id (ex_heap ex q)"
    "t_cancelled (ex_heap ex' q) \<longleftrightarrow>
       t_cancelled (ex_heap ex q) \<or> get_task tid (ex_graph ex) = Some q"
    "r = Return b \<Longrightarrow>
       (b \<longleftrightarrow> (\<exists>p. get_task tid (ex_graph ex) = Some p \<and> \<not> t_cancelled (ex_heap ex p)))"
    "ex_next_task_id ex' = ex_next_task_id ex"
    by simp_all
qed

text \<open>The loop of \<open>cancel_all\<close>.\<close>

fun cancel_each :: "task_id list \<Rightarrow> size_t \<Rightarrow> executor \<Rightarrow> executor \<times> size_t outcome" where
  "cancel_each [] n ex = (ex, Return n)"
| "cancel_each (i # is) n ex =
     (case executor_cancel i ex of
        (ex, Return b) \<Rightarrow> cancel_each is (if b then n + 1 else n) ex
      | (ex, Throw e) \<Rightarrow> (ex, Throw e)
      | (ex, Block) \<Rightarrow> (ex, Block)
      | (ex, Undefined) \<Rightarrow> (ex, Undefined))"

definition cancellable :: "executor \<Rightarrow> task_id \<Rightarrow> bool" where
  "cancellable ex i \<longleftrightarrow>
     (case get_task i (ex_graph ex) of Some p \<Rightarrow> \<not> t_cancelled (ex_heap ex p) | None \<Rightarrow> False)"

lemma cancel_cancellable:
  assumes "executor_cancel tid ex = (ex', r)"
  shows "cancellable ex' i \<longleftrightarrow> cancellable ex i \<and> get_task tid (ex_graph ex) \<noteq> get_task i (ex_graph ex)"
  using executor_cancel_spec(1,3) [OF assms]
  by (auto simp: cancellable_def get_task_def split: option.splits)

lemma cancel_each_step:
  "cancel_each (i # is) n ex = (ex', r) \<longleftrightarrow>
   (\<exists>ex1 r1. executor_cancel i ex = (ex1, r1) \<and>
     (case r1 of
        Return b \<Rightarrow> cancel_each is (if b then n + 1 else n) ex1 = (ex', r)
      | Throw e \<Rightarrow> ex' = ex1 \<and> r = Throw e
      | Block \<Rightarrow> ex' = ex1 \<and> r = Block
      | Undefined \<Rightarrow> ex' = ex1 \<and> r = Undefined))"
  by (cases "executor_cancel i ex"; cases "snd (executor_cancel i ex)") auto

lemma cancel_each_spec:
  assumes "cancel_each is n ex = (ex', r)"
  shows "g_tasks (ex_graph ex') = g_tasks (ex_graph ex) \<and>
    ex_next_task_id ex' = ex_next_task_id ex \<and>
    (\<forall>i. cancellable ex' i \<longrightarrow> cancellable ex i) \<and>
    (\<forall>m. r = Return m \<longrightarrow> (\<forall>i \<in> set is. \<not> cancellable ex' i))"
  using assms
proof (induction "is" arbitrary: n ex)
  case Nil
  then show ?case by simp
next
  case (Cons i "is")
  obtain ex1 r1 where one: "executor_cancel i ex = (ex1, r1)"
    and rest: "case r1 of
        Return b \<Rightarrow> cancel_each is (if b then n + 1 else n) ex1 = (ex', r)
      | Throw e \<Rightarrow> ex' = ex1 \<and> r = Throw e
      | Block \<Rightarrow> ex' = ex1 \<and> r = Block
      | Undefined \<Rightarrow> ex' = ex1 \<and> r = Undefined"
    using Cons.prems unfolding cancel_each_step by blast
  note spec = executor_cancel_spec(1,5) [OF one] cancel_cancellable [OF one]
  show ?case
  proof (cases r1)
    case (Return b)
    with rest have "cancel_each is (if b then n + 1 else n) ex1 = (ex', r)" by simp
    from Cons.IH [OF this] spec show ?thesis by auto
  qed (use rest spec in auto)
qed

lemma cancel_each_count:
  assumes "cancel_each is n ex = (ex', Return m)" and "distinct is"
    and "\<forall>i p. get_task i (ex_graph ex) = Some p \<longrightarrow> t_id (ex_heap ex p) = i"
  shows "m = n + of_nat (length (filter (cancellable ex) is))"
  using assms
proof (induction "is" arbitrary: n ex)
  case Nil
  then show ?case by simp
next
  case (Cons i "is")
  obtain ex1 r1 where one: "executor_cancel i ex = (ex1, r1)"
    and rest: "case r1 of
        Return b \<Rightarrow> cancel_each is (if b then n + 1 else n) ex1 = (ex', Return m)
      | Throw e \<Rightarrow> ex' = ex1 \<and> Return m = Throw e
      | Block \<Rightarrow> ex' = ex1 \<and> Return m = Block
      | Undefined \<Rightarrow> ex' = ex1 \<and> Return m = Undefined"
    using Cons.prems(1) unfolding cancel_each_step by blast
  then obtain b where b: "r1 = Return b"
    and more: "cancel_each is (if b then n + 1 else n) ex1 = (ex', Return m)"
    by (cases r1) auto
  have bit: "b \<longleftrightarrow> cancellable ex i"
    using executor_cancel_spec(4) [OF one b] by (auto simp: cancellable_def split: option.splits)
  have ids: "\<forall>j p. get_task j (ex_graph ex1) = Some p \<longrightarrow> t_id (ex_heap ex1 p) = j"
    using Cons.prems(3) executor_cancel_spec(1,2) [OF one] by (simp add: get_task_def)
  have other: "cancellable ex1 j = cancellable ex j" if "j \<in> set is" for j
  proof -
    have "j \<noteq> i" using that Cons.prems(2) by auto
    then have "get_task i (ex_graph ex) \<noteq> get_task j (ex_graph ex) \<or> \<not> cancellable ex j"
      using Cons.prems(3) by (cases "get_task j (ex_graph ex)") (auto simp: cancellable_def)
    then show ?thesis using cancel_cancellable [OF one, of j] by blast
  qed
  have "m = (if b then n + 1 else n) + of_nat (length (filter (cancellable ex1) is))"
    using Cons.IH [OF more _ ids] Cons.prems(2) by simp
  also have "filter (cancellable ex1) is = filter (cancellable ex) is"
    using other by (rule filter_cong [OF HOL.refl])
  finally show ?case using bit by simp
qed

subsection \<open>Collections of task ids\<close>

text \<open>
  A request to add a task, without or with dependencies. The interface: adding passes the request to
  the executor and appends the id it returns, and \<open>cancel_all\<close> is the loop over the ids.
\<close>

record request =
  rq_cas :: cas3
  rq_now :: time
  rq_func :: "nat \<Rightarrow> exn + any"
  rq_name :: string
  rq_dependencies :: "task_id list option"
  rq_options :: task_options

definition request_submission :: "request \<Rightarrow> submission" where
  "request_submission rq =
     \<lparr>sub_dependencies = (case rq_dependencies rq of None \<Rightarrow> [] | Some deps \<Rightarrow> deps),
      sub_options = rq_options rq, sub_callback = NoCallback\<rparr>"

locale id_collection =
  fixes ids :: "'c \<Rightarrow> task_id list"
    and exec :: "'c \<Rightarrow> executor"
    and add :: "request \<Rightarrow> 'c \<Rightarrow> 'c \<times> task_id outcome"
    and cancel_all :: "'c \<Rightarrow> 'c \<times> size_t outcome"
  assumes add_law: "add rq c = (c', r) \<Longrightarrow>
      submit_internal (rq_cas rq) (rq_now rq) (rq_func rq) (rq_name rq) (request_submission rq) None
        (exec c) = (exec c', r) \<and>
      ids c' = ids c @ (case r of Return i \<Rightarrow> [i] | _ \<Rightarrow> [])"
    and cancel_law: "cancel_all c = (c', r) \<Longrightarrow>
      cancel_each (ids c) 0 (exec c) = (exec c', r) \<and> ids c' = ids c"
begin

fun add_each :: "request list \<Rightarrow> 'c \<Rightarrow> 'c \<times> task_id outcome list" where
  "add_each [] c = (c, [])"
| "add_each (rq # rqs) c =
     (case add rq c of (c', r) \<Rightarrow> (case add_each rqs c' of (c'', rs) \<Rightarrow> (c'', r # rs)))"

text \<open>The ids of a run of additions that all return are consecutive, from the executor's counter on.\<close>

lemma add_each_ids:
  assumes "add_each rqs c = (c', map Return tids)"
  shows "ids c' = ids c @ tids \<and>
    tids = map (\<lambda>k. ex_next_task_id (exec c) + of_nat k) [0..<length rqs] \<and>
    ex_next_task_id (exec c') = ex_next_task_id (exec c) + of_nat (length rqs)"
  using assms
proof (induction rqs arbitrary: c tids)
  case Nil
  then show ?case by simp
next
  case (Cons rq rqs)
  obtain c1 r where one: "add rq c = (c1, r)" by fastforce
  obtain rs where rest: "add_each rqs c1 = (c', rs)" and all: "map Return tids = r # rs"
    using Cons.prems one by (auto split: prod.splits)
  obtain i tids' where r: "r = Return i" "rs = map Return tids'" "tids = i # tids'"
    using all by (auto simp: Cons_eq_map_conv eq_commute)
  note law = add_law [OF one, unfolded r]
  note spec = submit_internal_spec(1,9) [OF conjunct1 [OF law]]
  have i: "i = ex_next_task_id (exec c)" using spec(2) by simp
  from Cons.IH [OF rest [unfolded r]] spec(1)
  have IH: "ids c' = ids c1 @ tids'"
    "tids' = map (\<lambda>k. ex_next_task_id (exec c) + 1 + of_nat k) [0..<length rqs]"
    "ex_next_task_id (exec c') = ex_next_task_id (exec c) + 1 + of_nat (length rqs)" by simp_all
  have "[0..<Suc (length rqs)] = 0 # map Suc [0..<length rqs]"
    by (simp add: upt_conv_Cons map_Suc_upt del: upt_Suc)
  then show ?case using IH law i r(3) by (simp add: o_def add.assoc del: upt_Suc)
qed

text \<open>After \<open>cancel_all\<close> no task of the collection can be cancelled any more.\<close>

lemma cancel_all_done:
  assumes "cancel_all c = (c', Return n)" and "i \<in> set (ids c)"
  shows "\<not> cancellable (exec c') i"
  using cancel_each_spec [OF conjunct1 [OF cancel_law [OF assms(1)]]] assms(2) by blast

lemma cancel_all_count:
  assumes "cancel_all c = (c', Return n)" and "distinct (ids c)"
    and "\<forall>i p. get_task i (ex_graph (exec c)) = Some p \<longrightarrow> t_id (ex_heap (exec c) p) = i"
  shows "n = of_nat (length (filter (cancellable (exec c)) (ids c)))"
  using cancel_each_count [OF conjunct1 [OF cancel_law [OF assms(1)]] assms(2,3)] by simp

end

end
