(* ===== verification/Client_Programs.thy ===== *)
theory Client_Programs
  imports Executor_Completion Executor_Clients
begin

section \<open>Programs that use the executor\<close>

text \<open>
  The \<open>main\<close> of \<open>src/examples/demo.cpp\<close> and the tests \<open>BasicTaskExecution\<close> and \<open>TaskDependencies\<close> of
  \<open>src/tests/unit_tests.cpp\<close>, as lists of the calls that they make on one executor. The client makes its
  calls one after the other while the scheduler thread, the workers and the waiting submissions go on
  (the events of Executor_Completion). A task function is what it returns; what it prints and how long it
  sleeps is left out. A program that keeps its dependencies between two waits has a run in which \<open>main\<close>
  returns. If it has a dependency at all, it also has one in which \<open>main\<close> never returns, however the run
  goes on: the one in which the dependency has finished before the call that names it.
\<close>

subsection \<open>The calls of a program\<close>

text \<open>A dependency is the position of an earlier submission, whose id the program kept in a variable.\<close>

datatype client_call =
    CallStart
  | CallSubmit "nat \<Rightarrow> exn + any" string task_options
  | CallSubmitAfter "nat \<Rightarrow> exn + any" "nat list" string
  | CallWait
  | CallStop

record client =
  cl_ex :: executor
  cl_ids :: "task_id list"
  cl_last :: "task_ptr option"
  cl_todo :: "client_call list"

definition client_main :: "executor \<Rightarrow> client_call list \<Rightarrow> client" where
  "client_main ex ops = \<lparr>cl_ex = ex, cl_ids = [], cl_last = None, cl_todo = ops\<rparr>"

definition keep_id :: "client \<Rightarrow> executor \<times> task_id outcome \<Rightarrow> client outcome" where
  "keep_id c r =
     (case r of
        (ex, Return tid) \<Rightarrow>
          Return (c\<lparr>cl_ex := ex, cl_ids := cl_ids c @ [tid], cl_last := get_task tid (ex_graph ex)\<rparr>)
      | (ex, Throw e) \<Rightarrow> Throw e
      | (ex, Block) \<Rightarrow> Block
      | (ex, Undefined) \<Rightarrow> Undefined)"

fun run_call :: "cas3 \<Rightarrow> time \<Rightarrow> client_call \<Rightarrow> client \<Rightarrow> client outcome" where
  "run_call cas now CallStart c = Return (c\<lparr>cl_ex := executor_start (cl_ex c)\<rparr>)"
| "run_call cas now (CallSubmit func name options) c =
     keep_id c (submit cas now func name options NoCallback (cl_ex c))"
| "run_call cas now (CallSubmitAfter func deps name) c =
     keep_id c (submit_with_dependencies cas now func (map ((!) (cl_ids c)) deps) name default_options
       NoCallback (cl_ex c))"
| "run_call cas now CallWait c =
     (case wait_for_completion (cl_ex c) of
        Return () \<Rightarrow> Return c
      | Throw e \<Rightarrow> Throw e
      | Block \<Rightarrow> Block
      | Undefined \<Rightarrow> Undefined)"
| "run_call cas now CallStop c = Return (c\<lparr>cl_ex := executor_stop (cl_ex c)\<rparr>)"

text \<open>The client is still in its last submission while that waits for room in the global queue.\<close>

definition client_free :: "client \<Rightarrow> bool" where
  "client_free c \<longleftrightarrow>
     (case cl_last c of None \<Rightarrow> True | Some p \<Rightarrow> p \<notin> fst ` set (pl_waiting (ex_pool (cl_ex c))))"

fun retries_ok :: "client_call \<Rightarrow> bool" where
  "retries_ok (CallSubmit func name options) \<longleftrightarrow> opt_max_retries options < UINT64_MAX"
| "retries_ok op \<longleftrightarrow> True"

text \<open>The program and the executor's own threads, one step at a time; ids do not wrap around.\<close>

inductive prog_reach :: "client \<Rightarrow> client \<Rightarrow> bool" for c0 :: client where
  refl: "prog_reach c0 c0"
| own: "prog_reach c0 c \<Longrightarrow> own_event e \<Longrightarrow> event_ok (cl_ex c) e \<Longrightarrow>
    prog_reach c0 (c\<lparr>cl_ex := ex_apply e (cl_ex c)\<rparr>)"
| call: "prog_reach c0 c \<Longrightarrow> client_free c \<Longrightarrow> cl_todo c = op # ops \<Longrightarrow> retries_ok op \<Longrightarrow>
    ex_next_task_id (cl_ex c) \<noteq> UINT64_MAX \<Longrightarrow> run_call cas now op (c\<lparr>cl_todo := ops\<rparr>) = Return c' \<Longrightarrow>
    prog_reach c0 c'"

lemma prog_reach_trans: "prog_reach c1 c2 \<Longrightarrow> prog_reach c0 c1 \<Longrightarrow> prog_reach c0 c2"
  by (induction rule: prog_reach.induct) (auto intro: prog_reach.intros)

lemma own_run_reach: "own_run (cl_ex c) ex \<Longrightarrow> prog_reach c (c\<lparr>cl_ex := ex\<rparr>)"
proof -
  have "prog_reach c0 c \<Longrightarrow> \<forall>e \<in> set es. own_event e \<Longrightarrow> run_ok es (cl_ex c) \<Longrightarrow>
      prog_reach c0 (c\<lparr>cl_ex := fold ex_apply es (cl_ex c)\<rparr>)" for es c0 c
  proof (induction es arbitrary: c)
    case (Cons e es)
    from Cons.IH [OF prog_reach.own [OF Cons.prems(1)]] Cons.prems show ?case by simp
  qed simp
  from this [OF prog_reach.refl] show "own_run (cl_ex c) ex \<Longrightarrow> prog_reach c (c\<lparr>cl_ex := ex\<rparr>)"
    unfolding own_run_def by blast
qed

subsection \<open>Room in the queues\<close>

lemma size_sum_list:
  fixes f :: "'b \<Rightarrow> 'a multiset"
  shows "size (sum_list (map f xs)) = sum_list (map (\<lambda>x. size (f x)) xs)"
  by (induction xs) simp_all

lemma queue_length_le:
  assumes "i < length s"
  shows "length (q_list (s ! i)) \<le> size (pqs_items s)"
proof -
  have "size (mset (q_list (s ! i))) \<le> sum_list (map (\<lambda>q. size (mset (q_list q))) s)"
    using elem_le_sum_list [of i "map (\<lambda>q. size (mset (q_list q))) s"] assms by simp
  then show ?thesis by (simp add: pqs_items_def size_sum_list)
qed

text \<open>With fewer tasks in the pool than the global queues hold, a submission does not wait.\<close>

lemma pool_submit_gets_in:
  assumes inv: "pool_inv p" and step: "pool_submit always p t pr = Return p'"
    and room: "\<forall>c \<in> set (global_capacities p). size (pool_items p) < unat c - 1"
  shows "pl_waiting p' = pl_waiting p"
proof -
  have run: "pl_running p" using step by (auto simp: pool_submit_def split: if_splits)
  then obtain p1 ok where loc: "try_submit_to_local (fst always) p t pr = Return (p1, ok)"
    using step by (auto simp: pool_submit_def split: outcome.splits)
  note law = submit_local_law [OF inv loc]
  show ?thesis
  proof (cases ok)
    case True
    then show ?thesis using step run loc law by (simp add: pool_submit_def)
  next
    case False
    let ?q = "pl_global p1 ! priority_index pr"
    have pqs: "pqs_inv (pl_global p1)" using law unfolding pool_inv_def by blast
    then have len: "priority_index pr < length (pl_global p1)" using priority_index_less by (simp add: pqs_inv_def)
    have "length (q_list ?q) \<le> size (pqs_items (pl_global p1))" by (rule queue_length_le [OF len])
    also have "\<dots> \<le> size (pool_items p)" using law by (simp add: pool_items_def queued_items_def)
    also have "\<dots> < q_bound ?q" using room len law by (simp add: global_capacities_def q_bound_def)
    finally have "length (q_list ?q) < q_bound ?q" .
    moreover obtain g ok' where enq: "pqs_try_enqueue True (pl_global p1) t pr = (g, ok')" by fastforce
    ultimately have "ok'" using pqs_enqueue_law [OF pqs enq] by simp
    then have "submit_round True True p1 t pr = (p1\<lparr>pl_global := g\<rparr>, Queued)"
      using enq by (simp add: submit_round_def)
    then show ?thesis using step run loc law False by (auto simp: pool_submit_def always_def)
  qed
qed

subsection \<open>What a submission does\<close>

lemma add_dependencies_marks:
  "t_enqueued (ex_heap (add_dependencies tid deps ex) q) = t_enqueued (ex_heap ex q) \<and>
   t_dependencies_count (ex_heap (add_dependencies tid deps ex) q) -
     int (length (t_dependencies (ex_heap (add_dependencies tid deps ex) q))) =
   t_dependencies_count (ex_heap ex q) - int (length (t_dependencies (ex_heap ex q)))"
  unfolding add_dependencies_def
  by (induction deps arbitrary: ex)
    (auto simp: on_graph_def graph_add_dependency_def add_dependency_frame add_dep_heap split: option.splits)

lemma mark_and_submit_counts:
  assumes "mark_and_submit cas p ex = (ex', r)"
  shows "t_dependencies_count (ex_heap ex' q) = t_dependencies_count (ex_heap ex q)"
    "q \<noteq> p \<Longrightarrow> t_enqueued (ex_heap ex' q) = t_enqueued (ex_heap ex q)"
  using assms
  by (auto simp: mark_and_submit_def try_mark_enqueued_def submit_to_pool_def on_ptr_def on_task_def
      split: if_splits outcome.splits)

lemma submission:
  fixes cas now func name sub ex ex' r
  defines "p \<equiv> ex_next_ptr ex"
  assumes live: "live_ok ex" and ids: "ex_next_task_id ex \<noteq> UINT64_MAX" "opt_max_retries (sub_options sub) < UINT64_MAX"
    and callback: "sub_callback sub = NoCallback"
    and run: "submit_internal cas now func name sub None ex = (ex', r)"
  shows "r = Return (ex_next_task_id ex)" "live_ok ex'" "p \<notin> ex_ptrs ex"
    "g_tasks (ex_graph ex') = AList.update (ex_next_task_id ex) p (g_tasks (ex_graph ex))"
    "\<not> finished (ex_heap ex' p)" "q \<noteq> p \<Longrightarrow> finished (ex_heap ex' q) = finished (ex_heap ex q)"
    "t_dependencies_count (ex_heap ex' p) = int (length (t_dependencies (ex_heap ex' p)))"
    "size (placed ex') \<le> Suc (size (placed ex))"
    "cas = always \<Longrightarrow> \<forall>c \<in> set (global_capacities (ex_pool ex)). size (placed ex) < unat c - 1 \<Longrightarrow>
       pl_waiting (ex_pool ex') = pl_waiting (ex_pool ex)"
    "pl_paused (ex_pool ex') = pl_paused (ex_pool ex)"
    "global_capacities (ex_pool ex') = global_capacities (ex_pool ex)"
proof -
  note inv = live_okD(1) [OF live] and oex = live_okD(2) [OF live]
  define ex1 where "ex1 = create_task now func name sub None ex"
  define ex2 where "ex2 = add_dependencies (ex_next_task_id ex) (sub_dependencies sub) ex1"
  obtain r' where last: "enqueue_if_ready cas p ex2 = (ex', r')"
    using submit_internal_steps [OF run] by (auto simp: ex1_def ex2_def p_def)
  have "open_ok ex1" unfolding ex1_def by (rule create_task_open [OF oex]) (simp_all add: callback)
  then have open2: "open_ok ex2" unfolding ex2_def by (rule add_dependencies_frames(1))
  have r': "r' = Return ()"
    using last mark_and_submit_open(1) [OF open2] by (auto simp: enqueue_if_ready_def split: if_splits)
  show "r = Return (ex_next_task_id ex)"
    using run last r' unfolding submit_internal_def ex1_def [symmetric] Let_def p_def ex2_def [symmetric]
    by (simp split: unit.splits)
  have "event_ok ex (ESubmit cas now func name sub)" "plain_event (ESubmit cas now func name sub)"
    using ids callback by simp_all
  from live_step [OF live this] show "live_ok ex'" by (simp add: run)
  note one = create_evolves(1-4) [OF inv ids, of now func name None, folded ex1_def p_def]
  note sel = create_task_sel [of now func name sub None ex, folded ex1_def p_def]
  note two = add_dependencies_spec [OF one(2), where deps = "sub_dependencies sub", folded ex2_def]
  note spec = submit_internal_spec [OF run, folded p_def]
  show "p \<notin> ex_ptrs ex" using ex_invD(5) [OF inv, of p] by (auto simp: p_def)
  show tasks: "g_tasks (ex_graph ex') = AList.update (ex_next_task_id ex) p (g_tasks (ex_graph ex))" by (rule spec(3))
  have status: "t_status (ex_heap ex' q) = t_status (ex_heap ex1 q)" for q
    using two [of q] last mark_and_submit_spec [of cas p ex2 ex' r' q] by (auto simp: enqueue_if_ready_def split: if_splits)
  then show "\<not> finished (ex_heap ex' p)" using one(4) by (simp add: finished_def)
  note marks = add_dependencies_marks [of "ex_next_task_id ex" "sub_dependencies sub" ex1, folded ex2_def]
  have "t_enqueued (ex_heap ex' q) = t_enqueued (ex_heap ex q)" if "q \<noteq> p" for q
    using marks [of q] last mark_and_submit_counts(2) [of cas p ex2 ex' r' q] that
    by (auto simp: sel enqueue_if_ready_def split: if_splits)
  then show "q \<noteq> p \<Longrightarrow> finished (ex_heap ex' q) = finished (ex_heap ex q)"
    using status [of q] by (simp add: finished_def sel)
  have "t_dependencies_count (ex_heap ex' p) = t_dependencies_count (ex_heap ex2 p)"
    "t_dependencies (ex_heap ex' p) = t_dependencies (ex_heap ex2 p)"
    using last mark_and_submit_counts(1) [of cas p ex2 ex' r' p] mark_and_submit_spec [of cas p ex2 ex' r' p]
    by (auto simp: enqueue_if_ready_def split: if_splits)
  then show "t_dependencies_count (ex_heap ex' p) = int (length (t_dependencies (ex_heap ex' p)))"
    using marks [of p] by (simp add: sel set_callback_def new_task_def)
  have placed2: "placed ex2 = placed ex" "ex_pool ex2 = ex_pool ex" using two by (simp_all add: placed_def sel)
  have pool2: "pool_inv (ex_pool ex2)" using ex_invD(1) [OF inv] by (simp add: placed2)
  show "size (placed ex') \<le> Suc (size (placed ex))"
  proof (cases "is_ready (ex_heap ex2 p)")
    case True
    then have "mark_and_submit cas p ex2 = (ex', Return ())" using last r' by (simp add: enqueue_if_ready_def)
    from mark_and_submit_ready [OF pool2 True this] show ?thesis by (simp add: placed2)
  qed (use last placed2 in \<open>simp add: enqueue_if_ready_def\<close>)
  show "pl_waiting (ex_pool ex') = pl_waiting (ex_pool ex)"
    if cas: "cas = always" and room: "\<forall>c \<in> set (global_capacities (ex_pool ex)). size (placed ex) < unat c - 1"
  proof (cases "is_ready (ex_heap ex2 p)")
    case True
    then have mark: "mark_and_submit cas p ex2 = (ex', Return ())" using last r' by (simp add: enqueue_if_ready_def)
    then show ?thesis
    proof (cases rule: mark_and_submit_cases)
      case (mine t)
      then obtain pool where sub: "pool_submit always (ex_pool ex) p (t_priority (ex_heap (on_ptr p (\<lambda>_. t) ex2) p)) = Return pool"
        and ex': "ex' = (on_ptr p (\<lambda>_. t) ex2)\<lparr>ex_pool := pool\<rparr>"
        by (auto simp: submit_to_pool_def on_ptr_def placed2 cas split: outcome.splits)
      have "\<forall>c \<in> set (global_capacities (ex_pool ex)). size (pool_items (ex_pool ex)) < unat c - 1"
        using room by (auto simp: placed_def)
      from pool_submit_gets_in [OF ex_invD(1) [OF inv] sub this] show ?thesis by (simp add: ex')
    qed (simp add: placed2)
  qed (use last placed2 in \<open>simp add: enqueue_if_ready_def\<close>)
  have "steady ex2 ex'" using last mark_and_submit_steady(1) by (auto simp: enqueue_if_ready_def split: if_splits)
  then show "pl_paused (ex_pool ex') = pl_paused (ex_pool ex)"
    "global_capacities (ex_pool ex') = global_capacities (ex_pool ex)" by (simp_all add: steady_def placed2)
qed

lemma known_id_differs:
  assumes "ex_inv ex" and "get_task j (ex_graph ex) = Some d"
  shows "j \<noteq> ex_next_task_id ex" "d \<in> ex_ptrs ex"
  using ex_invD(6) [OF assms(1), of d] map_of_wf [OF ex_invD(3) [OF assms(1)] assms(2) [unfolded get_task_def]] by auto

text \<open>A submission whose dependencies are known and unfinished counts them exactly.\<close>

lemma submission_can_complete:
  assumes can: "can_complete ex" and ids: "ex_next_task_id ex \<noteq> UINT64_MAX" "opt_max_retries (sub_options sub) < UINT64_MAX"
    and callback: "sub_callback sub = NoCallback"
    and run: "submit_internal cas now func name sub None ex = (ex', r)"
    and deps: "\<forall>j \<in> set (sub_dependencies sub). \<exists>d. get_task j (ex_graph ex) = Some d \<and> \<not> finished (ex_heap ex d)"
  shows "can_complete ex'"
proof -
  note live = can_completeD(1) [OF can]
  note inv = live_okD(1) [OF live]
  define p where "p = ex_next_ptr ex"
  note sub = submission [OF live ids callback run, folded p_def]
  note spec = submit_internal_spec [OF run, folded p_def]
  have ptrs: "ex_ptrs ex' \<subseteq> insert p (ex_ptrs ex)" unfolding sub(4) by (rule update_values)
  have old: "slack (ex_heap ex') q = 0 \<and> q \<notin> set (t_dependencies (ex_heap ex' q))" if "q \<in> ex_ptrs ex" for q
  proof -
    have "q \<noteq> p" using that sub(3) by blast
    then show ?thesis
      using submit_internal_evolves [OF inv ids run] that can_completeD(4,5) [OF can that] spec(8) [of q]
      by (auto simp: evolves_def)
  qed
  have dep: "d \<in> ex_ptrs ex \<and> \<not> finished (ex_heap ex' d)" if "d \<in> set (t_dependencies (ex_heap ex' p))" for d
  proof -
    from that obtain j where j: "j \<in> set (sub_dependencies sub)" "map_of (g_tasks (ex_graph ex')) j = Some d"
      unfolding spec(5) by (auto simp: List.map_filter_def sub(4))
    from deps j(1) obtain e where e: "get_task j (ex_graph ex) = Some e" "\<not> finished (ex_heap ex e)" by blast
    note known = known_id_differs [OF inv e(1)]
    have "d = e" using j(2) e(1) known(1) by (simp add: sub(4) map_of_update get_task_def)
    moreover have "e \<noteq> p" using known(2) sub(3) by blast
    ultimately show ?thesis using known(2) e(2) sub(6) [of e] by simp
  qed
  then have "live (ex_heap ex') p = length (t_dependencies (ex_heap ex' p))" by (simp add: live_def filter_id_conv)
  then have "slack (ex_heap ex') p = 0" using sub(7) by (simp add: slack_def)
  moreover have "p \<notin> set (t_dependencies (ex_heap ex' p))" using dep sub(3) by blast
  ultimately have "\<forall>q \<in> ex_ptrs ex'. slack (ex_heap ex') q = 0 \<and> q \<notin> set (t_dependencies (ex_heap ex' q))"
    using old ptrs by blast
  moreover have "deps_before ex'"
    using can by (intro submit_deps [OF inv ids _ run]) (simp add: can_complete_def)
  moreover have "ex_scheduler_running ex'" "\<not> pl_paused (ex_pool ex')"
    using submit_internal_running [OF run] can_completeD(2,3) [OF can] sub(10) by simp_all
  ultimately show ?thesis using sub(2) by (simp add: can_complete_def)
qed

subsection \<open>Between two waits\<close>

text \<open>The positions where the present block starts and ends after some calls; every dependency stays in
  its block, and a block has no more submissions than a global queue has room for.\<close>

fun blocks :: "nat \<Rightarrow> nat \<Rightarrow> client_call list \<Rightarrow> (nat \<times> nat) option" where
  "blocks s k [] = Some (s, k)"
| "blocks s k (CallSubmit func name options # ops) =
     (if k < s + 2047 \<and> opt_max_retries options < UINT64_MAX then blocks s (Suc k) ops else None)"
| "blocks s k (CallSubmitAfter func deps name # ops) =
     (if k < s + 2047 \<and> (\<forall>d \<in> set deps. s \<le> d \<and> d < k) then blocks s (Suc k) ops else None)"
| "blocks s k (CallWait # ops) = blocks k k ops"
| "blocks s k (op # ops) = None"

lemma blocks_append:
  "blocks s k (ops @ ops') = (case blocks s k ops of None \<Rightarrow> None | Some (s', k') \<Rightarrow> blocks s' k' ops')"
  by (induction s k ops rule: blocks.induct) simp_all

lemma blocks_length: "blocks s k ops = Some (s', k') \<Longrightarrow> k' \<le> k + length ops"
  by (induction s k ops rule: blocks.induct) (auto split: if_splits)

definition in_block :: "nat \<Rightarrow> client \<Rightarrow> bool" where
  "in_block s c \<longleftrightarrow> (let ex = cl_ex c; k = length (cl_ids c) in
     can_complete ex \<and> pl_waiting (ex_pool ex) = [] \<and> s \<le> k \<and> size (placed ex) \<le> k - s \<and>
     unat (ex_next_task_id ex) = Suc k \<and> (\<forall>c \<in> set (global_capacities (ex_pool ex)). c = 2048) \<and>
     (\<forall>i \<in> {s..<k}. \<exists>d. get_task (cl_ids c ! i) (ex_graph ex) = Some d \<and> \<not> finished (ex_heap ex d)))"

lemma in_blockD:
  assumes "in_block s c"
  shows "can_complete (cl_ex c)" "pl_waiting (ex_pool (cl_ex c)) = []" "s \<le> length (cl_ids c)"
    "size (placed (cl_ex c)) \<le> length (cl_ids c) - s" "unat (ex_next_task_id (cl_ex c)) = Suc (length (cl_ids c))"
    "cap \<in> set (global_capacities (ex_pool (cl_ex c))) \<Longrightarrow> cap = 2048" "client_free c"
    "s \<le> i \<Longrightarrow> i < length (cl_ids c) \<Longrightarrow>
       \<exists>d. get_task (cl_ids c ! i) (ex_graph (cl_ex c)) = Some d \<and> \<not> finished (ex_heap (cl_ex c) d)"
  using assms by (auto simp: in_block_def Let_def client_free_def split: option.splits)

lemma block_next_id:
  assumes "in_block s c" and "length (cl_ids c) < 2 ^ 63"
  shows "ex_next_task_id (cl_ex c) \<noteq> UINT64_MAX"
proof
  assume "ex_next_task_id (cl_ex c) = UINT64_MAX"
  moreover have "unat UINT64_MAX = 2 ^ 64 - 1" by (simp add: UINT64_MAX_def unsigned_minus_1_eq_mask mask_eq_exp_minus_1)
  ultimately show False using in_blockD(5) [OF assms(1)] assms(2) by simp
qed

text \<open>A call of \<open>submit\<close> or \<open>submit_with_dependencies\<close>.\<close>

fun call_submission :: "client_call \<Rightarrow> task_id list \<Rightarrow> ((nat \<Rightarrow> exn + any) \<times> string \<times> submission) option" where
  "call_submission (CallSubmit func name options) ids =
     Some (func, name, \<lparr>sub_dependencies = [], sub_options = options, sub_callback = NoCallback\<rparr>)"
| "call_submission (CallSubmitAfter func deps name) ids =
     Some (func, name, \<lparr>sub_dependencies = map ((!) ids) deps, sub_options = default_options, sub_callback = NoCallback\<rparr>)"
| "call_submission op ids = None"

lemma run_call_submission:
  assumes "call_submission op (cl_ids c) = Some (func, name, sub)"
  shows "run_call cas now op c = keep_id c (submit_internal cas now func name sub None (cl_ex c))"
    "sub_callback sub = NoCallback" "retries_ok op \<Longrightarrow> opt_max_retries (sub_options sub) < UINT64_MAX"
proof -
  have max: "opt_max_retries default_options < UINT64_MAX" by code_simp
  have "run_call cas now op c = keep_id c (submit_internal cas now func name sub None (cl_ex c)) \<and>
      sub_callback sub = NoCallback \<and> (retries_ok op \<longrightarrow> opt_max_retries (sub_options sub) < UINT64_MAX)"
  proof (cases op)
    case (CallSubmit f n options)
    with assms have "func = f" "name = n"
      "sub = \<lparr>sub_dependencies = [], sub_options = options, sub_callback = NoCallback\<rparr>" by simp_all
    then show ?thesis by (simp add: CallSubmit submit_def)
  next
    case (CallSubmitAfter f deps n)
    with assms have "func = f" "name = n"
      "sub = \<lparr>sub_dependencies = map ((!) (cl_ids c)) deps, sub_options = default_options, sub_callback = NoCallback\<rparr>"
      by simp_all
    then show ?thesis using max by (simp add: CallSubmitAfter submit_with_dependencies_def)
  qed (use assms in simp_all)
  then show "run_call cas now op c = keep_id c (submit_internal cas now func name sub None (cl_ex c))"
    "sub_callback sub = NoCallback" "retries_ok op \<Longrightarrow> opt_max_retries (sub_options sub) < UINT64_MAX" by simp_all
qed

lemma submit_in_block:
  assumes blk: "in_block s c" and todo: "cl_todo c = op # ops"
    and op: "call_submission op (cl_ids c) = Some (func, name, sub)" "retries_ok op"
    and deps: "\<forall>j \<in> set (sub_dependencies sub). \<exists>i. s \<le> i \<and> i < length (cl_ids c) \<and> j = cl_ids c ! i"
    and room: "length (cl_ids c) < s + 2047" "length (cl_ids c) < 2 ^ 63"
  shows "\<exists>c'. prog_reach c c' \<and> in_block s c' \<and> cl_todo c' = ops \<and> length (cl_ids c') = Suc (length (cl_ids c))"
proof -
  let ?ex = "cl_ex c" and ?k = "length (cl_ids c)"
  note D = in_blockD [OF blk]
  note live = can_completeD(1) [OF D(1)]
  note inv = live_okD(1) [OF live]
  note next_id = block_next_id [OF blk room(2)]
  note call = run_call_submission [OF op(1)]
  obtain ex' r where run: "submit_internal always 0 func name sub None ?ex = (ex', r)" by fastforce
  note sub = submission [OF live next_id call(3) [OF op(2)] call(2) run]
  let ?tid = "ex_next_task_id ?ex" and ?p = "ex_next_ptr ?ex"
  have new: "get_task ?tid (ex_graph ex') = Some ?p" by (simp add: get_task_def sub(4) map_of_update)
  define c' where "c' = c\<lparr>cl_todo := ops, cl_ex := ex', cl_ids := cl_ids c @ [?tid], cl_last := Some ?p\<rparr>"
  have "run_call always 0 op (c\<lparr>cl_todo := ops\<rparr>) = Return c'"
    using run_call_submission(1) [of op "c\<lparr>cl_todo := ops\<rparr>"] op(1) run sub(1) new by (simp add: keep_id_def c'_def)
  from prog_reach.call [OF prog_reach.refl D(7) todo op(2) next_id this] have "prog_reach c c'" .
  moreover have "in_block s c'"
  proof -
    have "\<exists>d. get_task j (ex_graph ?ex) = Some d \<and> \<not> finished (ex_heap ?ex d)"
      if "j \<in> set (sub_dependencies sub)" for j
    proof -
      from deps that obtain i where "s \<le> i" "i < ?k" "j = cl_ids c ! i" by blast
      with D(8) [of i] show ?thesis by simp
    qed
    then have "\<forall>j \<in> set (sub_dependencies sub). \<exists>d. get_task j (ex_graph ?ex) = Some d \<and> \<not> finished (ex_heap ?ex d)"
      by blast
    from submission_can_complete [OF D(1) next_id call(3) [OF op(2)] call(2) run this] have can: "can_complete ex'" .
    have "\<forall>c \<in> set (global_capacities (ex_pool ?ex)). size (placed ?ex) < unat c - 1"
    proof
      fix cap assume "cap \<in> set (global_capacities (ex_pool ?ex))"
      then have "cap = 2048" by (rule D(6))
      then show "size (placed ?ex) < unat cap - 1" using D(3,4) room(1) by simp
    qed
    from sub(9) [OF HOL.refl this] have wait: "pl_waiting (ex_pool ex') = []" using D(2) by simp
    have "unat (?tid + 1) = Suc (Suc ?k)" using D(5) room(2) by (simp add: unat_word_ariths)
    then have ids: "unat (ex_next_task_id ex') = Suc (Suc ?k)" using submit_internal_spec(1) [OF run] by simp
    have known: "\<exists>d. get_task (cl_ids c' ! i) (ex_graph ex') = Some d \<and> \<not> finished (ex_heap ex' d)"
      if i: "s \<le> i" "i < Suc ?k" for i
    proof (cases "i = ?k")
      case True
      then show ?thesis using new sub(5) by (simp add: c'_def)
    next
      case False
      with i D(8) [of i] obtain d where d: "get_task (cl_ids c ! i) (ex_graph ?ex) = Some d" "\<not> finished (ex_heap ?ex d)"
        by auto
      note known = known_id_differs [OF inv d(1)]
      have "d \<noteq> ?p" using known(2) sub(3) by blast
      then have "\<not> finished (ex_heap ex' d)" using sub(6) d(2) by simp
      moreover have "get_task (cl_ids c ! i) (ex_graph ex') = Some d"
        using d(1) known(1) by (simp add: get_task_def sub(4) map_of_update)
      moreover have "cl_ids c' ! i = cl_ids c ! i" using False i by (simp add: c'_def nth_append)
      ultimately show ?thesis by simp
    qed
    then show ?thesis
      using can wait ids D(3,4,6) sub(8,11) by (auto simp: in_block_def Let_def c'_def)
  qed
  ultimately show ?thesis by (intro exI [of _ c']) (simp add: c'_def)
qed

text \<open>A wait: the executor's threads finish every task, and the next block begins.\<close>

lemma finish_block:
  assumes blk: "in_block s c"
  shows "\<exists>ex. prog_reach c (c\<lparr>cl_ex := ex\<rparr>) \<and> keeps (cl_ex c) ex \<and> (\<forall>q \<in> ex_ptrs ex. finished (ex_heap ex q)) \<and>
    in_block (length (cl_ids c)) (c\<lparr>cl_ex := ex\<rparr>)"
proof -
  note D = in_blockD [OF blk]
  from completes [OF D(1)] obtain ex where run: "own_run (cl_ex c) ex" and none: "placed ex = {#}"
    and all: "\<forall>q \<in> ex_ptrs ex. finished (ex_heap ex q)" by blast
  note can = can_complete_run [OF run D(1)]
  have "pl_waiting (ex_pool ex) = []" using none by (simp add: placed_def pool_items_def)
  then have "in_block (length (cl_ids c)) (c\<lparr>cl_ex := ex\<rparr>)"
    using can none D(5,6) by (simp add: in_block_def keeps_def)
  with own_run_reach [OF run] can all show ?thesis by blast
qed

lemma wait_in_block:
  assumes blk: "in_block s c" and todo: "cl_todo c = CallWait # ops" and room: "length (cl_ids c) < 2 ^ 63"
  shows "\<exists>c'. prog_reach c c' \<and> in_block (length (cl_ids c)) c' \<and> cl_todo c' = ops \<and> length (cl_ids c') = length (cl_ids c)"
proof -
  from finish_block [OF blk] obtain ex where reach: "prog_reach c (c\<lparr>cl_ex := ex\<rparr>)"
    and all: "\<forall>q \<in> ex_ptrs ex. finished (ex_heap ex q)" and blk': "in_block (length (cl_ids c)) (c\<lparr>cl_ex := ex\<rparr>)"
    by blast
  let ?c = "c\<lparr>cl_ex := ex\<rparr>"
  have "wait_for_completion ex = Return ()"
    using all by (auto simp: wait_for_completion_def all_completed_def finished_def terminal_def Let_def)
  then have op: "run_call always 0 CallWait (?c\<lparr>cl_todo := ops\<rparr>) = Return (?c\<lparr>cl_todo := ops\<rparr>)"
    by (simp split: unit.splits)
  have "ex_next_task_id (cl_ex ?c) \<noteq> UINT64_MAX" using block_next_id [OF blk'] room by simp
  from prog_reach.call [OF reach in_blockD(7) [OF blk'] _ _ this op] todo
  have "prog_reach c (?c\<lparr>cl_todo := ops\<rparr>)" by simp
  moreover have "in_block (length (cl_ids c)) (?c\<lparr>cl_todo := ops\<rparr>)" using blk' by (simp add: in_block_def)
  ultimately show ?thesis by (intro exI [of _ "?c\<lparr>cl_todo := ops\<rparr>"]) simp
qed

lemma blocks_run:
  assumes "blocks s (length (cl_ids c)) ops = Some (s', k')" and "in_block s c" and "cl_todo c = ops @ rest"
    and "length (cl_ids c) + length ops < 2 ^ 63"
  shows "\<exists>c'. prog_reach c c' \<and> in_block s' c' \<and> cl_todo c' = rest \<and> length (cl_ids c') = k'"
  using assms
proof (induction ops arbitrary: s c)
  case Nil
  then show ?case using prog_reach.refl by auto
next
  case (Cons op ops)
  have step: ?case if one: "prog_reach c c1" "in_block s1 c1" "cl_todo c1 = ops @ rest"
    "blocks s1 (length (cl_ids c1)) ops = Some (s', k')" "length (cl_ids c1) + length ops < 2 ^ 63" for c1 s1
    using Cons.IH [OF one(4,2,3,5)] prog_reach_trans [OF _ one(1)] by blast
  have todo: "cl_todo c = op # (ops @ rest)" using Cons.prems(3) by simp
  show ?case
  proof (cases op)
    case (CallSubmit func name options)
    have "retries_ok op" and room: "length (cl_ids c) < s + 2047" "length (cl_ids c) < 2 ^ 63"
      using Cons.prems by (auto simp: CallSubmit split: if_splits)
    from submit_in_block [OF Cons.prems(2) todo _ this(1) _ room] Cons.prems(1,4) step
    show ?thesis by (fastforce simp: CallSubmit split: if_splits)
  next
    case (CallSubmitAfter func deps name)
    have "retries_ok op" and room: "length (cl_ids c) < s + 2047" "length (cl_ids c) < 2 ^ 63"
      and deps: "\<forall>d \<in> set deps. s \<le> d \<and> d < length (cl_ids c)"
      using Cons.prems by (auto simp: CallSubmitAfter split: if_splits)
    let ?sub = "\<lparr>sub_dependencies = map ((!) (cl_ids c)) deps, sub_options = default_options, sub_callback = NoCallback\<rparr>"
    have "\<forall>j \<in> set (sub_dependencies ?sub). \<exists>i. s \<le> i \<and> i < length (cl_ids c) \<and> j = cl_ids c ! i"
      using deps by auto
    from submit_in_block [OF Cons.prems(2) todo _ \<open>retries_ok op\<close> this room] Cons.prems(1,4) step
    show ?thesis by (fastforce simp: CallSubmitAfter split: if_splits)
  next
    case CallWait
    from wait_in_block [OF Cons.prems(2) todo [unfolded CallWait]] Cons.prems(1,4) step
    show ?thesis by (fastforce simp: CallWait)
  qed (use Cons.prems in simp_all)
qed

subsection \<open>Whole programs\<close>

lemma new_executor:
  assumes "TaskExecutor n = Inr ex"
  shows "ex_ptrs ex = {}" "ex_next_task_id ex = 1" "pl_waiting (ex_pool ex) = []" "placed ex = {#}"
    "global_capacities (ex_pool ex) = replicate 4 2048" "\<not> pl_paused (ex_pool ex)"
proof -
  obtain p where p: "ThreadPool n = Inr p" and ex: "ex = executor_on_pool p (Some zero_metrics)"
    using assms by (auto simp: TaskExecutor_def split: sum.splits)
  note pool = new_pool_inv [OF p]
  have fields: "pl_waiting p = []" "\<not> pl_paused p" "global_capacities p = replicate 4 2048"
    using p by (auto simp: ThreadPool_def PriorityQueueSet_def LockFreeTaskQueue_def Let_def global_capacities_def
        numeral_eq_Suc split: sum.splits if_splits)
  show "ex_ptrs ex = {}" "ex_next_task_id ex = 1" by (simp_all add: ex executor_on_pool_def empty_graph_def)
  show "pl_waiting (ex_pool ex) = []" "global_capacities (ex_pool ex) = replicate 4 2048" "\<not> pl_paused (ex_pool ex)"
    using fields by (simp_all add: ex executor_on_pool_def)
  show "placed ex = {#}" using pool by (simp add: ex executor_on_pool_def placed_def)
qed

lemma main_starts:
  assumes new: "TaskExecutor n = Inr ex" and n: "n \<noteq> 0"
  shows "\<exists>c. prog_reach (client_main ex (CallStart # ops)) c \<and> in_block 0 c \<and> cl_todo c = ops \<and> cl_ids c = []"
proof -
  let ?c = "client_main ex (CallStart # ops)"
  let ?c' = "client_main (executor_start ex) ops"
  note fields = new_executor [OF new]
  note live = start_live [OF new n]
  have "ex_next_task_id (cl_ex ?c) \<noteq> UINT64_MAX" by (simp add: client_main_def fields UINT64_MAX_def)
  moreover have "client_free ?c" by (simp add: client_free_def client_main_def)
  ultimately have "prog_reach ?c ?c'"
    by (intro prog_reach.call [OF prog_reach.refl, where op = CallStart and ops = ops]) (simp_all add: client_main_def)
  moreover have "in_block 0 ?c'"
  proof -
    have "live_ok (executor_start ex)" using live_step [OF live, of EStart] by simp
    then have "can_complete (executor_start ex)"
      using fields(1,6) by (simp add: can_complete_def deps_before_def) (simp add: executor_start_def)
    then show ?thesis
      using fields by (simp add: in_block_def client_main_def) (simp add: executor_start_def placed_def)
  qed
  ultimately show ?thesis by (intro exI [of _ ?c']) (simp add: client_main_def)
qed

lemma block_returns:
  assumes blk: "in_block s c" and ops: "blocks s (length (cl_ids c)) ops = Some sk"
    and todo: "cl_todo c = ops @ [CallWait, CallStop]" and len: "length (cl_ids c) + length ops < 2 ^ 62"
  shows "\<exists>c'. prog_reach c c' \<and> cl_todo c' = []"
proof -
  obtain s' k where all: "blocks s (length (cl_ids c)) (ops @ [CallWait]) = Some (s', k)"
    using ops by (cases sk) (simp add: blocks_append)
  have "cl_todo c = (ops @ [CallWait]) @ [CallStop]" using todo by simp
  from blocks_run [OF all blk this] len obtain c' where c': "prog_reach c c'" "in_block s' c'" "cl_todo c' = [CallStop]"
    "length (cl_ids c') = k" by auto
  have "ex_next_task_id (cl_ex c') \<noteq> UINT64_MAX"
    using blocks_length [OF all] len c'(4) by (intro block_next_id [OF c'(2)]) simp
  from prog_reach.call [OF c'(1) in_blockD(7) [OF c'(2)] c'(3) _ this, where cas = always and now = 0]
  have "prog_reach c (c'\<lparr>cl_todo := [], cl_ex := executor_stop (cl_ex c')\<rparr>)" by simp
  then show ?thesis by (intro exI [of _ "c'\<lparr>cl_todo := [], cl_ex := executor_stop (cl_ex c')\<rparr>"]) simp
qed


subsection \<open>Programs that never return\<close>

text \<open>A task waits for a dependency that had finished, and the program has a wait ahead.\<close>

definition stuck :: "client \<Rightarrow> bool" where
  "stuck c \<longleftrightarrow> live_ok (cl_ex c) \<and> (\<exists>p \<in> ex_ptrs (cl_ex c). 0 < slack (ex_heap (cl_ex c)) p) \<and>
     (\<exists>ops ops'. cl_todo c = ops @ CallWait # ops' \<and> CallStop \<notin> set ops)"

lemma late_step:
  assumes live: "live_ok ex" and ok: "event_ok ex e" and plain: "plain_event e"
    and late: "\<exists>p \<in> ex_ptrs ex. 0 < slack (ex_heap ex) p"
  shows "live_ok (ex_apply e ex) \<and> (\<exists>p \<in> ex_ptrs (ex_apply e ex). 0 < slack (ex_heap (ex_apply e ex)) p)"
proof -
  have live': "live_ok (ex_apply e ex)" by (rule live_step [OF live ok plain])
  with ex_apply_evolves [OF live_okD(1) [OF live] ok] live_okD(6)
  have "evolves (ex_ptrs ex) ex (ex_apply e ex)" by blast
  with late live' show ?thesis unfolding evolves_def by (metis (no_types, lifting))
qed

lemma stuck_call:
  assumes stuck: "stuck c" and todo: "cl_todo c = op # ops" and ok: "retries_ok op" "ex_next_task_id (cl_ex c) \<noteq> UINT64_MAX"
    and run: "run_call cas now op (c\<lparr>cl_todo := ops\<rparr>) = Return c'"
  shows "stuck c'"
proof -
  let ?ex = "cl_ex c"
  have live: "live_ok ?ex" and late: "\<exists>p \<in> ex_ptrs ?ex. 0 < slack (ex_heap ?ex) p"
    using stuck by (simp_all add: stuck_def)
  obtain pre post where split: "cl_todo c = pre @ CallWait # post" "CallStop \<notin> set pre" using stuck by (auto simp: stuck_def)
  have "op \<noteq> CallWait"
  proof
    assume op: "op = CallWait"
    from late excess_count_waits [OF live_okD(1) [OF live]] have "wait_for_completion ?ex = Block" by blast
    with run op show False by simp
  qed
  with split todo obtain pre' where pre: "ops = pre' @ CallWait # post" "CallStop \<notin> set pre'" "op \<noteq> CallStop"
    by (cases pre) auto
  have event: ?thesis if "event_ok ?ex e" "plain_event e" "cl_ex c' = ex_apply e ?ex" "cl_todo c' = ops" for e
    using late_step [OF live that(1,2) late] that(3,4) pre(1,2) by (simp add: stuck_def) blast
  have submission: ?thesis if sub: "call_submission op (cl_ids c) = Some (func, name, sub)" for func name sub
  proof -
    have "call_submission op (cl_ids (c\<lparr>cl_todo := ops\<rparr>)) = Some (func, name, sub)" using sub by simp
    note call = run_call_submission [OF this]
    show ?thesis
      by (rule event [of "ESubmit cas now func name sub"])
        (use ok call(2,3) run in \<open>auto simp: call(1) keep_id_def split: prod.splits outcome.splits\<close>)
  qed
  show ?thesis
  proof (cases op)
    case CallStart
    show ?thesis by (rule event [of EStart]) (use run CallStart in auto)
  qed (use submission \<open>op \<noteq> CallWait\<close> pre(3) in simp_all)
qed

lemma stuck_reach: "prog_reach c0 c \<Longrightarrow> stuck c0 \<Longrightarrow> stuck c"
proof (induction rule: prog_reach.induct)
  case (own c e)
  then have st: "stuck c" by simp
  then have "live_ok (cl_ex c)" "\<exists>p \<in> ex_ptrs (cl_ex c). 0 < slack (ex_heap (cl_ex c)) p" by (simp_all add: stuck_def)
  from late_step [OF this(1) own.hyps(3) own_plain [OF own.hyps(2)] this(2)] st show ?case by (simp add: stuck_def)
next
  case (call c op ops cas now c')
  then show ?case using stuck_call by blast
qed

text \<open>The dependency finishes, and then the call that names it is made.\<close>

lemma late_call:
  assumes blk: "in_block s c1" and todo: "cl_todo c1 = CallSubmitAfter func deps name # mid @ CallWait # post"
    and i: "i \<in> set deps" "s \<le> i" "i < length (cl_ids c1)" and len: "length (cl_ids c1) < 2 ^ 63"
    and ahead: "CallStop \<notin> set mid"
  shows "\<exists>c. prog_reach c1 c \<and> stuck c"
proof -
  let ?op = "CallSubmitAfter func deps name" and ?rest = "mid @ CallWait # post"
  from finish_block [OF blk] obtain ex2 where reach2: "prog_reach c1 (c1\<lparr>cl_ex := ex2\<rparr>)" and keeps: "keeps (cl_ex c1) ex2"
    and all: "\<forall>q \<in> ex_ptrs ex2. finished (ex_heap ex2 q)" and blk2: "in_block (length (cl_ids c1)) (c1\<lparr>cl_ex := ex2\<rparr>)"
    by blast
  let ?c2 = "c1\<lparr>cl_ex := ex2\<rparr>"
  let ?j = "cl_ids c1 ! i"
  obtain d where "get_task ?j (ex_graph (cl_ex c1)) = Some d" using in_blockD(8) [OF blk i(2,3)] by blast
  then have d: "get_task ?j (ex_graph ex2) = Some d" using keeps by (simp add: get_task_def keeps_def)
  have live: "live_ok ex2" using can_completeD(1) [OF in_blockD(1) [OF blk2]] by simp
  note inv = live_okD(1) [OF live]
  have fin: "finished (ex_heap ex2 d)" using known_id_differs(2) [OF inv d] all by blast
  have next_id: "ex_next_task_id ex2 \<noteq> UINT64_MAX" using block_next_id [OF blk2] len by simp
  let ?sub = "\<lparr>sub_dependencies = map ((!) (cl_ids c1)) deps, sub_options = default_options, sub_callback = NoCallback\<rparr>"
  have "call_submission ?op (cl_ids (?c2\<lparr>cl_todo := ?rest\<rparr>)) = Some (func, name, ?sub)" by simp
  note call = run_call_submission [OF this]
  obtain ex3 r where run: "submit_internal always 0 func name ?sub None ex2 = (ex3, r)" by fastforce
  have retries: "opt_max_retries (sub_options ?sub) < UINT64_MAX" using call(3) by simp
  have "?j \<in> set (sub_dependencies ?sub)" using i(1) by simp
  note late = late_dependency_counts [OF inv d fin this next_id retries run]
  note done_sub = submission [OF live next_id retries _ run]
  define c3 where "c3 = ?c2\<lparr>cl_todo := ?rest, cl_ex := ex3, cl_ids := cl_ids c1 @ [ex_next_task_id ex2],
    cl_last := get_task (ex_next_task_id ex2) (ex_graph ex3)\<rparr>"
  have "run_call always 0 ?op (?c2\<lparr>cl_todo := ?rest\<rparr>) = Return c3"
    using run done_sub(1) by (simp add: submit_with_dependencies_def keep_id_def c3_def)
  from prog_reach.call [OF reach2 in_blockD(7) [OF blk2] _ _ _ this] todo next_id have reach3: "prog_reach c1 c3" by simp
  have "\<exists>p \<in> ex_ptrs ex3. 0 < slack (ex_heap ex3) p" using late by blast
  then have "stuck c3" using done_sub(2) ahead by (auto simp: stuck_def c3_def)
  with reach3 show ?thesis by blast
qed

lemma stuck_hangs: "stuck c \<Longrightarrow> prog_reach c c' \<Longrightarrow> cl_todo c' \<noteq> [] \<and> \<not> ex_terminated (cl_ex c')"
  using stuck_reach [of c c'] live_okD(6) [of "cl_ex c'"] by (auto simp: stuck_def)

lemma late_call_from_start:
  assumes new: "TaskExecutor n = Inr ex" "n \<noteq> 0" and pre: "blocks 0 0 pre = Some (s, k)"
    and i: "i \<in> set deps" "s \<le> i" "i < k" and len: "length pre < 2 ^ 62" and ahead: "CallStop \<notin> set mid"
  shows "\<exists>c. prog_reach (client_main ex (CallStart # pre @ CallSubmitAfter func deps name # mid @ CallWait # post)) c \<and> stuck c"
proof -
  let ?rest = "CallSubmitAfter func deps name # mid @ CallWait # post"
  from main_starts [OF new] obtain c0 where c0: "prog_reach (client_main ex (CallStart # pre @ ?rest)) c0" "in_block 0 c0"
    "cl_todo c0 = pre @ ?rest" "cl_ids c0 = []" by blast
  from blocks_run [OF _ c0(2,3)] pre c0(4) len obtain c1 where c1: "prog_reach c0 c1" "in_block s c1"
    "cl_todo c1 = ?rest" "length (cl_ids c1) = k" by fastforce
  have "length (cl_ids c1) < 2 ^ 63" using blocks_length [OF pre] len c1(4) by simp
  from late_call [OF c1(2,3) i(1,2) _ this ahead] i(3) c1(4) obtain c where "prog_reach c1 c" "stuck c" by blast
  with prog_reach_trans [OF _ prog_reach_trans [OF c1(1) c0(1)]] show ?thesis by blast
qed


subsection \<open>The demo and the tests\<close>

definition returns_int :: "int \<Rightarrow> nat \<Rightarrow> exn + any" where
  "returns_int i attempt = Inr (AnyInt i)"

text \<open>The ten tasks of part 1 have the positions 0 to 9, \<open>task1\<close> to \<open>task3\<close> 10 to 12, and \<open>A\<close> to \<open>E\<close>
  13 to 17.\<close>

definition demo_simple :: "client_call list" where
  "demo_simple = map (\<lambda>i. CallSubmit (returns_int (int (i * i))) (''SquareTask_'' @ dec_string i) default_options) [0..<10]"

definition demo_dependencies :: "client_call list" where
  "demo_dependencies =
     [CallSubmit (returns_int 42) ''Task1'' default_options,
      CallSubmit (returns_int 10) ''Task2'' default_options,
      CallSubmitAfter (returns_int 52) [10, 11] ''Task3_Dependent'']"

definition demo_workflow :: "client_call list" where
  "demo_workflow =
     [CallSubmit (returns_int 100) ''StageA'' default_options,
      CallSubmitAfter (returns_int 200) [13] ''StageB'',
      CallSubmitAfter (returns_int 300) [14] ''StageC'',
      CallSubmitAfter (returns_int 400) [13] ''StageD'',
      CallSubmitAfter (returns_int 500) [16] ''StageE'']"

definition demo_main :: "client_call list" where
  "demo_main = CallStart # demo_simple @ [CallWait] @ demo_dependencies @ [CallWait] @ demo_workflow @ [CallWait, CallStop]"

text \<open>The calls that the tests \<open>BasicTaskExecution\<close> and \<open>TaskDependencies\<close> make on the executor.\<close>

definition basic_test :: "client_call list" where
  "basic_test = [CallStart, CallSubmit (returns_int 42) ''TestTask'' default_options, CallWait, CallStop]"

definition dependencies_test :: "client_call list" where
  "dependencies_test =
     [CallStart, CallSubmit (returns_int 10) ''Step1'' default_options, CallSubmitAfter (returns_int 20) [0] ''Step2'',
      CallWait, CallStop]"

lemma demo_blocks:
  "blocks 0 0 (demo_simple @ [CallWait] @ demo_dependencies @ [CallWait] @ demo_workflow) = Some (13, 18)"
  "blocks 0 0 ((demo_simple @ [CallWait] @ demo_dependencies @ [CallWait, CallSubmit (returns_int 100) ''StageA'' default_options]) @
     [CallSubmitAfter (returns_int 200) [13] ''StageB'']) = Some (13, 15)"
  by code_simp+

lemma TaskExecutor_returns: "\<exists>ex. TaskExecutor n = Inr ex"
  by (simp add: TaskExecutor_def ThreadPool_def PriorityQueueSet_def LockFreeTaskQueue_def Let_def split: sum.splits)



text \<open>The same for the tests: the first can return, and the second too, but it may hang in its wait.\<close>

lemma tests_can_return:
  "\<exists>ex c. TaskExecutor 2 = Inr ex \<and> prog_reach (client_main ex basic_test) c \<and> cl_todo c = []"
  "\<exists>ex c. TaskExecutor 2 = Inr ex \<and> prog_reach (client_main ex dependencies_test) c \<and> cl_todo c = []"
proof -
  obtain ex where ex: "TaskExecutor 2 = Inr ex" using TaskExecutor_returns by blast
  have ret: "\<exists>c. prog_reach (client_main ex (CallStart # ops @ [CallWait, CallStop])) c \<and> cl_todo c = []"
    if "blocks 0 0 ops = Some sk" "length ops < 2 ^ 62" for ops sk
    using main_starts [OF ex, of "ops @ [CallWait, CallStop]"] block_returns that prog_reach_trans by fastforce
  have "blocks 0 0 [CallSubmit (returns_int 42) ''TestTask'' default_options] = Some (0, 1)"
    "blocks 0 0 [CallSubmit (returns_int 10) ''Step1'' default_options, CallSubmitAfter (returns_int 20) [0] ''Step2''] = Some (0, 2)"
    by code_simp+
  from this [THEN ret] ex
  show "\<exists>ex c. TaskExecutor 2 = Inr ex \<and> prog_reach (client_main ex basic_test) c \<and> cl_todo c = []"
    "\<exists>ex c. TaskExecutor 2 = Inr ex \<and> prog_reach (client_main ex dependencies_test) c \<and> cl_todo c = []"
    by (simp_all add: basic_test_def dependencies_test_def)
qed

lemma dependencies_test_may_hang:
  "\<exists>ex c. TaskExecutor 2 = Inr ex \<and> prog_reach (client_main ex dependencies_test) c \<and>
    (\<forall>c'. prog_reach c c' \<longrightarrow> cl_todo c' \<noteq> [] \<and> \<not> ex_terminated (cl_ex c'))"
proof -
  obtain ex where ex: "TaskExecutor 2 = Inr ex" using TaskExecutor_returns by blast
  have "blocks 0 0 [CallSubmit (returns_int 10) ''Step1'' default_options] = Some (0, 1)" by code_simp
  from late_call_from_start [OF ex _ this, of 0 "[0]" "[]" "returns_int 20" "''Step2''" "[CallStop]"] stuck_hangs ex
  show ?thesis by (simp add: dependencies_test_def) blast
qed

subsection \<open>The test of retries\<close>

text \<open>\<open>TaskRetry\<close>: the function throws in its first two attempts. The assertion after the wait asks for
  three attempts, but the wait can pass between a failed attempt and its retry.\<close>

definition fails_twice :: "nat \<Rightarrow> exn + any" where
  "fails_twice attempt = (if attempt < 3 then Inl (RuntimeError ''Fail'') else Inr (AnyInt (int attempt)))"

definition retry_test :: "client_call list" where
  "retry_test = [CallStart, CallSubmit fails_twice ''RetryTask'' (default_options\<lparr>opt_max_retries := 2\<rparr>), CallWait, CallStop]"

text \<open>One schedule: the next call of the client, or an event of the executor.\<close>

fun follow :: "ex_event option list \<Rightarrow> client \<Rightarrow> client option" where
  "follow [] c = Some c"
| "follow (Some e # es) c =
     (if own_event e \<and> event_ok (cl_ex c) e then follow es (c\<lparr>cl_ex := ex_apply e (cl_ex c)\<rparr>) else None)"
| "follow (None # es) c =
     (case cl_todo c of
        [] \<Rightarrow> None
      | op # ops \<Rightarrow>
          if client_free c \<and> retries_ok op \<and> ex_next_task_id (cl_ex c) \<noteq> UINT64_MAX
          then (case run_call always 0 op (c\<lparr>cl_todo := ops\<rparr>) of Return c' \<Rightarrow> follow es c' | _ \<Rightarrow> None)
          else None)"

lemma follow_reach: "follow es c = Some c' \<Longrightarrow> prog_reach c0 c \<Longrightarrow> prog_reach c0 c'"
proof (induction es c rule: follow.induct)
  case (2 e es c)
  then show ?case by (auto split: if_splits intro: prog_reach.own)
next
  case (3 es c)
  then show ?case by (auto split: list.splits if_splits outcome.splits intro: prog_reach.call)
qed simp

lemma retry_test_may_fail:
  "\<exists>ex c. TaskExecutor 2 = Inr ex \<and> prog_reach (client_main ex retry_test) c \<and> cl_todo c = [CallStop] \<and>
    t_attempts (ex_heap (cl_ex c) 0) = 1"
proof -
  obtain ex where ex: "TaskExecutor 2 = Inr ex" using TaskExecutor_returns by blast
  let ?es = "[None, None, Some (ELoopHead 0), Some (EPauseCheck 0), Some (ETake (\<lambda>_ _. True) 1 0),
    Some (EExecute demo_clock 0), None]"
  have "case TaskExecutor 2 of Inl e \<Rightarrow> False
      | Inr ex \<Rightarrow> (case follow ?es (client_main ex retry_test) of None \<Rightarrow> False
          | Some c \<Rightarrow> (case cl_todo c of [CallStop] \<Rightarrow> t_attempts (ex_heap (cl_ex c) 0) = 1 | _ \<Rightarrow> False))"
    by code_simp
  then obtain c where "follow ?es (client_main ex retry_test) = Some c" "cl_todo c = [CallStop]"
    "t_attempts (ex_heap (cl_ex c) 0) = 1"
    by (auto simp: ex split: option.splits list.splits client_call.splits)
  with follow_reach [OF _ prog_reach.refl] ex show ?thesis by blast
qed

end
