(* ===== verification/Task_Scheduler.thy ===== *)
theory Task_Scheduler
  imports Executor_Runs
begin

section \<open>The task scheduler\<close>

text \<open>
  \<open>TaskScheduler\<close> of \<open>include/task_engine/task_scheduler.hpp\<close>, which submits entries to a task
  executor at their times. The state holds the executor, the entries of the priority queue, the id
  counter, the flag \<open>running_\<close> and where the thread stands in \<open>scheduler_loop\<close>. Which of the entries
  with the least time is on top is not specified for a \<open>std::priority_queue\<close>: the choice is an
  argument, as are the readings of the clock and whether a push makes the underlying vector
  reallocate.

  The points of the thread: \<open>AtLoop\<close> before the loop condition; \<open>AtLock\<close> before the lock;
  \<open>GoingToBlock\<close> with the mutex held, after the predicate of \<open>cv_.wait\<close> was false and before the
  thread is blocked; \<open>Blocked\<close> and \<open>Woken\<close>; \<open>Waiting\<close> in \<open>cv_.wait_until\<close> until a time,
  \<open>WaitWoken\<close> when it was woken before; \<open>Submitting\<close> with a popped entry, \<open>InSubmit\<close> inside
  \<open>executor_.submit\<close> (where it may spin on a full pool), \<open>Rescheduling\<close> before the second lock. The
  time passed to \<open>wait_until\<close> is a reference into the queue, and \<open>wait_until\<close> with a predicate reads it
  again after every wake-up; the flag of \<open>Waiting\<close> says whether the reference is still valid.
\<close>

record scheduled_task =
  st_func :: "nat \<Rightarrow> exn + any"
  st_name :: string
  st_options :: task_options
  st_scheduled_time :: time
  st_interval :: int
  st_id :: task_id

datatype sched_thread =
    Unstarted
  | AtLoop
  | AtLock
  | GoingToBlock
  | Blocked
  | Woken
  | Waiting time bool
  | WaitWoken bool
  | Submitting scheduled_task time
  | InSubmit scheduled_task time task_ptr
  | Rescheduling scheduled_task time
  | Finished

record scheduler =
  sc_executor :: executor
  sc_running :: bool
  sc_thread :: sched_thread
  sc_tasks :: "scheduled_task list"
  sc_next_id :: task_id
  sc_undefined :: bool

definition TaskScheduler :: "executor \<Rightarrow> scheduler" where
  "TaskScheduler ex =
     \<lparr>sc_executor = ex, sc_running = False, sc_thread = Unstarted, sc_tasks = [], sc_next_id = 1,
      sc_undefined = False\<rparr>"

subsection \<open>Notification and the queue\<close>

fun notify_thread :: "sched_thread \<Rightarrow> sched_thread" where
  "notify_thread Blocked = Woken"
| "notify_thread (Waiting t valid) = WaitWoken valid"
| "notify_thread th = th"

text \<open>The storage of the queue moved: a reference into it is no longer valid.\<close>

fun dangle :: "sched_thread \<Rightarrow> sched_thread" where
  "dangle (Waiting t valid) = Waiting t False"
| "dangle (WaitWoken valid) = WaitWoken False"
| "dangle th = th"

text \<open>\<open>push\<close> and \<open>notify_one\<close>.\<close>

definition push_and_notify :: "bool \<Rightarrow> scheduled_task \<Rightarrow> scheduler \<Rightarrow> scheduler" where
  "push_and_notify realloc t s =
     s\<lparr>sc_tasks := sc_tasks s @ [t],
       sc_thread := notify_thread (if realloc then dangle (sc_thread s) else sc_thread s)\<rparr>"

text \<open>The position of \<open>top\<close>: one of the entries that \<open>ScheduledTaskComparator\<close> puts first.\<close>

definition least_time :: "scheduled_task list \<Rightarrow> time" where
  "least_time ts = Min (set (map st_scheduled_time ts))"

definition top_index :: "nat \<Rightarrow> scheduled_task list \<Rightarrow> nat" where
  "top_index tie ts =
     (let firsts = filter (\<lambda>i. st_scheduled_time (ts ! i) = least_time ts) [0..<length ts]
      in firsts ! (tie mod length firsts))"

definition remove_at :: "nat \<Rightarrow> 'a list \<Rightarrow> 'a list" where
  "remove_at i xs = take i xs @ drop (Suc i) xs"

subsection \<open>Scheduling and cancelling\<close>

text \<open>The name an entry gets, and the counter after it: an empty name takes an id of its own.\<close>

definition entry_name :: "string \<Rightarrow> string \<Rightarrow> task_id \<Rightarrow> string \<times> task_id" where
  "entry_name label name next_id =
     (if name = [] then (label @ to_string next_id, next_id + 1) else (name, next_id))"

definition mutex_free :: "scheduler \<Rightarrow> bool" where
  "mutex_free s \<longleftrightarrow> (case sc_thread s of GoingToBlock \<Rightarrow> False | _ \<Rightarrow> True)"

definition schedule_at ::
  "bool \<Rightarrow> (nat \<Rightarrow> exn + any) \<Rightarrow> time \<Rightarrow> string \<Rightarrow> task_options \<Rightarrow> scheduler \<Rightarrow>
   scheduler \<times> scheduled_task outcome" where
  "schedule_at realloc func due name options s =
     (if \<not> mutex_free s then (s, Block)
      else (case entry_name ''ScheduledTask_'' name (sc_next_id s) of
              (name', tid) \<Rightarrow>
                (let t = \<lparr>st_func = func, st_name = name', st_options = options,
                          st_scheduled_time = due, st_interval = 0, st_id = tid\<rparr>
                 in (push_and_notify realloc t (s\<lparr>sc_next_id := tid + 1\<rparr>), Return t))))"

text \<open>Delays and intervals are in milliseconds.\<close>

definition schedule_after ::
  "bool \<Rightarrow> time \<Rightarrow> (nat \<Rightarrow> exn + any) \<Rightarrow> int \<Rightarrow> string \<Rightarrow> task_options \<Rightarrow> scheduler \<Rightarrow>
   scheduler \<times> scheduled_task outcome" where
  "schedule_after realloc now func delay name options s =
     schedule_at realloc func (now + delay * 1000000) name options s"

definition schedule_periodic ::
  "bool \<Rightarrow> time \<Rightarrow> (nat \<Rightarrow> exn + any) \<Rightarrow> int \<Rightarrow> string \<Rightarrow> task_options \<Rightarrow> scheduler \<Rightarrow>
   scheduler \<times> scheduled_task outcome" where
  "schedule_periodic realloc now func interval name options s =
     (if \<not> mutex_free s then (s, Block)
      else (case entry_name ''PeriodicTask_'' name (sc_next_id s) of
              (name', tid) \<Rightarrow>
                (let t = \<lparr>st_func = func, st_name = name', st_options = options,
                          st_scheduled_time = now + interval * 1000000, st_interval = interval,
                          st_id = tid\<rparr>
                 in (push_and_notify realloc t (s\<lparr>sc_next_id := tid + 1\<rparr>), Return t))))"

text \<open>The queue is rebuilt in new storage.\<close>

definition cancel_scheduled :: "task_id \<Rightarrow> scheduler \<Rightarrow> scheduler \<times> bool outcome" where
  "cancel_scheduled tid s =
     (if \<not> mutex_free s then (s, Block)
      else (s\<lparr>sc_tasks := filter (\<lambda>t. st_id t \<noteq> tid) (sc_tasks s), sc_thread := dangle (sc_thread s)\<rparr>,
            Return (\<exists>t \<in> set (sc_tasks s). st_id t = tid)))"

subsection \<open>Starting and stopping\<close>

text \<open>Assigning to a thread object that still has a thread calls \<open>std::terminate\<close>.\<close>

definition scheduler_start :: "scheduler \<Rightarrow> scheduler" where
  "scheduler_start s =
     (if sc_running s then s
      else (case sc_thread s of
              Unstarted \<Rightarrow> s\<lparr>sc_running := True, sc_thread := AtLoop\<rparr>
            | _ \<Rightarrow> s\<lparr>sc_running := True, sc_executor := (sc_executor s)\<lparr>ex_terminated := True\<rparr>\<rparr>))"

text \<open>\<open>stop\<close> up to the join, and the join.\<close>

definition scheduler_stop :: "scheduler \<Rightarrow> scheduler" where
  "scheduler_stop s =
     (if sc_running s then s\<lparr>sc_running := False, sc_thread := notify_thread (sc_thread s)\<rparr> else s)"

definition scheduler_join :: "scheduler \<Rightarrow> scheduler outcome" where
  "scheduler_join s =
     (case sc_thread s of Finished \<Rightarrow> Return (s\<lparr>sc_thread := Unstarted\<rparr>) | _ \<Rightarrow> Block)"

subsection \<open>The loop\<close>

record sched_input =
  in_now :: time
  in_tie :: nat
  in_cas :: cas3

definition locked_iteration :: "sched_input \<Rightarrow> scheduler \<Rightarrow> scheduler" where
  "locked_iteration i s =
     (if sc_tasks s = []
      then s\<lparr>sc_thread := if \<not> sc_running s then AtLoop else GoingToBlock\<rparr>
      else (let k = top_index (in_tie i) (sc_tasks s); t = sc_tasks s ! k
            in if st_scheduled_time t \<le> in_now i
               then s\<lparr>sc_tasks := remove_at k (sc_tasks s), sc_thread := Submitting t (in_now i)\<rparr>
               else s\<lparr>sc_thread := if \<not> sc_running s then AtLoop
                                   else Waiting (st_scheduled_time t) True\<rparr>))"

definition submit_entry :: "sched_input \<Rightarrow> scheduled_task \<Rightarrow> time \<Rightarrow> scheduler \<Rightarrow> scheduler" where
  "submit_entry i t now s =
     (let p = ex_next_ptr (sc_executor s)
      in case submit (in_cas i) (in_now i) (st_func t) (st_name t) (st_options t) NoCallback
                (sc_executor s) of
           (ex, Return tid) \<Rightarrow> s\<lparr>sc_executor := ex, sc_thread := InSubmit t now p\<rparr>
         | (ex, _) \<Rightarrow> s\<lparr>sc_executor := ex\<lparr>ex_terminated := True\<rparr>, sc_thread := Finished\<rparr>)"

fun loop_step :: "sched_input \<Rightarrow> sched_thread \<Rightarrow> scheduler \<Rightarrow> scheduler" where
  "loop_step i AtLoop s = s\<lparr>sc_thread := if sc_running s then AtLock else Finished\<rparr>"
| "loop_step i AtLock s = locked_iteration i s"
| "loop_step i GoingToBlock s = s\<lparr>sc_thread := Blocked\<rparr>"
| "loop_step i Woken s =
     s\<lparr>sc_thread := if \<not> sc_running s \<or> sc_tasks s \<noteq> [] then AtLoop else GoingToBlock\<rparr>"
| "loop_step i (Waiting t valid) s = (if t \<le> in_now i then s\<lparr>sc_thread := AtLoop\<rparr> else s)"
| "loop_step i (WaitWoken valid) s =
     (if \<not> sc_running s then s\<lparr>sc_thread := AtLoop\<rparr>
      else if \<not> valid then s\<lparr>sc_undefined := True\<rparr>
      else s\<lparr>sc_thread := Waiting (least_time (sc_tasks s)) True\<rparr>)"
| "loop_step i (Submitting t now) s = submit_entry i t now s"
| "loop_step i (InSubmit t now p) s =
     (if p \<in> fst ` set (pl_waiting (ex_pool (sc_executor s))) then s
      else s\<lparr>sc_thread := if 0 < st_interval t then Rescheduling t now else AtLoop\<rparr>)"
| "loop_step i (Rescheduling t now) s =
     s\<lparr>sc_tasks := sc_tasks s @ [t\<lparr>st_scheduled_time := now + st_interval t * 1000000\<rparr>],
       sc_thread := AtLoop\<rparr>"
| "loop_step i th s = s"

subsection \<open>Runs\<close>

text \<open>
  The log of a run: the entries that were scheduled, the entries the thread took with the clock
  reading and what stayed in the queue, and the entries that a cancellation removed.
\<close>

datatype sched_log =
    LScheduled scheduled_task
  | LFired scheduled_task time "scheduled_task list"
  | LRemoved scheduled_task

datatype sched_event =
    VAt bool "nat \<Rightarrow> exn + any" time string task_options
  | VPeriodic bool time "nat \<Rightarrow> exn + any" int string task_options
  | VCancel task_id
  | VStart | VStop | VJoin
  | VSpurious
  | VThread sched_input
  | VExecutor ex_event

fun scheduled_log :: "scheduler \<times> scheduled_task outcome \<Rightarrow> scheduler \<times> sched_log list" where
  "scheduled_log (s, Return t) = (s, [LScheduled t])"
| "scheduled_log (s, _) = (s, [])"

fun sched_apply :: "sched_event \<Rightarrow> scheduler \<Rightarrow> scheduler \<times> sched_log list" where
  "sched_apply (VAt re func due name options) s = scheduled_log (schedule_at re func due name options s)"
| "sched_apply (VPeriodic re now func interval name options) s =
     scheduled_log (schedule_periodic re now func interval name options s)"
| "sched_apply (VCancel tid) s =
     (fst (cancel_scheduled tid s),
      if mutex_free s then map LRemoved (filter (\<lambda>t. st_id t = tid) (sc_tasks s)) else [])"
| "sched_apply VStart s = (scheduler_start s, [])"
| "sched_apply VStop s = (scheduler_stop s, [])"
| "sched_apply VJoin s = (case scheduler_join s of Return s' \<Rightarrow> (s', []) | _ \<Rightarrow> (s, []))"
| "sched_apply VSpurious s =
     (s\<lparr>sc_thread := notify_thread (sc_thread s)\<rparr>, [])"
| "sched_apply (VThread i) s =
     (let s' = loop_step i (sc_thread s) s
      in (s', case (sc_thread s, sc_thread s') of
                (AtLock, Submitting t now) \<Rightarrow> [LFired t now (sc_tasks s')]
              | _ \<Rightarrow> []))"
| "sched_apply (VExecutor e) s = (s\<lparr>sc_executor := ex_apply e (sc_executor s)\<rparr>, [])"

fun sched_run :: "sched_event list \<Rightarrow> scheduler \<Rightarrow> scheduler \<times> sched_log list" where
  "sched_run [] s = (s, [])"
| "sched_run (e # es) s =
     (case sched_apply e s of (s', l) \<Rightarrow> (case sched_run es s' of (s'', l') \<Rightarrow> (s'', l @ l')))"

text \<open>The entry the thread holds outside the queue, and whether it is still to be submitted.\<close>

fun in_hand :: "sched_thread \<Rightarrow> scheduled_task list" where
  "in_hand (Submitting t now) = [t]"
| "in_hand (InSubmit t now p) = [t]"
| "in_hand (Rescheduling t now) = [t]"
| "in_hand th = []"

abbreviation one_time :: "scheduled_task \<Rightarrow> bool" where
  "one_time t \<equiv> st_interval t \<le> 0"

fun scheduled_in :: "sched_log list \<Rightarrow> scheduled_task list" where
  "scheduled_in [] = []"
| "scheduled_in (LScheduled t # l) = t # scheduled_in l"
| "scheduled_in (_ # l) = scheduled_in l"

fun fired_in :: "sched_log list \<Rightarrow> (scheduled_task \<times> time) list" where
  "fired_in [] = []"
| "fired_in (LFired t now rest # l) = (t, now) # fired_in l"
| "fired_in (_ # l) = fired_in l"

fun removed_in :: "sched_log list \<Rightarrow> scheduled_task list" where
  "removed_in [] = []"
| "removed_in (LRemoved t # l) = t # removed_in l"
| "removed_in (_ # l) = removed_in l"

lemma log_append [simp]:
  "scheduled_in (l @ l') = scheduled_in l @ scheduled_in l'"
  "fired_in (l @ l') = fired_in l @ fired_in l'"
  "removed_in (l @ l') = removed_in l @ removed_in l'"
  by (induction l rule: scheduled_in.induct; simp)+

lemma log_removed [simp]:
  "scheduled_in (map LRemoved ts) = []" "fired_in (map LRemoved ts) = []"
  "removed_in (map LRemoved ts) = ts"
  by (induction ts) simp_all

subsection \<open>The invariant of a run\<close>

fun held_since :: "sched_thread \<Rightarrow> (scheduled_task \<times> time) option" where
  "held_since (Submitting t now) = Some (t, now)"
| "held_since (InSubmit t now p) = Some (t, now)"
| "held_since (Rescheduling t now) = Some (t, now)"
| "held_since th = None"

text \<open>Two firings of one entry are its interval apart.\<close>

definition apart :: "scheduled_task \<times> time \<Rightarrow> scheduled_task \<times> time \<Rightarrow> bool" where
  "apart f g \<longleftrightarrow> st_id (fst f) = st_id (fst g) \<longrightarrow>
     snd f + st_interval (fst g) * 1000000 \<le> snd g"

text \<open>An entry is taken when it is due, and none of the queue is due earlier.\<close>

fun fair_fire :: "sched_log \<Rightarrow> bool" where
  "fair_fire (LFired t now rest) \<longleftrightarrow>
     st_scheduled_time t \<le> now \<and> (\<forall>u \<in> set rest. st_scheduled_time t \<le> st_scheduled_time u)"
| "fair_fire _ \<longleftrightarrow> True"

text \<open>The ids that are in use are distinct and below the counter.\<close>

definition ids_ok :: "sched_log list \<Rightarrow> scheduler \<Rightarrow> bool" where
  "ids_ok l s \<longleftrightarrow>
     distinct (map st_id (sc_tasks s @ in_hand (sc_thread s))) \<and>
     distinct (map st_id (scheduled_in l)) \<and>
     (\<forall>t \<in> set (sc_tasks s) \<union> set (in_hand (sc_thread s)) \<union> fst ` set (fired_in l) \<union>
        set (scheduled_in l). st_id t < sc_next_id s)"

definition spacing_ok :: "sched_log list \<Rightarrow> scheduler \<Rightarrow> bool" where
  "spacing_ok l s \<longleftrightarrow>
     sorted_wrt apart (fired_in l) \<and>
     (\<forall>e \<in> set (sc_tasks s). \<forall>f \<in> set (fired_in l). apart f (e, st_scheduled_time e)) \<and>
     (\<forall>t now. held_since (sc_thread s) = Some (t, now) \<longrightarrow> 0 < st_interval t \<longrightarrow>
        (\<forall>f \<in> set (fired_in l). st_id (fst f) = st_id t \<longrightarrow> snd f \<le> now))"

definition accounts_ok :: "sched_log list \<Rightarrow> scheduler \<Rightarrow> bool" where
  "accounts_ok l s \<longleftrightarrow>
     mset (filter one_time (scheduled_in l)) =
       mset (filter one_time (sc_tasks s)) + mset (filter one_time (map fst (fired_in l))) +
       mset (filter one_time (removed_in l)) \<and>
     (\<forall>t now. sc_thread s = Rescheduling t now \<longrightarrow> 0 < st_interval t) \<and>
     (\<forall>e \<in> set l. fair_fire e)"

lemma in_hand_held: "in_hand th = (case held_since th of Some (t, now) \<Rightarrow> [t] | None \<Rightarrow> [])"
  by (cases th) simp_all

lemma notify_held [simp]:
  "held_since (notify_thread th) = held_since th" "in_hand (notify_thread th) = in_hand th"
  "notify_thread th = Rescheduling t now \<longleftrightarrow> th = Rescheduling t now"
  by (cases th; simp)+

lemma dangle_held [simp]:
  "held_since (dangle th) = held_since th" "in_hand (dangle th) = in_hand th"
  "dangle th = Rescheduling t now \<longleftrightarrow> th = Rescheduling t now"
  by (cases th; simp)+

text \<open>The top of a queue that is not empty is an entry with the least time.\<close>

lemma top_index_least:
  assumes "ts \<noteq> []"
  shows "top_index k ts < length ts \<and>
    (\<forall>u \<in> set ts. st_scheduled_time (ts ! top_index k ts) \<le> st_scheduled_time u)"
proof -
  define firsts where "firsts = filter (\<lambda>i. st_scheduled_time (ts ! i) = least_time ts) [0..<length ts]"
  have "least_time ts \<in> set (map st_scheduled_time ts)"
    using assms unfolding least_time_def by (intro Min_in) simp_all
  then obtain i where "i < length ts" "st_scheduled_time (ts ! i) = least_time ts"
    by (auto simp: in_set_conv_nth)
  then have "firsts \<noteq> []" by (auto simp: firsts_def filter_empty_conv)
  then have "top_index k ts \<in> set firsts"
    by (simp add: top_index_def firsts_def [symmetric] Let_def)
  then have "top_index k ts < length ts" "st_scheduled_time (ts ! top_index k ts) = least_time ts"
    by (simp_all add: firsts_def)
  then show ?thesis by (simp add: least_time_def)
qed

lemma remove_at_mset:
  "i < length xs \<Longrightarrow> add_mset (xs ! i) (mset (remove_at i xs)) = mset xs"
proof -
  assume i: "i < length xs"
  then have "xs = take i xs @ xs ! i # drop (Suc i) xs" by (rule id_take_nth_drop)
  then have "mset xs = mset (take i xs @ xs ! i # drop (Suc i) xs)" by simp
  then show ?thesis by (simp add: remove_at_def)
qed

lemma remove_at_facts:
  assumes "i < length xs"
  shows "set xs = insert (xs ! i) (set (remove_at i xs))"
    "distinct (map f xs) \<longleftrightarrow> distinct (f (xs ! i) # map f (remove_at i xs))"
    "add_mset (xs ! i) (mset (remove_at i xs)) = mset xs"
proof -
  show m: "add_mset (xs ! i) (mset (remove_at i xs)) = mset xs" by (rule remove_at_mset [OF assms])
  from arg_cong [OF m, of set_mset] show "set xs = insert (xs ! i) (set (remove_at i xs))" by simp
  from arg_cong [OF m, of "image_mset f"]
  have "mset (map f xs) = mset (f (xs ! i) # map f (remove_at i xs))" by simp
  then show "distinct (map f xs) \<longleftrightarrow> distinct (f (xs ! i) # map f (remove_at i xs))"
    by (rule mset_eq_imp_distinct_iff)
qed

text \<open>The ids handed out are new while the counter does not wrap around.\<close>

definition ids_left :: "nat \<Rightarrow> scheduler \<Rightarrow> bool" where
  "ids_left n s \<longleftrightarrow> unat (sc_next_id s) + 2 * n < 2 ^ 64"

lemma unat_next: "unat k + 1 < 2 ^ 64 \<Longrightarrow> unat (k + 1) = unat k + 1" for k :: "64 word"
  by (simp add: unat_word_ariths)

lemma entry_name_bound:
  assumes "entry_name label name k = (name', tid)" and "unat k + 2 < 2 ^ 64"
  shows "k \<le> tid \<and> tid < tid + 1 \<and> unat (tid + 1) \<le> unat k + 2"
proof -
  have "unat (k + 1) = unat k + 1" using assms(2) by (intro unat_next) simp
  moreover from this have "unat (k + 1 + 1) = unat k + 2"
    using unat_next [of "k + 1"] assms(2) by simp
  moreover have "tid = k \<or> tid = k + 1"
    using assms(1) by (auto simp: entry_name_def split: if_splits)
  ultimately show ?thesis by (auto simp: word_le_nat_alt word_less_nat_alt)
qed

lemma push_inv:
  assumes inv: "ids_ok l s" "spacing_ok l s" "accounts_ok l s"
    and new: "sc_next_id s \<le> st_id t" "st_id t < st_id t + 1"
    and s': "s' = push_and_notify re t (s\<lparr>sc_next_id := st_id t + 1\<rparr>)"
  shows "ids_ok (l @ [LScheduled t]) s' \<and> spacing_ok (l @ [LScheduled t]) s' \<and>
    accounts_ok (l @ [LScheduled t]) s'"
proof -
  have fresh: "st_id u \<noteq> st_id t" "st_id u < st_id t + 1"
    if "u \<in> set (sc_tasks s) \<union> set (in_hand (sc_thread s)) \<union> fst ` set (fired_in l) \<union>
      set (scheduled_in l)" for u
  proof -
    have "st_id u < sc_next_id s" using that inv(1) unfolding ids_ok_def by blast
    then have "st_id u < st_id t" using new(1) by (rule less_le_trans)
    then show "st_id u \<noteq> st_id t" "st_id u < st_id t + 1" using new(2) by auto
  qed
  have notin: "st_id t \<notin> st_id ` (set (sc_tasks s) \<union> set (in_hand (sc_thread s)) \<union>
      fst ` set (fired_in l) \<union> set (scheduled_in l))"
    using fresh(1) by (metis imageE)
  have d: "distinct (map st_id (sc_tasks s @ in_hand (sc_thread s)))"
    "distinct (map st_id (scheduled_in l))"
    using inv(1) by (simp_all add: ids_ok_def)
  have "distinct (map st_id (sc_tasks s @ t # in_hand (sc_thread s)))"
    using d(1) notin by (simp add: image_Un)
  moreover have "distinct (map st_id (scheduled_in l @ [t]))"
    using d(2) notin by (simp add: image_Un)
  moreover have "\<forall>u \<in> insert t (set (sc_tasks s) \<union> set (in_hand (sc_thread s)) \<union>
      fst ` set (fired_in l) \<union> set (scheduled_in l)). st_id u < st_id t + 1"
    using fresh(2) new(2) by blast
  ultimately have "ids_ok (l @ [LScheduled t]) s'"
    unfolding ids_ok_def s' push_and_notify_def by (simp add: Ball_def del: in_hand.simps)
  moreover have "spacing_ok (l @ [LScheduled t]) s'"
    using inv(2) fresh(1) unfolding spacing_ok_def s' push_and_notify_def
    by (auto simp: apart_def)
  moreover have "accounts_ok (l @ [LScheduled t]) s'"
    using inv(3) unfolding accounts_ok_def s' push_and_notify_def by simp
  ultimately show ?thesis by simp
qed

text \<open>A step that takes nothing and adds nothing.\<close>

lemma quiet_inv:
  assumes inv: "ids_ok l s" "spacing_ok l s" "accounts_ok l s"
    and "sc_tasks s' = sc_tasks s" "sc_next_id s' = sc_next_id s"
    and held: "held_since (sc_thread s') \<in> {None, held_since (sc_thread s)}"
    and "\<And>t now. sc_thread s' = Rescheduling t now \<Longrightarrow> 0 < st_interval t"
  shows "ids_ok l s' \<and> spacing_ok l s' \<and> accounts_ok l s'"
proof -
  have "in_hand (sc_thread s') \<in> {[], in_hand (sc_thread s)}"
    using held by (auto simp: in_hand_held)
  then have "ids_ok l s'" using inv(1) assms(4,5) by (auto simp: ids_ok_def)
  moreover have "held_since (sc_thread s') = Some x \<Longrightarrow> held_since (sc_thread s) = Some x" for x
    using held by auto
  then have "spacing_ok l s'" using inv(2) assms(4) unfolding spacing_ok_def by metis
  moreover have "accounts_ok l s'" using inv(3) assms(4,7) by (simp add: accounts_ok_def)
  ultimately show ?thesis by simp
qed

lemma cancel_inv:
  assumes inv: "ids_ok l s" "spacing_ok l s" "accounts_ok l s"
    and s': "s' = s\<lparr>sc_tasks := filter (\<lambda>t. st_id t \<noteq> tid) (sc_tasks s), sc_thread := dangle (sc_thread s)\<rparr>"
    and l': "l' = l @ map LRemoved (filter (\<lambda>t. st_id t = tid) (sc_tasks s))"
  shows "ids_ok l' s' \<and> spacing_ok l' s' \<and> accounts_ok l' s'"
proof -
  have "distinct (map st_id (sc_tasks s @ in_hand (sc_thread s)))"
    using inv(1) by (simp add: ids_ok_def)
  then have "distinct (map st_id (filter (\<lambda>t. st_id t \<noteq> tid) (sc_tasks s) @ in_hand (sc_thread s)))"
    by (auto simp: distinct_map_filter)
  then have "ids_ok l' s'" using inv(1) by (auto simp: ids_ok_def s' l')
  moreover have "spacing_ok l' s'" using inv(2) by (auto simp: spacing_ok_def s' l')
  moreover have "mset (filter one_time (sc_tasks s)) =
      mset (filter one_time (filter (\<lambda>t. st_id t \<noteq> tid) (sc_tasks s))) +
      mset (filter one_time (filter (\<lambda>t. st_id t = tid) (sc_tasks s)))"
    by (induction "sc_tasks s" rule: rev_induct) (simp_all add: multiset_eq_iff)
  then have "accounts_ok l' s'" using inv(3) by (auto simp: accounts_ok_def s' l' ac_simps)
  ultimately show ?thesis by simp
qed

lemma fire_inv:
  assumes inv: "ids_ok l s" "spacing_ok l s" "accounts_ok l s"
    and idle: "sc_thread s = AtLock"
    and k: "k < length (sc_tasks s)" and t: "t = sc_tasks s ! k" and due: "st_scheduled_time t \<le> now"
    and least: "\<forall>u \<in> set (sc_tasks s). st_scheduled_time t \<le> st_scheduled_time u"
    and s': "s' = s\<lparr>sc_tasks := remove_at k (sc_tasks s), sc_thread := Submitting t now\<rparr>"
    and l': "l' = l @ [LFired t now (sc_tasks s')]"
  shows "ids_ok l' s' \<and> spacing_ok l' s' \<and> accounts_ok l' s'"
proof -
  let ?rest = "remove_at k (sc_tasks s)"
  note split = remove_at_facts [OF k, folded t]
  have dist: "distinct (st_id t # map st_id ?rest)"
    using inv(1) idle split(2) [of st_id] by (simp add: ids_ok_def)
  have ids: "ids_ok l' s'" using inv(1) idle dist split(1) by (auto simp: ids_ok_def s' l')
  have before: "apart f (t, st_scheduled_time t)" if "f \<in> set (fired_in l)" for f
    using inv(2) split(1) that by (simp add: spacing_ok_def)
  moreover have "apart f (t, now)" if "f \<in> set (fired_in l)" for f
    using before [OF that] due unfolding apart_def by fastforce
  moreover have "apart f (e, st_scheduled_time e)" if "e \<in> set ?rest" "f \<in> set (fired_in l)" for e f
    using inv(2) split(1) that by (simp add: spacing_ok_def)
  moreover have "apart (t, now) (e, st_scheduled_time e)" if "e \<in> set ?rest" for e
    using dist that by (auto simp: apart_def)
  moreover have "sorted_wrt apart (fired_in l)" using inv(2) by (simp add: spacing_ok_def)
  moreover have "snd f \<le> now" if "f \<in> set (fired_in l)" "st_id (fst f) = st_id t" "0 < st_interval t" for f
    using before [OF that(1)] that(2,3) due by (simp add: apart_def)
  ultimately have "spacing_ok l' s'" by (auto simp: spacing_ok_def s' l' sorted_wrt_append)
  moreover have "filter_mset one_time (add_mset t (mset ?rest)) = filter_mset one_time (mset (sc_tasks s))"
    by (simp only: split(3))
  then have "mset (filter one_time (sc_tasks s)) =
      mset (filter one_time ?rest) + mset (filter one_time [t])"
    by (simp add: mset_filter split: if_splits)
  then have "accounts_ok l' s'"
    using inv(3) idle due least split(1) by (auto simp: accounts_ok_def s' l')
  ultimately show ?thesis using ids by simp
qed

lemma reschedule_inv:
  assumes inv: "ids_ok l s" "spacing_ok l s" "accounts_ok l s"
    and th: "sc_thread s = Rescheduling t now"
    and s': "s' = s\<lparr>sc_tasks := sc_tasks s @ [t\<lparr>st_scheduled_time := now + st_interval t * 1000000\<rparr>],
                    sc_thread := AtLoop\<rparr>"
  shows "ids_ok l s' \<and> spacing_ok l s' \<and> accounts_ok l s'"
proof -
  have pos: "0 < st_interval t" using inv(3) th by (simp add: accounts_ok_def)
  have "ids_ok l s'" using inv(1) th by (auto simp: ids_ok_def s')
  moreover have "spacing_ok l s'" using inv(2) th pos by (auto simp: spacing_ok_def s' apart_def)
  moreover have "accounts_ok l s'" using inv(3) th pos by (simp add: accounts_ok_def s')
  ultimately show ?thesis by simp
qed

lemma loop_step_inv:
  assumes inv: "ids_ok l s" "spacing_ok l s" "accounts_ok l s"
    and run: "sched_apply (VThread i) s = (s', l')"
  shows "ids_ok (l @ l') s' \<and> spacing_ok (l @ l') s' \<and> accounts_ok (l @ l') s' \<and>
    sc_next_id s' = sc_next_id s"
proof -
  have s': "s' = loop_step i (sc_thread s) s" using run by (simp add: Let_def)
  show ?thesis
  proof (cases "sc_thread s")
    case AtLock
    show ?thesis
    proof (cases "\<exists>t now. sc_thread s' = Submitting t now")
      case True
      let ?k = "top_index (in_tie i) (sc_tasks s)"
      have ne: "sc_tasks s \<noteq> []" and due: "st_scheduled_time (sc_tasks s ! ?k) \<le> in_now i"
        and s'': "s' = s\<lparr>sc_tasks := remove_at ?k (sc_tasks s),
                         sc_thread := Submitting (sc_tasks s ! ?k) (in_now i)\<rparr>"
        using True by (auto simp: s' AtLock locked_iteration_def Let_def split: if_splits)
      have "l' = [LFired (sc_tasks s ! ?k) (in_now i) (sc_tasks s')]"
        using run by (auto simp: AtLock s'' s' [symmetric] Let_def)
      with fire_inv [OF inv AtLock _ HOL.refl due _ s''] top_index_least [OF ne, of "in_tie i"]
      show ?thesis by (simp add: s'')
    next
      case False
      then have "l' = []" using run by (auto simp: AtLock s' Let_def split: sched_thread.splits)
      moreover have "sc_tasks s' = sc_tasks s \<and> sc_next_id s' = sc_next_id s \<and>
          sc_thread s' \<in> {AtLoop, GoingToBlock} \<union> range (\<lambda>t. Waiting t True)"
        using False by (auto simp: s' AtLock locked_iteration_def Let_def)
      ultimately show ?thesis using quiet_inv [OF inv, of s'] by auto
    qed
  next
    case (Rescheduling t now)
    have "l' = []" using run by (simp add: Rescheduling Let_def)
    with reschedule_inv [OF inv Rescheduling, of s'] show ?thesis by (simp add: s' Rescheduling)
  next
    case (Submitting t now)
    have "l' = []" using run by (simp add: Submitting Let_def)
    moreover have "sc_tasks s' = sc_tasks s \<and> sc_next_id s' = sc_next_id s \<and>
        (sc_thread s' = Finished \<or> (\<exists>p. sc_thread s' = InSubmit t now p))"
      by (auto simp: s' Submitting submit_entry_def Let_def split: prod.split outcome.split)
    ultimately show ?thesis using quiet_inv [OF inv, of s'] by (auto simp: Submitting)
  next
    case (InSubmit t now p)
    have "l' = []" using run by (simp add: InSubmit Let_def)
    moreover have "sc_tasks s' = sc_tasks s \<and> sc_next_id s' = sc_next_id s \<and>
        sc_thread s' \<in> {AtLoop, InSubmit t now p} \<union> (if 0 < st_interval t then {Rescheduling t now} else {})"
      by (simp add: s' InSubmit)
    ultimately show ?thesis using quiet_inv [OF inv, of s'] by (auto simp: InSubmit split: if_splits)
  qed (use run s' quiet_inv [OF inv, of s'] in \<open>auto simp: Let_def split: if_splits\<close>)+
qed

lemma sched_apply_inv:
  assumes inv: "ids_ok l s" "spacing_ok l s" "accounts_ok l s" and room: "ids_left 1 s"
    and run: "sched_apply e s = (s', l')"
  shows "ids_ok (l @ l') s' \<and> spacing_ok (l @ l') s' \<and> accounts_ok (l @ l') s' \<and>
    unat (sc_next_id s') \<le> unat (sc_next_id s) + 2"
proof -
  have room': "unat (sc_next_id s) + 2 < 2 ^ 64" using room by (simp add: ids_left_def)
  have resch: "0 < st_interval t" if "sc_thread s = Rescheduling t now" for t now
    using inv(3) that by (simp add: accounts_ok_def)
  have push: ?thesis
    if "scheduled_log (s1, out) = (s', l')"
      and "(s1, out) = (if \<not> mutex_free s then (s, Block)
        else (case entry_name label name (sc_next_id s) of
               (name', tid) \<Rightarrow> (let t = mk name' tid
                               in (push_and_notify re t (s\<lparr>sc_next_id := tid + 1\<rparr>), Return t))))"
      and "\<And>n tid. st_id (mk n tid) = tid" for s1 out label name mk re
  proof (cases "mutex_free s")
    case True
    obtain name' tid where en: "entry_name label name (sc_next_id s) = (name', tid)" by fastforce
    then have "s' = push_and_notify re (mk name' tid) (s\<lparr>sc_next_id := tid + 1\<rparr>)"
      "l' = [LScheduled (mk name' tid)]"
      using that True by (auto simp: Let_def)
    with push_inv [OF inv, of "mk name' tid" s' re] entry_name_bound [OF en room'] that(3)
    show ?thesis by (simp add: push_and_notify_def)
  next
    case False
    then show ?thesis using that inv by simp
  qed
  show ?thesis
  proof (cases e)
    case (VAt re func due name options)
    obtain s1 out where r: "schedule_at re func due name options s = (s1, out)" by fastforce
    show ?thesis
      by (rule push [where label = "''ScheduledTask_''" and name = name and re = re and mk = "\<lambda>n tid. \<lparr>st_func = func, st_name = n,
            st_options = options, st_scheduled_time = due, st_interval = 0, st_id = tid\<rparr>"])
        (use run r [symmetric] in \<open>simp_all add: VAt schedule_at_def\<close>)
  next
    case (VPeriodic re now func interval name options)
    obtain s1 out where r: "schedule_periodic re now func interval name options s = (s1, out)"
      by fastforce
    show ?thesis
      by (rule push [where label = "''PeriodicTask_''" and name = name and re = re and mk = "\<lambda>n tid. \<lparr>st_func = func, st_name = n,
            st_options = options, st_scheduled_time = now + interval * 1000000,
            st_interval = interval, st_id = tid\<rparr>"])
        (use run r [symmetric] in \<open>simp_all add: VPeriodic schedule_periodic_def\<close>)
  next
    case (VCancel tid)
    then show ?thesis
      using run inv cancel_inv [OF inv HOL.refl HOL.refl, of tid] by (auto simp: cancel_scheduled_def)
  next
    case (VThread i)
    then show ?thesis using loop_step_inv [OF inv, of i s' l'] run by simp
  next
    case VJoin
    then show ?thesis
      using run inv quiet_inv [OF inv, of s']
      by (auto simp: scheduler_join_def split: sched_thread.splits)
  qed (use run quiet_inv [OF inv, of s'] resch
      in \<open>auto simp: scheduler_start_def scheduler_stop_def split: if_splits sched_thread.splits\<close>)
qed

lemma sched_run_inv:
  assumes "ids_ok l s" "spacing_ok l s" "accounts_ok l s" and "ids_left (length es) s"
    and "sched_run es s = (s', l')"
  shows "ids_ok (l @ l') s' \<and> spacing_ok (l @ l') s' \<and> accounts_ok (l @ l') s'"
  using assms
proof (induction es arbitrary: s l l')
  case Nil
  then show ?case by simp
next
  case (Cons e es)
  obtain s1 l1 where e: "sched_apply e s = (s1, l1)" by fastforce
  obtain l2 where es: "sched_run es s1 = (s', l2)" and l': "l' = l1 @ l2"
    using Cons.prems(5) e by (auto split: prod.splits)
  have "ids_left 1 s" using Cons.prems(4) by (simp add: ids_left_def)
  note step = sched_apply_inv [OF Cons.prems(1-3) this e]
  then have "ids_left (length es) s1" using Cons.prems(4) by (simp add: ids_left_def)
  with Cons.IH [of "l @ l1" s1 l2] step es show ?case by (simp add: l')
qed

lemma new_scheduler_inv:
  "ids_ok [] (TaskScheduler ex)" "spacing_ok [] (TaskScheduler ex)" "accounts_ok [] (TaskScheduler ex)"
  by (simp_all add: ids_ok_def spacing_ok_def accounts_ok_def TaskScheduler_def)

lemma new_scheduler_run:
  assumes "sched_run es (TaskScheduler ex) = (s, l)" and "length es < 2 ^ 62"
  shows "ids_ok l s \<and> spacing_ok l s \<and> accounts_ok l s"
proof -
  have "ids_left (length es) (TaskScheduler ex)"
    using assms(2) by (simp add: ids_left_def TaskScheduler_def)
  from sched_run_inv [OF new_scheduler_inv this assms(1)] show ?thesis by simp
qed

lemma count_distinct_map: "distinct (map f xs) \<Longrightarrow> count (mset xs) x \<le> 1"
  by (metis count_mset distinct_count_atmost_1 distinct_map le_numeral_extra(4) zero_le_one)

subsection \<open>Properties\<close>

text \<open>C32. Every one-time entry is accounted for: in any run of the scheduler with its clients and its
  executor, ids are never given twice, and the one-time entries that were scheduled are exactly those
  still queued, those taken for submission and those removed by a cancellation; none is taken twice.\<close>

theorem one_time_entries_accounted:
  assumes "sched_run es (TaskScheduler ex) = (s, l)" and "length es < 2 ^ 62"
  shows "distinct (map st_id (scheduled_in l)) \<and>
    mset (filter one_time (scheduled_in l)) =
      mset (filter one_time (sc_tasks s)) + mset (filter one_time (map fst (fired_in l))) +
      mset (filter one_time (removed_in l)) \<and>
    (one_time t \<longrightarrow> count (mset (map fst (fired_in l))) t \<le> 1)"
proof -
  note inv = new_scheduler_run [OF assms]
  have ids: "distinct (map st_id (scheduled_in l))" using inv by (simp add: ids_ok_def)
  have eq: "mset (filter one_time (scheduled_in l)) =
      mset (filter one_time (sc_tasks s)) + mset (filter one_time (map fst (fired_in l))) +
      mset (filter one_time (removed_in l))"
    using inv by (simp add: accounts_ok_def)
  have "count (mset (map fst (fired_in l))) t \<le> 1" if "one_time t"
  proof -
    have "count (mset (map fst (fired_in l))) t = count (mset (filter one_time (map fst (fired_in l)))) t"
      using that by (simp add: mset_filter)
    also have "\<dots> \<le> count (mset (filter one_time (scheduled_in l))) t" by (simp only: eq count_union)
    also have "\<dots> \<le> count (mset (scheduled_in l)) t" by (simp add: mset_filter)
    also have "\<dots> \<le> 1" by (rule count_distinct_map [OF ids])
    finally show ?thesis .
  qed
  with ids eq show ?thesis by blast
qed


definition at_time :: "time \<Rightarrow> sched_event" where
  "at_time now = VThread \<lparr>in_now = now, in_tie = 0, in_cas = always\<rparr>"

text \<open>The run of the witnesses: a one-time and a periodic entry that fires twice.\<close>

definition sched_demo :: "sched_event list" where
  "sched_demo =
     [VAt False (\<lambda>_. Inr AnyEmpty) 5 ''once'' default_options,
      VPeriodic False 0 (\<lambda>_. Inr AnyEmpty) 1 ''tick'' default_options, VStart] @
     map at_time [10, 10, 10, 10] @
     map at_time [1000000, 1000000, 1000000, 1000000, 1000000] @
     map at_time [2000000, 2000000, 2000000]"

lemma sched_demo_facts:
  "map (\<lambda>(t, now). (st_name t, now)) (fired_in (snd (sched_run sched_demo (TaskScheduler demo_start)))) =
     [(''once'', 10), (''tick'', 1000000), (''tick'', 2000000)]"
  "length sched_demo < 2 ^ 62"
  by code_simp (simp add: sched_demo_def)

definition sched_end :: scheduler where
  "sched_end = fst (sched_run sched_demo (TaskScheduler demo_start))"

definition sched_demo_log :: "sched_log list" where
  "sched_demo_log = snd (sched_run sched_demo (TaskScheduler demo_start))"

lemma sched_demo_run: "sched_run sched_demo (TaskScheduler demo_start) = (sched_end, sched_demo_log)"
  by (simp add: sched_end_def sched_demo_log_def)

theorem one_time_entries_accounted_witness:
  "count (mset (map fst (fired_in sched_demo_log))) (fst (fired_in sched_demo_log ! 0)) \<le> 1"
proof -
  have "one_time (fst (fired_in sched_demo_log ! 0))" by code_simp
  then show ?thesis
    using one_time_entries_accounted [OF sched_demo_run sched_demo_facts(2)] by blast
qed


text \<open>A periodic entry cannot be cancelled while it is being submitted: \<open>cancel\<close> finds nothing and
  returns false, and when the submission returns the entry is queued again.\<close>

theorem cancel_misses_periodic:
  assumes "sc_thread s = InSubmit t now p" and "0 < st_interval t"
    and "st_id t \<notin> st_id ` set (sc_tasks s)"
    and "p \<notin> fst ` set (pl_waiting (ex_pool (sc_executor s)))"
  shows "snd (cancel_scheduled (st_id t) s) = Return False \<and>
    (let s' = fst (sched_run [VCancel (st_id t), VThread i, VThread j] s)
     in st_id t \<in> st_id ` set (sc_tasks s'))"
  using assms by (auto simp: cancel_scheduled_def mutex_free_def Let_def image_iff)

definition in_submit_demo :: scheduler where
  "in_submit_demo = fst (sched_run (VPeriodic False 0 (\<lambda>_. Inr AnyEmpty) 1 ''tick'' default_options #
     VStart # map at_time [1000000, 1000000, 1000000]) (TaskScheduler demo_start))"

theorem cancel_misses_periodic_witness:
  "snd (cancel_scheduled 1 in_submit_demo) = Return False"
proof -
  have "case sc_thread in_submit_demo of
      InSubmit t now p \<Rightarrow> st_interval t = 1 \<and> st_id t = 1 \<and>
        p \<notin> fst ` set (pl_waiting (ex_pool (sc_executor in_submit_demo))) | _ \<Rightarrow> False"
    "st_id ` set (sc_tasks in_submit_demo) = {}"
    by code_simp+
  then obtain t now p where "sc_thread in_submit_demo = InSubmit t now p" "0 < st_interval t"
    "st_id t = 1" "p \<notin> fst ` set (pl_waiting (ex_pool (sc_executor in_submit_demo)))"
    "st_id t \<notin> st_id ` set (sc_tasks in_submit_demo)"
    by (cases "sc_thread in_submit_demo") simp_all
  with cancel_misses_periodic [of in_submit_demo t now p] show ?thesis by metis
qed

text \<open>Scheduling while the thread waits for a later entry: when the push leaves the storage of the
  queue in place the thread wakes up and waits for the earlier of the two times; when the storage is
  reallocated it reads the time through a dangling reference.\<close>

theorem schedule_while_waiting:
  assumes "sc_thread s = Waiting due True" and "sc_running s" and "sc_tasks s \<noteq> []"
  shows "let s' = fst (sched_run [VAt re func due' name options, VThread i] s)
    in if re then sc_undefined s'
       else sc_thread s' = Waiting (min due' (least_time (sc_tasks s))) True"
  using assms
  by (auto simp: schedule_at_def mutex_free_def push_and_notify_def least_time_def Let_def min.commute
      split: prod.split)

definition waiting_demo :: scheduler where
  "waiting_demo = fst (sched_run (VAt False (\<lambda>_. Inr AnyEmpty) 50 ''once'' default_options # VStart #
     map at_time [10, 10]) (TaskScheduler demo_start))"

theorem schedule_while_waiting_witness:
  "sc_undefined (fst (sched_run [VAt True (\<lambda>_. Inr AnyEmpty) 20 ''soon'' default_options, at_time 10]
     waiting_demo))"
proof -
  have "case sc_thread waiting_demo of Waiting d v \<Rightarrow> d = 50 \<and> v | _ \<Rightarrow> False"
    "sc_running waiting_demo" "length (sc_tasks waiting_demo) = 1"
    by code_simp+
  then have "sc_thread waiting_demo = Waiting 50 True" "sc_running waiting_demo"
    "sc_tasks waiting_demo \<noteq> []"
    by (auto split: sched_thread.splits)
  from schedule_while_waiting [OF this, of True] show ?thesis by (simp add: at_time_def Let_def)
qed

fun wakes_thread :: "sched_event \<Rightarrow> bool" where
  "wakes_thread (VAt _ _ _ _ _) = True"
| "wakes_thread (VPeriodic _ _ _ _ _ _) = True"
| "wakes_thread VSpurious = True"
| "wakes_thread VStart = True"
| "wakes_thread _ = False"

lemma blocked_stays:
  assumes "sc_thread s = Blocked" and "\<not> sc_running s" and "\<forall>e \<in> set es. \<not> wakes_thread e"
  shows "sc_thread (fst (sched_run es s)) = Blocked"
  using assms
proof (induction es arbitrary: s)
  case Nil
  then show ?case by simp
next
  case (Cons e es)
  obtain s1 l1 where step: "sched_apply e s = (s1, l1)" by fastforce
  have "sc_thread s1 = Blocked \<and> \<not> sc_running s1"
    using step Cons.prems
    by (cases e) (auto simp: cancel_scheduled_def mutex_free_def scheduler_stop_def scheduler_join_def Let_def)
  with Cons.IH [of s1] Cons.prems(3) step show ?case by (simp add: split_beta)
qed

text \<open>\<open>stop\<close> may wait for ever: when the thread has found no work and \<open>running_\<close> true, and \<open>stop\<close>
  stores and notifies before the thread is blocked, the notification is lost, and the thread stays
  blocked until someone else wakes it.\<close>

theorem stop_loses_wakeup:
  assumes "sc_thread s = AtLock" and "sc_tasks s = []" and "sc_running s"
    and "\<forall>e \<in> set es. \<not> wakes_thread e"
  shows "sc_thread (fst (sched_run (VThread i # VStop # VThread j # es) s)) = Blocked"
proof -
  have "sc_thread (fst (sched_run es (s\<lparr>sc_running := False, sc_thread := Blocked\<rparr>))) = Blocked"
    using assms(4) by (intro blocked_stays) simp_all
  then show ?thesis
    using assms(1-3) by (simp add: locked_iteration_def scheduler_stop_def split_beta)
qed

theorem stop_loses_wakeup_witness:
  "sc_thread (fst (sched_run ([at_time 1, VStop, at_time 2] @ replicate 9 (at_time 3) @ [VJoin])
     (fst (sched_run [VStart, at_time 0] (TaskScheduler demo_start))))) = Blocked"
  using stop_loses_wakeup
    [of "fst (sched_run [VStart, at_time 0] (TaskScheduler demo_start))" "replicate 9 (at_time 3) @ [VJoin]"]
  by (simp add: at_time_def scheduler_start_def TaskScheduler_def)

end
