(* ===== verification/Distributed_Executor.thy ===== *)
theory Distributed_Executor
  imports Executor_Clients
begin

section \<open>The distributed executor\<close>

text \<open>
  \<open>DistributedExecutor\<close> of \<open>include/task_engine/distributed_executor.hpp\<close>. The executors that nodes
  share are in a store, and a node refers to one by its key. The remote submitter is empty, the one
  that \<open>enable_in_memory_transport\<close> installs, or a function of the client, whose effects outside this
  state are not modelled. Node loads change only when the client reports metrics.
\<close>

datatype policy = LocalFirst | LeastLoaded | RoundRobin | Broadcast

type_synonym executor_key = nat

record node_info =
  nd_address :: string
  nd_port :: "16 word"
  nd_capacity :: size_t
  nd_current_load :: size_t
  nd_reachable :: bool
  nd_last_heartbeat :: time
  nd_metrics :: metrics_snapshot
  nd_remote_executor :: "executor_key option"

type_synonym user_submitter =
  "node_info \<Rightarrow> (nat \<Rightarrow> exn + any) \<Rightarrow> string \<Rightarrow> submission \<Rightarrow> task_id outcome"

datatype submitter = NoSubmitter | InMemory | UserSubmitter user_submitter

record distributed =
  de_local :: executor
  de_executors :: "executor_key \<Rightarrow> executor"
  de_address :: string
  de_port :: "16 word"
  de_running :: bool
  de_policy :: policy
  de_submitter :: submitter
  de_cursor :: size_t
  de_nodes :: "node_info list"

definition DistributedExecutor ::
  "(executor_key \<Rightarrow> executor) \<Rightarrow> string \<Rightarrow> 16 word \<Rightarrow> size_t \<Rightarrow> exn + distributed" where
  "DistributedExecutor store local_address local_port num_local_threads =
     (case TaskExecutor num_local_threads of
        Inl e \<Rightarrow> Inl e
      | Inr ex \<Rightarrow>
          Inr \<lparr>de_local = executor_start ex, de_executors = store, de_address = local_address,
               de_port = local_port, de_running = False, de_policy = LocalFirst,
               de_submitter = NoSubmitter, de_cursor = 0, de_nodes = []\<rparr>)"

subsection \<open>The nodes\<close>

definition default_snapshot :: metrics_snapshot where
  "default_snapshot =
     \<lparr>tasks_submitted = 0, tasks_completed = 0, tasks_failed = 0, tasks_retried = 0,
      tasks_cancelled = 0, total_execution_time_us = 0, max_execution_time_us = 0,
      min_execution_time_us = UINT64_MAX, total_queue_wait_time_us = 0, inflight_tasks = 0,
      peak_inflight = 0\<rparr>"

definition new_node :: "time \<Rightarrow> string \<Rightarrow> 16 word \<Rightarrow> size_t \<Rightarrow> node_info" where
  "new_node now address port capacity =
     \<lparr>nd_address = address, nd_port = port, nd_capacity = capacity, nd_current_load = 0,
      nd_reachable = True, nd_last_heartbeat = now, nd_metrics = default_snapshot,
      nd_remote_executor = None\<rparr>"

definition is_node :: "string \<Rightarrow> 16 word \<Rightarrow> node_info \<Rightarrow> bool" where
  "is_node address port n \<longleftrightarrow> nd_address n = address \<and> nd_port n = port"

definition add_node :: "time \<Rightarrow> string \<Rightarrow> 16 word \<Rightarrow> size_t \<Rightarrow> distributed \<Rightarrow> distributed" where
  "add_node now address port capacity d =
     d\<lparr>de_nodes := de_nodes d @ [new_node now address port capacity]\<rparr>"

definition remove_node :: "string \<Rightarrow> 16 word \<Rightarrow> distributed \<Rightarrow> distributed" where
  "remove_node address port d = d\<lparr>de_nodes := filter (\<lambda>n. \<not> is_node address port n) (de_nodes d)\<rparr>"

text \<open>The loop that changes the first node with an address and stops.\<close>

fun on_first :: "(node_info \<Rightarrow> bool) \<Rightarrow> (node_info \<Rightarrow> node_info) \<Rightarrow> node_info list \<Rightarrow> node_info list" where
  "on_first P f [] = []"
| "on_first P f (n # ns) = (if P n then f n # ns else n # on_first P f ns)"

fun find_node :: "string \<Rightarrow> 16 word \<Rightarrow> node_info list \<Rightarrow> nat option" where
  "find_node address port [] = None"
| "find_node address port (n # ns) =
     (if is_node address port n then Some 0 else map_option Suc (find_node address port ns))"

definition update_node_metrics ::
  "time \<Rightarrow> string \<Rightarrow> 16 word \<Rightarrow> metrics_snapshot \<Rightarrow> distributed \<Rightarrow> distributed" where
  "update_node_metrics now address port m d =
     d\<lparr>de_nodes := on_first (is_node address port)
        (\<lambda>n. n\<lparr>nd_metrics := m, nd_current_load := inflight_tasks m, nd_last_heartbeat := now\<rparr>)
        (de_nodes d)\<rparr>"

definition mark_node_unreachable :: "string \<Rightarrow> 16 word \<Rightarrow> distributed \<Rightarrow> distributed" where
  "mark_node_unreachable address port d =
     d\<lparr>de_nodes := on_first (is_node address port) (\<lambda>n. n\<lparr>nd_reachable := False\<rparr>) (de_nodes d)\<rparr>"

text \<open>The capacity of an attached node is the work its executor has at that moment.\<close>

definition attach_in_memory_executor ::
  "time \<Rightarrow> string \<Rightarrow> 16 word \<Rightarrow> executor_key option \<Rightarrow> distributed \<Rightarrow> distributed outcome" where
  "attach_in_memory_executor now address port key d =
     (case key of
        None \<Rightarrow> Throw (InvalidArgument ''Executor must not be null'')
      | Some r \<Rightarrow>
          (case find_node address port (de_nodes d) of
             Some i \<Rightarrow>
               Return (d\<lparr>de_nodes := (de_nodes d)[i := (de_nodes d ! i)\<lparr>nd_remote_executor := Some r\<rparr>]\<rparr>)
           | None \<Rightarrow>
               (case ex_monitor (de_executors d r) of
                  None \<Rightarrow> Undefined
                | Some m \<Rightarrow>
                    (let capacity = executor_pending_tasks (de_executors d r) + m_inflight m
                     in Return (d\<lparr>de_nodes := de_nodes d @
                          [(new_node now address port (max 1 capacity))\<lparr>nd_remote_executor := Some r\<rparr>]\<rparr>)))))"

definition set_policy :: "policy \<Rightarrow> distributed \<Rightarrow> distributed" where
  "set_policy p d = d\<lparr>de_policy := p\<rparr>"

definition set_remote_submitter :: "submitter \<Rightarrow> distributed \<Rightarrow> distributed" where
  "set_remote_submitter s d = d\<lparr>de_submitter := s\<rparr>"

definition enable_in_memory_transport :: "distributed \<Rightarrow> distributed" where
  "enable_in_memory_transport = set_remote_submitter InMemory"

definition distributed_start :: "distributed \<Rightarrow> distributed" where
  "distributed_start d = d\<lparr>de_running := True\<rparr>"

definition distributed_stop :: "distributed \<Rightarrow> distributed" where
  "distributed_stop d = d\<lparr>de_running := False, de_local := executor_stop (de_local d)\<rparr>"

subsection \<open>Choosing a node\<close>

fun least_loaded :: "node_info list \<Rightarrow> nat \<Rightarrow> size_t \<Rightarrow> nat option \<Rightarrow> nat option" where
  "least_loaded [] i min_load candidate = candidate"
| "least_loaded (n # ns) i min_load candidate =
     (if \<not> nd_reachable n then least_loaded ns (Suc i) min_load candidate
      else (let load = nd_current_load n
            in if load < min_load \<and> load < nd_capacity n
               then least_loaded ns (Suc i) load (Some i)
               else least_loaded ns (Suc i) min_load candidate))"

fun round_robin :: "node_info list \<Rightarrow> size_t \<Rightarrow> nat list \<Rightarrow> nat option" where
  "round_robin nodes cursor [] = None"
| "round_robin nodes cursor (i # is) =
     (let index = unat ((cursor + of_nat i) mod of_nat (length nodes)); n = nodes ! index
      in if nd_reachable n \<and> nd_current_load n < nd_capacity n then Some index
         else round_robin nodes cursor is)"

fun first_reachable :: "node_info list \<Rightarrow> nat option" where
  "first_reachable [] = None"
| "first_reachable (n # ns) = (if nd_reachable n then Some 0 else map_option Suc (first_reachable ns))"

definition select_node :: "distributed \<Rightarrow> distributed \<times> nat option" where
  "select_node d =
     (let nodes = de_nodes d in
      if nodes = [] then (d, None)
      else (case de_policy d of
              LeastLoaded \<Rightarrow> (d, least_loaded nodes 0 (- 1) None)
            | RoundRobin \<Rightarrow>
                (case round_robin nodes (de_cursor d) [0..<length nodes] of
                   Some index \<Rightarrow>
                     (d\<lparr>de_cursor := (of_nat index + 1) mod of_nat (length nodes)\<rparr>, Some index)
                 | None \<Rightarrow> (d, None))
            | LocalFirst \<Rightarrow> (d, first_reachable nodes)
            | Broadcast \<Rightarrow> (d, None)))"

subsection \<open>Submission\<close>

definition local_submit ::
  "cas3 \<Rightarrow> time \<Rightarrow> (nat \<Rightarrow> exn + any) \<Rightarrow> string \<Rightarrow> submission \<Rightarrow> distributed \<Rightarrow>
   distributed \<times> task_id outcome" where
  "local_submit cas now func name sub d =
     (case submit cas now func name (sub_options sub) (sub_callback sub) (de_local d) of
        (ex, r) \<Rightarrow> (d\<lparr>de_local := ex\<rparr>, r))"

text \<open>The call of the submitter; an empty \<open>std::function\<close> is not called.\<close>

definition remote_submit ::
  "cas3 \<Rightarrow> time \<Rightarrow> node_info \<Rightarrow> (nat \<Rightarrow> exn + any) \<Rightarrow> string \<Rightarrow> submission \<Rightarrow> distributed \<Rightarrow>
   distributed \<times> task_id outcome" where
  "remote_submit cas now node func name sub d =
     (case de_submitter d of
        NoSubmitter \<Rightarrow> (d, Undefined)
      | UserSubmitter f \<Rightarrow> (d, f node func name sub)
      | InMemory \<Rightarrow>
          (case nd_remote_executor node of
             None \<Rightarrow> (d, Throw (RuntimeError ''Remote node missing in-memory executor''))
           | Some r \<Rightarrow>
               (case (if sub_dependencies sub = []
                      then submit cas now func name (sub_options sub) (sub_callback sub) (de_executors d r)
                      else submit_with_dependencies cas now func (sub_dependencies sub) name
                             (sub_options sub) (sub_callback sub) (de_executors d r)) of
                  (ex, res) \<Rightarrow> (d\<lparr>de_executors := (de_executors d)(r := ex)\<rparr>, res))))"

definition has_submitter :: "distributed \<Rightarrow> bool" where
  "has_submitter d \<longleftrightarrow> (case de_submitter d of NoSubmitter \<Rightarrow> False | _ \<Rightarrow> True)"

fun broadcast_to ::
  "(nat \<Rightarrow> cas3) \<Rightarrow> time \<Rightarrow> (nat \<Rightarrow> exn + any) \<Rightarrow> string \<Rightarrow> submission \<Rightarrow> node_info list \<Rightarrow>
   task_id list \<Rightarrow> distributed \<Rightarrow> distributed \<times> task_id list outcome" where
  "broadcast_to cas now func name sub [] ids d = (d, Return ids)"
| "broadcast_to cas now func name sub (n # ns) ids d =
     (if \<not> nd_reachable n then broadcast_to cas now func name sub ns ids d
      else (case remote_submit (cas (length ids)) now n func name sub d of
              (d', Return tid) \<Rightarrow> broadcast_to cas now func name sub ns (ids @ [tid]) d'
            | (d', Throw e) \<Rightarrow> (d', Throw e)
            | (d', Block) \<Rightarrow> (d', Block)
            | (d', Undefined) \<Rightarrow> (d', Undefined)))"

definition broadcast ::
  "(nat \<Rightarrow> cas3) \<Rightarrow> time \<Rightarrow> (nat \<Rightarrow> exn + any) \<Rightarrow> string \<Rightarrow> submission \<Rightarrow> distributed \<Rightarrow>
   distributed \<times> task_id list outcome" where
  "broadcast cas now func name sub d =
     (case local_submit (cas 0) now func name sub d of
        (d', Return tid) \<Rightarrow>
          (if has_submitter d' then broadcast_to cas now func name sub (de_nodes d') [tid] d'
           else (d', Return [tid]))
      | (d', Throw e) \<Rightarrow> (d', Throw e)
      | (d', Block) \<Rightarrow> (d', Block)
      | (d', Undefined) \<Rightarrow> (d', Undefined))"

definition distributed_submit ::
  "(nat \<Rightarrow> cas3) \<Rightarrow> time \<Rightarrow> (nat \<Rightarrow> exn + any) \<Rightarrow> string \<Rightarrow> submission \<Rightarrow> distributed \<Rightarrow>
   distributed \<times> task_id outcome" where
  "distributed_submit cas now func name sub d =
     (case de_policy d of
        Broadcast \<Rightarrow>
          (case broadcast cas now func name sub d of
             (d', Return ids) \<Rightarrow> (d', Return (case ids of [] \<Rightarrow> 0 | tid # _ \<Rightarrow> tid))
           | (d', Throw e) \<Rightarrow> (d', Throw e)
           | (d', Block) \<Rightarrow> (d', Block)
           | (d', Undefined) \<Rightarrow> (d', Undefined))
      | _ \<Rightarrow>
          (case select_node d of
             (d', None) \<Rightarrow> local_submit (cas 0) now func name sub d'
           | (d', Some i) \<Rightarrow>
               (if has_submitter d' \<and> nd_reachable (de_nodes d' ! i)
                then remote_submit (cas 0) now (de_nodes d' ! i) func name sub d'
                else local_submit (cas 0) now func name sub d')))"

subsection \<open>Waiting\<close>

text \<open>
  \<open>wait_for_completion\<close> waits for the local executor and then for the executors of the nodes, one
  after the other. Stage 0 is the local one; a stage past the nodes is the return.
\<close>

definition distributed_wait_step :: "nat \<Rightarrow> distributed \<Rightarrow> nat" where
  "distributed_wait_step stage d =
     (if stage = 0
      then (case wait_for_completion (de_local d) of Return _ \<Rightarrow> 1 | _ \<Rightarrow> 0)
      else if stage \<le> length (de_nodes d)
      then (case nd_remote_executor (de_nodes d ! (stage - 1)) of
              None \<Rightarrow> Suc stage
            | Some r \<Rightarrow> (case wait_for_completion (de_executors d r) of Return _ \<Rightarrow> Suc stage | _ \<Rightarrow> stage))
      else stage)"

subsection \<open>Which node is chosen\<close>

definition has_room :: "node_info \<Rightarrow> bool" where
  "has_room n \<longleftrightarrow> nd_current_load n < nd_capacity n"

text \<open>The nodes a policy may choose.\<close>

fun eligible :: "policy \<Rightarrow> node_info \<Rightarrow> bool" where
  "eligible LocalFirst n \<longleftrightarrow> nd_reachable n"
| "eligible LeastLoaded n \<longleftrightarrow> nd_reachable n \<and> has_room n"
| "eligible RoundRobin n \<longleftrightarrow> nd_reachable n \<and> has_room n"
| "eligible Broadcast n \<longleftrightarrow> False"

lemma first_reachable_spec:
  "case first_reachable ns of
     None \<Rightarrow> \<forall>n \<in> set ns. \<not> nd_reachable n
   | Some i \<Rightarrow> i < length ns \<and> nd_reachable (ns ! i)"
  by (induction ns) (auto split: option.splits)

text \<open>The loop of \<open>LeastLoaded\<close>: the candidate is the least loaded node with room seen so far.\<close>

lemma least_loaded_spec:
  assumes "case c of
      None \<Rightarrow> m = - 1 \<and> (\<forall>n \<in> set seen. \<not> eligible LeastLoaded n)
    | Some j \<Rightarrow> j < length seen \<and> eligible LeastLoaded (seen ! j) \<and> m = nd_current_load (seen ! j) \<and>
        (\<forall>n \<in> set seen. eligible LeastLoaded n \<longrightarrow> m \<le> nd_current_load n)"
  shows "case least_loaded ns (length seen) m c of
      None \<Rightarrow> \<forall>n \<in> set (seen @ ns). \<not> eligible LeastLoaded n
    | Some j \<Rightarrow> j < length (seen @ ns) \<and> eligible LeastLoaded ((seen @ ns) ! j) \<and>
        (\<forall>n \<in> set (seen @ ns). eligible LeastLoaded n \<longrightarrow>
           nd_current_load ((seen @ ns) ! j) \<le> nd_current_load n)"
  using assms
proof (induction ns arbitrary: seen m c)
  case Nil
  then show ?case by (auto split: option.splits)
next
  case (Cons n ns)
  have room: "nd_current_load n < - 1" if "nd_current_load n < nd_capacity n"
    using that word_order.extremum by (rule order.strict_trans2)
  let ?better = "nd_reachable n \<and> nd_current_load n < m \<and> nd_current_load n < nd_capacity n"
  have "case least_loaded ns (length (seen @ [n])) (if ?better then nd_current_load n else m)
      (if ?better then Some (length seen) else c) of
      None \<Rightarrow> \<forall>n' \<in> set ((seen @ [n]) @ ns). \<not> eligible LeastLoaded n'
    | Some j \<Rightarrow> j < length ((seen @ [n]) @ ns) \<and> eligible LeastLoaded (((seen @ [n]) @ ns) ! j) \<and>
        (\<forall>n' \<in> set ((seen @ [n]) @ ns). eligible LeastLoaded n' \<longrightarrow>
           nd_current_load (((seen @ [n]) @ ns) ! j) \<le> nd_current_load n')"
  proof (rule Cons.IH)
    show "case if ?better then Some (length seen) else c of
        None \<Rightarrow> (if ?better then nd_current_load n else m) = - 1 \<and>
          (\<forall>n' \<in> set (seen @ [n]). \<not> eligible LeastLoaded n')
      | Some j \<Rightarrow> j < length (seen @ [n]) \<and> eligible LeastLoaded ((seen @ [n]) ! j) \<and>
          (if ?better then nd_current_load n else m) = nd_current_load ((seen @ [n]) ! j) \<and>
          (\<forall>n' \<in> set (seen @ [n]). eligible LeastLoaded n' \<longrightarrow>
             (if ?better then nd_current_load n else m) \<le> nd_current_load n')"
      using Cons.prems room
      by (auto simp: has_room_def nth_append split: option.splits dest: order.strict_implies_order)
  qed
  moreover have "least_loaded (n # ns) (length seen) m c = least_loaded ns (length (seen @ [n]))
      (if ?better then nd_current_load n else m) (if ?better then Some (length seen) else c)"
    by (simp add: Let_def)
  ultimately show ?case by (simp only: append.assoc append_Cons append_Nil)
qed

lemma round_robin_spec:
  "case round_robin ns c order of
     None \<Rightarrow> \<forall>i \<in> set order. \<not> eligible RoundRobin (ns ! unat ((c + of_nat i) mod of_nat (length ns)))
   | Some j \<Rightarrow> eligible RoundRobin (ns ! j) \<and> (\<exists>i \<in> set order. j = unat ((c + of_nat i) mod of_nat (length ns)))"
  by (induction order) (auto simp: has_room_def Let_def split: option.splits)

text \<open>The scan of \<open>RoundRobin\<close> visits every node.\<close>

lemma index_mod:
  fixes c :: size_t
  assumes "i < n" and "unat c + n < 2 ^ 64"
  shows "unat ((c + of_nat i) mod of_nat n) = (unat c + i) mod n"
proof -
  have "unat (of_nat i :: size_t) = i" "unat (of_nat n :: size_t) = n"
    using assms by (simp_all add: unat_of_nat)
  moreover from this have "unat (c + of_nat i) = unat c + i"
    using assms by (simp add: unat_word_ariths)
  ultimately show ?thesis by (simp add: unat_mod_distrib)
qed

lemma cyclic_index:
  assumes "j < (n::nat)"
  shows "\<exists>i < n. (c + i) mod n = j"
proof -
  let ?i = "(j + (n - c mod n)) mod n"
  have "c mod n < n" using assms by simp
  have "(c + ?i) mod n = (c mod n + (j + (n - c mod n))) mod n" by (simp add: mod_simps)
  also have "c mod n + (j + (n - c mod n)) = j + n" using \<open>c mod n < n\<close> by simp
  also have "(j + n) mod n = j" using assms by simp
  finally show ?thesis using assms by (intro exI [of _ ?i]) simp
qed

lemma round_robin_scan:
  assumes "unat c + length ns < 2 ^ 64"
  shows "case round_robin ns c [0..<length ns] of
      None \<Rightarrow> \<forall>n \<in> set ns. \<not> eligible RoundRobin n
    | Some j \<Rightarrow> j < length ns \<and> eligible RoundRobin (ns ! j)"
proof -
  let ?n = "length ns"
  have scan: "unat ((c + of_nat i) mod of_nat ?n) = (unat c + i) mod ?n" if "i \<in> set [0..<?n]" for i
    using that assms by (intro index_mod) simp_all
  note spec = round_robin_spec [where ns = ns and c = c and order = "[0..<?n]"]
  show ?thesis
  proof (cases "round_robin ns c [0..<?n]")
    case None
    have "\<not> eligible RoundRobin (ns ! j)" if j: "j < ?n" for j
    proof -
      obtain i where "i < ?n" "(unat c + i) mod ?n = j" using cyclic_index [OF j] by blast
      with spec None scan [of i] show ?thesis by auto
    qed
    then show ?thesis unfolding None option.case all_set_conv_all_nth by blast
  next
    case (Some j)
    with spec scan have "eligible RoundRobin (ns ! j)" "\<exists>i < ?n. j = (unat c + i) mod ?n" by auto
    moreover from this(2) have "j < ?n" using mod_less_divisor [of ?n] by (metis gr_zeroI not_less0)
    ultimately show ?thesis by (simp add: Some)
  qed
qed

text \<open>C34. The choice of a node is sound and complete for each policy: a chosen node is reachable, for
  \<open>LeastLoaded\<close> and \<open>RoundRobin\<close> it has room, for \<open>LeastLoaded\<close> no such node has a smaller load; and
  no node is chosen only when no node is eligible.\<close>

theorem select_node_sound:
  assumes "select_node d = (d', r)" and "unat (de_cursor d) + length (de_nodes d) < 2 ^ 64"
  shows "case r of
      None \<Rightarrow> \<forall>n \<in> set (de_nodes d). \<not> eligible (de_policy d) n
    | Some i \<Rightarrow> i < length (de_nodes d) \<and> eligible (de_policy d) (de_nodes d ! i) \<and>
        (de_policy d = LeastLoaded \<longrightarrow> (\<forall>n \<in> set (de_nodes d). eligible LeastLoaded n \<longrightarrow>
           nd_current_load (de_nodes d ! i) \<le> nd_current_load n))"
proof (cases "de_policy d")
  case RoundRobin
  then show ?thesis
    using assms(1) round_robin_scan [OF assms(2)]
    by (auto simp: select_node_def Let_def split: if_splits option.splits)
next
  case LeastLoaded
  then show ?thesis
    using assms(1) least_loaded_spec [where c = None and m = "- 1" and seen = "[]" and ns = "de_nodes d"]
    by (auto simp: select_node_def Let_def split: if_splits option.splits)
next
  case LocalFirst
  then show ?thesis
    using assms(1) first_reachable_spec [of "de_nodes d"]
    by (auto simp: select_node_def Let_def split: if_splits option.splits)
next
  case Broadcast
  then show ?thesis using assms(1) by (auto simp: select_node_def Let_def split: if_splits)
qed

definition node_demo :: "nat \<Rightarrow> size_t \<Rightarrow> size_t \<Rightarrow> node_info" where
  "node_demo k capacity load =
     (new_node 0 ''host'' (of_nat k) capacity)\<lparr>nd_current_load := load, nd_remote_executor := Some k\<rparr>"

definition distributed_demo :: "policy \<Rightarrow> distributed" where
  "distributed_demo p =
     \<lparr>de_local = demo_start, de_executors = (\<lambda>_. demo_start), de_address = ''localhost'', de_port = 8080,
      de_running = True, de_policy = p, de_submitter = InMemory, de_cursor = 2,
      de_nodes = [node_demo 0 4 3, node_demo 1 4 1, node_demo 2 4 4]\<rparr>"

theorem select_node_sound_witness:
  "snd (select_node (distributed_demo LeastLoaded)) = Some 1 \<and>
   nd_current_load (de_nodes (distributed_demo LeastLoaded) ! 1) \<le>
     nd_current_load (de_nodes (distributed_demo LeastLoaded) ! 0)"
proof -
  have "select_node (distributed_demo LeastLoaded) = (distributed_demo LeastLoaded, Some 1)"
    by (simp add: select_node_def distributed_demo_def node_demo_def new_node_def Let_def)
  from select_node_sound [OF this] show ?thesis
    using \<open>select_node _ = _\<close>
    by (simp add: distributed_demo_def node_demo_def new_node_def has_room_def)
qed

fun select_times :: "nat \<Rightarrow> distributed \<Rightarrow> nat option list" where
  "select_times 0 d = []"
| "select_times (Suc k) d = (case select_node d of (d', r) \<Rightarrow> r # select_times k d')"

lemma select_next:
  assumes "de_policy d = RoundRobin" and "\<forall>n \<in> set (de_nodes d). eligible RoundRobin n"
    and "unat (de_cursor d) < length (de_nodes d)" and "2 * length (de_nodes d) < 2 ^ 64"
  shows "select_node d =
    (d\<lparr>de_cursor := (of_nat (Suc (unat (de_cursor d)) mod length (de_nodes d)))\<rparr>, Some (unat (de_cursor d)))"
proof -
  let ?n = "length (de_nodes d)" and ?c = "unat (de_cursor d)"
  have pos: "0 < ?n" using assms(3) by linarith
  then have "[0..<?n] = 0 # [1..<?n]" by (simp add: upt_conv_Cons)
  moreover have "unat (de_cursor d mod of_nat ?n) = ?c"
    using index_mod [of 0 ?n "de_cursor d"] pos assms(3,4) by simp
  moreover have "eligible RoundRobin (de_nodes d ! ?c)" using assms(2,3) by simp
  ultimately have "round_robin (de_nodes d) (de_cursor d) [0..<?n] = Some ?c"
    by (simp add: has_room_def Let_def)
  moreover have "(of_nat ?c + 1) mod of_nat ?n = (of_nat (Suc ?c mod ?n) :: size_t)"
  proof (rule unat_inject [THEN iffD1])
    have "unat ((of_nat ?c :: size_t) + 1) = Suc ?c"
      using assms(3,4) by (simp add: unat_word_ariths)
    moreover have "unat (of_nat ?n :: size_t) = ?n" using assms(4) by (simp add: unat_of_nat)
    moreover have "Suc ?c mod ?n < 2 ^ 64"
      using mod_less_divisor [OF pos, of "Suc ?c"] assms(4) by linarith
    then have "unat (of_nat (Suc ?c mod ?n) :: size_t) = Suc ?c mod ?n" by (simp add: unat_of_nat)
    ultimately show "unat (((of_nat ?c :: size_t) + 1) mod of_nat ?n) = unat (of_nat (Suc ?c mod ?n) :: size_t)"
      by (simp add: unat_mod_distrib)
  qed
  moreover have "de_nodes d \<noteq> []" using pos by auto
  ultimately show ?thesis using assms(1) by (simp add: select_node_def Let_def)
qed

lemma select_times_cyclic:
  assumes "de_policy d = RoundRobin" and "\<forall>n \<in> set (de_nodes d). eligible RoundRobin n"
    and "unat (de_cursor d) < length (de_nodes d)" and "2 * length (de_nodes d) < 2 ^ 64"
  shows "select_times k d =
    map (\<lambda>i. Some ((unat (de_cursor d) + i) mod length (de_nodes d))) [0..<k]"
  using assms
proof (induction k arbitrary: d)
  case 0
  then show ?case by simp
next
  case (Suc k)
  let ?n = "length (de_nodes d)" and ?c = "unat (de_cursor d)"
  let ?d = "d\<lparr>de_cursor := of_nat (Suc ?c mod ?n)\<rparr>"
  have pos: "0 < ?n" using Suc.prems(3) by linarith
  have less: "Suc ?c mod ?n < ?n" using pos by simp
  also have "?n < 2 ^ 64" using Suc.prems(4) by simp
  finally have "unat (of_nat (Suc ?c mod ?n) :: size_t) = Suc ?c mod ?n" by (simp add: unat_of_nat)
  with Suc.IH [of ?d] Suc.prems less
  have "select_times k ?d = map (\<lambda>i. Some ((Suc ?c mod ?n + i) mod ?n)) [0..<k]" by simp
  also have "\<dots> = map (\<lambda>i. Some ((?c + i) mod ?n)) (map Suc [0..<k])" by (simp add: mod_simps)
  finally have "select_times k ?d = map (\<lambda>i. Some ((?c + i) mod ?n)) [Suc 0..<Suc k]"
    by (simp only: map_Suc_upt)
  moreover have "[0..<Suc k] = 0 # [Suc 0..<Suc k]" by (rule upt_conv_Cons) simp
  ultimately show ?case using select_next [OF Suc.prems] Suc.prems(3) by (simp del: upt_Suc)
qed

lemma cyclic_permutation:
  assumes "0 < (n::nat)"
  shows "mset (map (\<lambda>i. (c + i) mod n) [0..<n]) = mset [0..<n]"
proof -
  let ?xs = "map (\<lambda>i. (c + i) mod n) [0..<n]"
  have "set ?xs = set [0..<n]" using cyclic_index [of _ n c] assms by force
  moreover from this have "distinct ?xs" by (intro card_distinct) simp
  ultimately show ?thesis by (simp only: set_eq_iff_mset_eq_distinct distinct_upt)
qed

text \<open>C35. \<open>RoundRobin\<close> is fair: while every node is reachable and has room, the selections go through the
  nodes in order, from the cursor on and around; any \<open>n\<close> in a row, with \<open>n\<close> nodes, choose each once.\<close>

theorem round_robin_fair:
  assumes "de_policy d = RoundRobin" and "\<forall>n \<in> set (de_nodes d). eligible RoundRobin n"
    and "unat (de_cursor d) < length (de_nodes d)" and "2 * length (de_nodes d) < 2 ^ 64"
  shows "select_times k d =
      map (\<lambda>i. Some ((unat (de_cursor d) + i) mod length (de_nodes d))) [0..<k] \<and>
    mset (select_times (length (de_nodes d)) d) = mset (map Some [0..<length (de_nodes d)])"
proof -
  let ?n = "length (de_nodes d)" and ?c = "unat (de_cursor d)"
  have "mset (map (\<lambda>i. (?c + i) mod ?n) [0..<?n]) = mset [0..<?n]"
    using assms(3) by (intro cyclic_permutation) linarith
  then have "mset (map Some (map (\<lambda>i. (?c + i) mod ?n) [0..<?n])) = mset (map Some [0..<?n])"
    by (metis mset_map)
  moreover have "select_times ?n d = map Some (map (\<lambda>i. (?c + i) mod ?n) [0..<?n])"
    by (simp add: select_times_cyclic [OF assms])
  ultimately show ?thesis using select_times_cyclic [OF assms] by metis
qed

definition idle_nodes :: distributed where
  "idle_nodes = (distributed_demo RoundRobin)\<lparr>de_nodes := [node_demo 0 4 3, node_demo 1 4 1, node_demo 2 4 0]\<rparr>"

theorem round_robin_fair_witness:
  "select_times 5 idle_nodes = [Some 2, Some 0, Some 1, Some 2, Some 0]"
proof -
  have "de_policy idle_nodes = RoundRobin" "\<forall>n \<in> set (de_nodes idle_nodes). eligible RoundRobin n"
    "unat (de_cursor idle_nodes) < length (de_nodes idle_nodes)"
    "2 * length (de_nodes idle_nodes) < 2 ^ 64"
    by (simp_all add: idle_nodes_def distributed_demo_def node_demo_def new_node_def has_room_def)
  from round_robin_fair [OF this, of 5] show ?thesis
    by (simp add: idle_nodes_def distributed_demo_def upt_rec)
qed

lemma broadcast_to_length:
  assumes "broadcast_to cas now func name sub ns ids d = (d', Return r)"
  shows "length r = length ids + length (filter nd_reachable ns)"
  using assms
proof (induction ns arbitrary: ids d)
  case Nil
  then show ?case by simp
next
  case (Cons n ns)
  then show ?case by (fastforce split: if_splits prod.splits outcome.splits)
qed

lemma local_submit_nodes:
  "local_submit cas now func name sub d = (d', r) \<Longrightarrow>
    de_nodes d' = de_nodes d \<and> de_submitter d' = de_submitter d \<and> de_executors d' = de_executors d"
  by (auto simp: local_submit_def split: prod.splits)

text \<open>A broadcast that returns has submitted the task once to the local executor and once for every
  reachable node when there is a submitter: the list holds that many ids.\<close>

theorem broadcast_reaches_all:
  assumes "broadcast cas now func name sub d = (d', Return ids)"
  shows "length ids =
    Suc (if has_submitter d then length (filter nd_reachable (de_nodes d)) else 0)"
proof -
  obtain d1 r where loc: "local_submit (cas 0) now func name sub d = (d1, r)" by fastforce
  with assms obtain tid where r: "r = Return tid" by (cases r) (auto simp: broadcast_def)
  note same = local_submit_nodes [OF loc]
  then have sub: "has_submitter d1 = has_submitter d" by (simp add: has_submitter_def)
  show ?thesis
  proof (cases "has_submitter d")
    case True
    then have "broadcast_to cas now func name sub (de_nodes d) [tid] d1 = (d', Return ids)"
      using assms loc r sub same by (simp add: broadcast_def)
    from broadcast_to_length [OF this] True show ?thesis by simp
  next
    case False
    then show ?thesis using assms loc r sub by (auto simp: broadcast_def)
  qed
qed

definition broadcast_demo :: "distributed \<times> task_id list outcome" where
  "broadcast_demo = broadcast (\<lambda>_. always) 0 (\<lambda>_. Inr AnyEmpty) ''all'' (plain_submission [])
     (distributed_demo Broadcast)"

theorem broadcast_reaches_all_witness:
  "snd broadcast_demo = Return [1, 1, 1, 1] \<and> length [1, 1, 1, 1 :: task_id] = Suc 3"
proof -
  have run: "snd broadcast_demo = Return [1, 1, 1, 1]" by code_simp
  then have "broadcast (\<lambda>_. always) 0 (\<lambda>_. Inr AnyEmpty) ''all'' (plain_submission [])
      (distributed_demo Broadcast) = (fst broadcast_demo, Return [1, 1, 1, 1])"
    by (simp add: broadcast_demo_def prod_eq_iff)
  from broadcast_reaches_all [OF this] run show ?thesis
    by (simp add: has_submitter_def distributed_demo_def node_demo_def new_node_def)
qed

lemma select_node_local: "select_node d = (d', r) \<Longrightarrow> de_local d' = de_local d \<and> has_submitter d' = has_submitter d"
  by (auto simp: select_node_def has_submitter_def Let_def split: if_splits policy.splits option.splits)

lemma submit_without_submitter:
  assumes "\<not> has_submitter d" and "distributed_submit cas now func name sub d = (d', r)"
  shows "\<exists>d1 r1. de_local d1 = de_local d \<and> local_submit (cas 0) now func name sub d1 = (d', r1) \<and>
    (\<forall>i. r = Return i \<longrightarrow> r1 = Return i)"
proof (cases "de_policy d = Broadcast")
  case True
  obtain d2 r2 where loc: "local_submit (cas 0) now func name sub d = (d2, r2)" by fastforce
  have "\<not> has_submitter d2" using local_submit_nodes [OF loc] assms(1) by (simp add: has_submitter_def)
  with loc True assms(2) have "d2 = d'" "\<forall>i. r = Return i \<longrightarrow> r2 = Return i"
    by (cases r2; auto simp: distributed_submit_def broadcast_def)+
  with loc show ?thesis by blast
next
  case False
  obtain d1 n where sel: "select_node d = (d1, n)" by fastforce
  have "local_submit (cas 0) now func name sub d1 = (d', r)"
    using assms False sel select_node_local [OF sel]
    by (auto simp: distributed_submit_def split: policy.splits option.splits)
  with select_node_local [OF sel] show ?thesis by blast
qed

text \<open>Dependencies are lost on the local executor. Without a remote submitter, which is how a
  distributed executor is made, every submission that returns makes a task without dependencies and
  puts it into the pool at once, whatever dependencies it asked for.\<close>

theorem local_dependencies_lost:
  fixes cas now func name sub d
  defines "p \<equiv> ex_next_ptr (de_local d)"
  assumes "\<not> has_submitter d" and "pool_inv (ex_pool (de_local d))"
    and "distributed_submit cas now func name sub d = (d', Return i)"
  shows "t_dependencies (ex_heap (de_local d') p) = [] \<and>
    placed (de_local d') = add_mset p (placed (de_local d))"
proof -
  obtain d1 where d1: "de_local d1 = de_local d"
    "local_submit (cas 0) now func name sub d1 = (d', Return i)"
    using submit_without_submitter [OF assms(2,4)] by blast
  let ?sub = "\<lparr>sub_dependencies = [], sub_options = sub_options sub, sub_callback = sub_callback sub\<rparr>"
  have run: "submit_internal (cas 0) now func name ?sub None (de_local d) = (de_local d', Return i)"
    using d1 by (auto simp: local_submit_def submit_def split: prod.splits)
  from submit_internal_spec(5) [OF run] submit_queues [OF assms(3) _ run]
  show ?thesis by (simp add: p_def map_filter_simps)
qed

theorem local_dependencies_lost_witness:
  "\<exists>d' i. distributed_submit (\<lambda>_. always) 0 (\<lambda>_. Inr AnyEmpty) ''after'' (plain_submission [1])
     ((distributed_demo RoundRobin)\<lparr>de_submitter := NoSubmitter\<rparr>) = (d', Return i) \<and>
     t_dependencies (ex_heap (de_local d') 0) = []"
proof -
  let ?d = "(distributed_demo RoundRobin)\<lparr>de_submitter := NoSubmitter\<rparr>"
  let ?run = "distributed_submit (\<lambda>_. always) 0 (\<lambda>_. Inr AnyEmpty) ''after'' (plain_submission [1]) ?d"
  have "snd ?run = Return 1" by code_simp
  then have run: "?run = (fst ?run, Return 1)" by (simp add: prod_eq_iff)
  have "\<not> has_submitter ?d" "ex_next_ptr (de_local ?d) = 0" by code_simp+
  moreover have "pool_inv (ex_pool (de_local ?d))"
    using demo_pool(1) by (simp add: distributed_demo_def demo_start_def executor_on_pool_def)
  ultimately show ?thesis using local_dependencies_lost [OF _ _ run] run by metis
qed

text \<open>The policy \<open>LocalFirst\<close> sends a task to the first reachable node, not to the local executor.\<close>

lemma local_first_goes_remote:
  assumes "de_policy d = LocalFirst" and "has_submitter d" and "\<exists>n \<in> set (de_nodes d). nd_reachable n"
    and "distributed_submit cas now func name sub d = (d', r)"
  shows "de_local d' = de_local d"
proof -
  obtain i where i: "first_reachable (de_nodes d) = Some i" "nd_reachable (de_nodes d ! i)"
    using first_reachable_spec [of "de_nodes d"] assms(3) by (auto split: option.splits)
  have "de_nodes d \<noteq> []" using assms(3) by auto
  then have "remote_submit (cas 0) now (de_nodes d ! i) func name sub d = (d', r)"
    using assms i by (simp add: distributed_submit_def select_node_def)
  then show ?thesis
    by (auto simp: remote_submit_def split: submitter.splits option.splits prod.splits)
qed

end
