(* ===== verification/Task_Group.thy ===== *)
theory Task_Group
  imports Executor_Clients
begin

section \<open>Task groups and task batches\<close>

text \<open>
  \<open>TaskGroup\<close> of \<open>include/task_engine/task_group.hpp\<close> and \<open>TaskBatch\<close> of \<open>task_batch.hpp\<close>. Both submit
  to an executor they share with others and keep the ids; both are instances of \<open>id_collection\<close>. A
  group has a name and counts the states of its tasks; its mutex makes each operation one step.
\<close>

record task_group =
  gr_executor :: executor
  gr_name :: string
  gr_task_ids :: "task_id list"

text \<open>The address of the object names a group that gets no name.\<close>

definition TaskGroup :: "u64 \<Rightarrow> executor \<Rightarrow> string \<Rightarrow> task_group" where
  "TaskGroup this ex name =
     \<lparr>gr_executor = ex, gr_name = (if name = [] then ''Group_'' @ to_string this else name),
      gr_task_ids = []\<rparr>"

text \<open>What \<open>add\<close> does with the outcome of the submission.\<close>

definition group_keep :: "task_group \<Rightarrow> executor \<times> task_id outcome \<Rightarrow> task_group \<times> task_id outcome" where
  "group_keep g r =
     (case r of
        (ex, Return i) \<Rightarrow> (g\<lparr>gr_executor := ex, gr_task_ids := gr_task_ids g @ [i]\<rparr>, Return i)
      | (ex, out) \<Rightarrow> (g\<lparr>gr_executor := ex\<rparr>, out))"

definition group_add ::
  "cas3 \<Rightarrow> time \<Rightarrow> (nat \<Rightarrow> exn + any) \<Rightarrow> string \<Rightarrow> task_options \<Rightarrow> task_group \<Rightarrow>
   task_group \<times> task_id outcome" where
  "group_add cas now func name options g =
     group_keep g (submit cas now func name options NoCallback (gr_executor g))"

definition group_add_with_dependencies ::
  "cas3 \<Rightarrow> time \<Rightarrow> (nat \<Rightarrow> exn + any) \<Rightarrow> task_id list \<Rightarrow> string \<Rightarrow> task_options \<Rightarrow> task_group \<Rightarrow>
   task_group \<times> task_id outcome" where
  "group_add_with_dependencies cas now func dependencies name options g =
     group_keep g (submit_with_dependencies cas now func dependencies name options NoCallback
                     (gr_executor g))"

definition group_wait :: "task_group \<Rightarrow> unit outcome" where
  "group_wait g = wait_for_completion (gr_executor g)"

definition group_cancel_all :: "task_group \<Rightarrow> task_group \<times> size_t outcome" where
  "group_cancel_all g =
     (case cancel_each (gr_task_ids g) 0 (gr_executor g) of (ex, r) \<Rightarrow> (g\<lparr>gr_executor := ex\<rparr>, r))"

record group_stats =
  gs_total_tasks :: size_t
  gs_completed :: size_t
  gs_failed :: size_t
  gs_running :: size_t
  gs_pending :: size_t
  gs_cancelled :: size_t

definition count_status :: "task_status \<Rightarrow> group_stats \<Rightarrow> group_stats" where
  "count_status status st =
     (case status of
        Completed \<Rightarrow> st\<lparr>gs_completed := gs_completed st + 1\<rparr>
      | Failed \<Rightarrow> st\<lparr>gs_failed := gs_failed st + 1\<rparr>
      | Running \<Rightarrow> st\<lparr>gs_running := gs_running st + 1\<rparr>
      | Pending \<Rightarrow> st\<lparr>gs_pending := gs_pending st + 1\<rparr>
      | Ready \<Rightarrow> st\<lparr>gs_pending := gs_pending st + 1\<rparr>
      | Cancelled \<Rightarrow> st\<lparr>gs_cancelled := gs_cancelled st + 1\<rparr>)"

definition group_get_stats :: "task_group \<Rightarrow> group_stats" where
  "group_get_stats g =
     fold (\<lambda>i. count_status (get_task_status i (gr_executor g))) (gr_task_ids g)
       \<lparr>gs_total_tasks = of_nat (length (gr_task_ids g)), gs_completed = 0, gs_failed = 0,
        gs_running = 0, gs_pending = 0, gs_cancelled = 0\<rparr>"

definition group_all_completed :: "task_group \<Rightarrow> bool" where
  "group_all_completed g \<longleftrightarrow>
     (let st = group_get_stats g
      in gs_completed st + gs_failed st + gs_cancelled st = gs_total_tasks st)"

definition group_clear :: "task_group \<Rightarrow> task_group" where
  "group_clear g = g\<lparr>gr_task_ids := []\<rparr>"

subsection \<open>Batches\<close>

record task_batch =
  ba_executor :: executor
  ba_task_ids :: "task_id list"

definition TaskBatch :: "executor \<Rightarrow> task_batch" where
  "TaskBatch ex = \<lparr>ba_executor = ex, ba_task_ids = []\<rparr>"

definition batch_keep :: "task_batch \<Rightarrow> executor \<times> task_id outcome \<Rightarrow> task_batch \<times> task_id outcome" where
  "batch_keep b r =
     (case r of
        (ex, Return i) \<Rightarrow> (b\<lparr>ba_executor := ex, ba_task_ids := ba_task_ids b @ [i]\<rparr>, Return i)
      | (ex, out) \<Rightarrow> (b\<lparr>ba_executor := ex\<rparr>, out))"

definition batch_add ::
  "cas3 \<Rightarrow> time \<Rightarrow> (nat \<Rightarrow> exn + any) \<Rightarrow> string \<Rightarrow> task_options \<Rightarrow> task_batch \<Rightarrow>
   task_batch \<times> task_id outcome" where
  "batch_add cas now func name options b =
     batch_keep b (submit cas now func name options NoCallback (ba_executor b))"

definition batch_add_with_dependencies ::
  "cas3 \<Rightarrow> time \<Rightarrow> (nat \<Rightarrow> exn + any) \<Rightarrow> task_id list \<Rightarrow> string \<Rightarrow> task_options \<Rightarrow> task_batch \<Rightarrow>
   task_batch \<times> task_id outcome" where
  "batch_add_with_dependencies cas now func dependencies name options b =
     batch_keep b (submit_with_dependencies cas now func dependencies name options NoCallback
                     (ba_executor b))"

definition batch_wait :: "task_batch \<Rightarrow> unit outcome" where
  "batch_wait b = wait_for_completion (ba_executor b)"

definition batch_get_statuses :: "task_batch \<Rightarrow> task_status list" where
  "batch_get_statuses b = map (\<lambda>i. get_task_status i (ba_executor b)) (ba_task_ids b)"

definition batch_cancel_all :: "task_batch \<Rightarrow> task_batch \<times> size_t outcome" where
  "batch_cancel_all b =
     (case cancel_each (ba_task_ids b) 0 (ba_executor b) of (ex, r) \<Rightarrow> (b\<lparr>ba_executor := ex\<rparr>, r))"

subsection \<open>Both are collections\<close>

definition group_request :: "request \<Rightarrow> task_group \<Rightarrow> task_group \<times> task_id outcome" where
  "group_request rq g =
     (case rq_dependencies rq of
        None \<Rightarrow> group_add (rq_cas rq) (rq_now rq) (rq_func rq) (rq_name rq) (rq_options rq) g
      | Some deps \<Rightarrow>
          group_add_with_dependencies (rq_cas rq) (rq_now rq) (rq_func rq) deps (rq_name rq)
            (rq_options rq) g)"

definition batch_request :: "request \<Rightarrow> task_batch \<Rightarrow> task_batch \<times> task_id outcome" where
  "batch_request rq b =
     (case rq_dependencies rq of
        None \<Rightarrow> batch_add (rq_cas rq) (rq_now rq) (rq_func rq) (rq_name rq) (rq_options rq) b
      | Some deps \<Rightarrow>
          batch_add_with_dependencies (rq_cas rq) (rq_now rq) (rq_func rq) deps (rq_name rq)
            (rq_options rq) b)"

interpretation gr: id_collection gr_task_ids gr_executor group_request group_cancel_all
proof
  show "submit_internal (rq_cas rq) (rq_now rq) (rq_func rq) (rq_name rq) (request_submission rq) None
      (gr_executor c) = (gr_executor c', r) \<and>
    gr_task_ids c' = gr_task_ids c @ (case r of Return i \<Rightarrow> [i] | _ \<Rightarrow> [])"
    if "group_request rq c = (c', r)" for rq c c' r
    using that
    by (auto simp: group_request_def group_add_def group_add_with_dependencies_def submit_def
        submit_with_dependencies_def request_submission_def group_keep_def
        split: option.splits prod.splits outcome.splits)
  show "cancel_each (gr_task_ids c) 0 (gr_executor c) = (gr_executor c', r) \<and> gr_task_ids c' = gr_task_ids c"
    if "group_cancel_all c = (c', r)" for c c' r
    using that by (auto simp: group_cancel_all_def split: prod.splits)
qed

interpretation ba: id_collection ba_task_ids ba_executor batch_request batch_cancel_all
proof
  show "submit_internal (rq_cas rq) (rq_now rq) (rq_func rq) (rq_name rq) (request_submission rq) None
      (ba_executor c) = (ba_executor c', r) \<and>
    ba_task_ids c' = ba_task_ids c @ (case r of Return i \<Rightarrow> [i] | _ \<Rightarrow> [])"
    if "batch_request rq c = (c', r)" for rq c c' r
    using that
    by (auto simp: batch_request_def batch_add_def batch_add_with_dependencies_def submit_def
        submit_with_dependencies_def request_submission_def batch_keep_def
        split: option.splits prod.splits outcome.splits)
  show "cancel_each (ba_task_ids c) 0 (ba_executor c) = (ba_executor c', r) \<and> ba_task_ids c' = ba_task_ids c"
    if "batch_cancel_all c = (c', r)" for c c' r
    using that by (auto simp: batch_cancel_all_def split: prod.splits)
qed

subsection \<open>Statistics\<close>

abbreviation status_count :: "task_group \<Rightarrow> task_status set \<Rightarrow> nat" where
  "status_count g S \<equiv> length (filter (\<lambda>i. get_task_status i (gr_executor g) \<in> S) (gr_task_ids g))"

lemma fold_count_status:
  fixes statuses :: "task_status list" and st :: group_stats
  defines "st' \<equiv> fold count_status statuses st"
  shows "gs_total_tasks st' = gs_total_tasks st"
    "gs_completed st' = gs_completed st + of_nat (count_list statuses Completed)"
    "gs_failed st' = gs_failed st + of_nat (count_list statuses Failed)"
    "gs_running st' = gs_running st + of_nat (count_list statuses Running)"
    "gs_pending st' = gs_pending st + of_nat (count_list statuses Pending + count_list statuses Ready)"
    "gs_cancelled st' = gs_cancelled st + of_nat (count_list statuses Cancelled)"
  unfolding st'_def
  by (induction statuses arbitrary: st) (auto simp: count_status_def split: task_status.splits)

lemma count_list_filter: "count_list (map f xs) y = length (filter (\<lambda>x. f x \<in> {y}) xs)"
  by (induction xs) auto

text \<open>Counting by status: one case analysis for each element.\<close>

lemma status_sums:
  fixes f :: "'a \<Rightarrow> task_status" and xs :: "'a list"
  defines "n S \<equiv> length (filter (\<lambda>x. f x \<in> S) xs)"
  shows "n {Pending, Ready} = n {Pending} + n {Ready}"
    "n {Completed} + n {Failed} + n {Running} + n {Pending, Ready} + n {Cancelled} = length xs"
    "n {Completed} + n {Failed} + n {Cancelled} = length (filter (\<lambda>x. terminal (f x)) xs)"
proof -
  show "n {Pending, Ready} = n {Pending} + n {Ready}"
    unfolding n_def by (induction xs) auto
  show "n {Completed} + n {Failed} + n {Running} + n {Pending, Ready} + n {Cancelled} = length xs"
    unfolding n_def
  proof (induction xs)
    case (Cons x xs)
    then show ?case by (cases "f x") simp_all
  qed simp
  show "n {Completed} + n {Failed} + n {Cancelled} = length (filter (\<lambda>x. terminal (f x)) xs)"
    unfolding n_def
  proof (induction xs)
    case (Cons x xs)
    then show ?case by (cases "f x") (simp_all add: terminal_def)
  qed simp
qed

lemma filter_full: "length (filter P xs) = length xs \<longleftrightarrow> (\<forall>x \<in> set xs. P x)"
  by (metis filter_True length_filter_less less_irrefl)

lemma group_stats_counts:
  "gs_total_tasks (group_get_stats g) = of_nat (length (gr_task_ids g))"
  "gs_completed (group_get_stats g) = of_nat (status_count g {Completed})"
  "gs_failed (group_get_stats g) = of_nat (status_count g {Failed})"
  "gs_running (group_get_stats g) = of_nat (status_count g {Running})"
  "gs_pending (group_get_stats g) = of_nat (status_count g {Pending, Ready})"
  "gs_cancelled (group_get_stats g) = of_nat (status_count g {Cancelled})"
proof -
  let ?f = "\<lambda>i. get_task_status i (gr_executor g)"
  have eq: "group_get_stats g = fold count_status (map ?f (gr_task_ids g))
      \<lparr>gs_total_tasks = of_nat (length (gr_task_ids g)), gs_completed = 0, gs_failed = 0,
       gs_running = 0, gs_pending = 0, gs_cancelled = 0\<rparr>"
    by (simp add: group_get_stats_def fold_map o_def)
  have two: "status_count g {Pending, Ready} = status_count g {Pending} + status_count g {Ready}"
    by (rule status_sums(1))
  show "gs_total_tasks (group_get_stats g) = of_nat (length (gr_task_ids g))"
    "gs_completed (group_get_stats g) = of_nat (status_count g {Completed})"
    "gs_failed (group_get_stats g) = of_nat (status_count g {Failed})"
    "gs_running (group_get_stats g) = of_nat (status_count g {Running})"
    "gs_pending (group_get_stats g) = of_nat (status_count g {Pending, Ready})"
    "gs_cancelled (group_get_stats g) = of_nat (status_count g {Cancelled})"
    unfolding eq fold_count_status count_list_filter two by simp_all
qed

lemma size_of_nat: "n < 2 ^ 64 \<Longrightarrow> unat (of_nat n :: size_t) = n"
  by (simp add: unat_of_nat)

text \<open>The statistics of a group partition its tasks: the five counts are the numbers of ids with that
  status, they add up to the number of ids, and \<open>all_completed\<close> holds exactly when every task of the
  group has a terminal status. An id that is unknown counts as failed.\<close>

theorem group_stats_partition:
  assumes "length (gr_task_ids g) < 2 ^ 64"
  shows "unat (gs_completed (group_get_stats g)) = status_count g {Completed} \<and>
    unat (gs_failed (group_get_stats g)) = status_count g {Failed} \<and>
    unat (gs_running (group_get_stats g)) = status_count g {Running} \<and>
    unat (gs_pending (group_get_stats g)) = status_count g {Pending, Ready} \<and>
    unat (gs_cancelled (group_get_stats g)) = status_count g {Cancelled} \<and>
    status_count g {Completed} + status_count g {Failed} + status_count g {Running} +
      status_count g {Pending, Ready} + status_count g {Cancelled} = length (gr_task_ids g) \<and>
    (group_all_completed g \<longleftrightarrow>
       (\<forall>i \<in> set (gr_task_ids g). terminal (get_task_status i (gr_executor g))))"
proof -
  let ?f = "\<lambda>i. get_task_status i (gr_executor g)"
  have small: "status_count g S < 2 ^ 64" for S
    using length_filter_le assms by (rule order.strict_trans1)
  note sums = status_sums(2,3) [of ?f "gr_task_ids g"]
  let ?done = "status_count g {Completed} + status_count g {Failed} + status_count g {Cancelled}"
  have "gs_completed (group_get_stats g) + gs_failed (group_get_stats g) +
      gs_cancelled (group_get_stats g) = (of_nat ?done :: size_t)"
    by (simp only: group_stats_counts of_nat_add)
  moreover have "?done < 2 ^ 64" using sums(1) assms by linarith
  ultimately have "group_all_completed g \<longleftrightarrow> ?done = length (gr_task_ids g)"
    using assms size_of_nat by (metis group_all_completed_def group_stats_counts(1))
  also have "\<dots> \<longleftrightarrow> (\<forall>i \<in> set (gr_task_ids g). terminal (?f i))"
    unfolding sums(2) by (rule filter_full)
  finally have all: "group_all_completed g \<longleftrightarrow> (\<forall>i \<in> set (gr_task_ids g). terminal (?f i))" .
  have counts: "unat (gs_completed (group_get_stats g)) = status_count g {Completed}"
    "unat (gs_failed (group_get_stats g)) = status_count g {Failed}"
    "unat (gs_running (group_get_stats g)) = status_count g {Running}"
    "unat (gs_pending (group_get_stats g)) = status_count g {Pending, Ready}"
    "unat (gs_cancelled (group_get_stats g)) = status_count g {Cancelled}"
    by (simp_all only: group_stats_counts size_of_nat [OF small])
  show ?thesis by (intro conjI counts sums(1) all)
qed

definition demo_request :: "string \<Rightarrow> task_id list option \<Rightarrow> request" where
  "demo_request name deps =
     \<lparr>rq_cas = always, rq_now = 0, rq_func = (\<lambda>_. Inr AnyEmpty), rq_name = name,
      rq_dependencies = deps, rq_options = default_options\<rparr>"

definition group_demo :: task_group where
  "group_demo =
     fst (group_request (demo_request ''b'' (Some [1])) (fst (group_request (demo_request ''a'' None)
       (TaskGroup 0 demo_start ''demo''))))"

theorem group_stats_partition_witness:
  "length (gr_task_ids group_demo) = 2 \<and> unat (gs_pending (group_get_stats group_demo)) = 2 \<and>
   \<not> group_all_completed group_demo"
proof -
  have ids: "gr_task_ids group_demo = [1, 2]" by code_simp
  have st: "get_task_status 1 (gr_executor group_demo) = Pending"
    "get_task_status 2 (gr_executor group_demo) = Pending" by code_simp+
  have "length (gr_task_ids group_demo) < 2 ^ 64" by (simp add: ids)
  from group_stats_partition [OF this] show ?thesis by (simp add: ids st terminal_def)
qed

subsection \<open>Ids and cancellation\<close>

text \<open>The ids of the tasks a group adds are consecutive.\<close>

lemmas group_ids = gr.add_each_ids

lemmas batch_ids = ba.add_each_ids

text \<open>C37. \<open>cancel_all\<close> of a batch cancels everything it can: when it returns, no task of the batch is left
  that could be cancelled, the ids are kept, and the number it returns is the number of its known tasks
  that had not been cancelled before (a task that has already completed is one of them).\<close>

theorem batch_cancel_all_exact:
  assumes "batch_cancel_all b = (b', Return n)" and "distinct (ba_task_ids b)"
    and "graph_wf (ex_graph (ba_executor b))"
  shows "ba_task_ids b' = ba_task_ids b \<and>
    (\<forall>i \<in> set (ba_task_ids b). \<not> cancellable (ba_executor b') i) \<and>
    n = of_nat (length (filter (cancellable (ba_executor b)) (ba_task_ids b)))"
proof -
  have "\<forall>i p. get_task i (ex_graph (ba_executor b)) = Some p \<longrightarrow> t_id (ex_heap (ba_executor b) p) = i"
    using map_of_wf [OF assms(3)] by (simp add: get_task_def)
  from ba.cancel_all_count [OF assms(1,2) this] ba.cancel_law [OF assms(1)]
    ba.cancel_all_done [OF assms(1)]
  show ?thesis by blast
qed

definition batch_demo :: task_batch where
  "batch_demo =
     fst (batch_request (demo_request ''b'' (Some [1])) (fst (batch_request (demo_request ''a'' None)
       (TaskBatch demo_start))))"

lemma batch_demo_facts:
  "ba_task_ids batch_demo = [1, 2]" "snd (batch_cancel_all batch_demo) = Return 2"
  "g_tasks (ex_graph (ba_executor batch_demo)) = [(1, 0), (2, 1)]"
  "t_id (ex_heap (ba_executor batch_demo) 0) = 1" "t_id (ex_heap (ba_executor batch_demo) (Suc 0)) = 2"
  "t_dependencies (ex_heap (ba_executor batch_demo) 0) = []"
  "t_dependencies (ex_heap (ba_executor batch_demo) (Suc 0)) = [0]"
  "t_dependents (ex_heap (ba_executor batch_demo) 0) = [1]"
  "t_dependents (ex_heap (ba_executor batch_demo) (Suc 0)) = []"
  by code_simp+

theorem batch_cancel_all_exact_witness:
  "\<not> cancellable (ba_executor (fst (batch_cancel_all batch_demo))) 1 \<and>
   \<not> cancellable (ba_executor (fst (batch_cancel_all batch_demo))) 2"
proof -
  have "batch_cancel_all batch_demo = (fst (batch_cancel_all batch_demo), Return 2)"
    by (simp add: prod_eq_iff batch_demo_facts)
  moreover have "graph_wf (ex_graph (ba_executor batch_demo))"
    by (simp add: graph_wf_def edges_ok_def batch_demo_facts)
  ultimately show ?thesis
    using batch_cancel_all_exact [of batch_demo _ 2] batch_demo_facts(1) by simp
qed

text \<open>\<open>cancel\<close> succeeds on a task that has completed: its status becomes \<open>Cancelled\<close>.\<close>

lemma completed_task_is_cancelled:
  "get_task_status 1 demo_end = Completed \<and> snd (executor_cancel 1 demo_end) = Return True \<and>
   get_task_status 1 (fst (executor_cancel 1 demo_end)) = Cancelled"
  by code_simp

text \<open>\<open>wait\<close> of a group waits for every task of the executor, also those of other clients.\<close>

lemma group_waits_for_others:
  "group_all_completed (TaskGroup 0 demo_end ''empty'') \<and> group_wait (TaskGroup 0 demo_end ''empty'') = Block"
  by code_simp

end
