(* ===== verification/Task_Chain.thy ===== *)
theory Task_Chain
  imports Executor_Clients
begin

section \<open>Task chains\<close>

text \<open>
  \<open>TaskChain\<close> of \<open>include/task_engine/task_chain.hpp\<close>: a list of steps that \<open>execute\<close> submits one after
  the other, each with a dependency on the one before. A step is a function of the input and, since a
  user function need not be pure, of the number of the attempt; the template \<open>then\<close> takes a function
  with or without an input. The CAS results and clock readings of the k-th submission are an argument.
\<close>

datatype step_function =
    TakesInput "any \<Rightarrow> nat \<Rightarrow> exn + any"
  | TakesNothing "nat \<Rightarrow> exn + any"

record task_chain =
  ch_executor :: executor
  ch_steps :: "((any \<Rightarrow> nat \<Rightarrow> exn + any) \<times> string) list"

definition TaskChain :: "executor \<Rightarrow> task_chain" where
  "TaskChain ex = \<lparr>ch_executor = ex, ch_steps = []\<rparr>"

definition chain_then :: "step_function \<Rightarrow> string \<Rightarrow> task_chain \<Rightarrow> task_chain" where
  "chain_then func name c =
     c\<lparr>ch_steps := ch_steps c @
        [(case func of TakesInput f \<Rightarrow> f | TakesNothing f \<Rightarrow> (\<lambda>input. f), name)]\<rparr>"

definition step_name :: "nat \<Rightarrow> string \<Rightarrow> string" where
  "step_name i name = (if name = [] then ''ChainStep_'' @ dec_string i else name)"

fun submit_steps ::
  "(nat \<Rightarrow> cas3 \<times> time) \<Rightarrow> nat \<Rightarrow> ((any \<Rightarrow> nat \<Rightarrow> exn + any) \<times> string) list \<Rightarrow> task_id \<Rightarrow> any \<Rightarrow>
   executor \<Rightarrow> executor \<times> task_id outcome" where
  "submit_steps inp i [] current_id current_result ex = (ex, Return current_id)"
| "submit_steps inp i ((func, name) # steps) current_id current_result ex =
     (case (if i = 0
            then submit (fst (inp i)) (snd (inp i)) (func current_result) (step_name 0 name)
                   default_options NoCallback ex
            else submit_with_dependencies (fst (inp i)) (snd (inp i)) (func AnyEmpty) [current_id]
                   (step_name i name) default_options NoCallback ex) of
        (ex, Return tid) \<Rightarrow> submit_steps inp (Suc i) steps tid current_result ex
      | (ex, Throw e) \<Rightarrow> (ex, Throw e)
      | (ex, Block) \<Rightarrow> (ex, Block)
      | (ex, Undefined) \<Rightarrow> (ex, Undefined))"

definition chain_execute ::
  "(nat \<Rightarrow> cas3 \<times> time) \<Rightarrow> any \<Rightarrow> task_chain \<Rightarrow> task_chain \<times> task_id outcome" where
  "chain_execute inp initial_input c =
     (if ch_steps c = [] then (c, Return 0)
      else (case submit_steps inp 0 (ch_steps c) 0 initial_input (ch_executor c) of
              (ex, r) \<Rightarrow> (c\<lparr>ch_executor := ex\<rparr>, r)))"

text \<open>
  The promise of \<open>execute_async\<close> is not given to anyone, so it is destroyed when the function returns,
  which stores a \<open>broken_promise\<close> error in the state that the returned future shares.
\<close>

definition chain_execute_async ::
  "(nat \<Rightarrow> cas3 \<times> time) \<Rightarrow> any \<Rightarrow> task_chain \<Rightarrow> task_chain \<times> (task_id \<times> promise_id) outcome" where
  "chain_execute_async inp initial_input c =
     (let pr = ex_next_promise (ch_executor c);
          c = c\<lparr>ch_executor := (ch_executor c)\<lparr>ex_next_promise := Suc pr,
                  ex_promises := (ex_promises (ch_executor c))(pr := Unset)\<rparr>\<rparr>;
          broken = (\<lambda>c. c\<lparr>ch_executor := (ch_executor c)\<lparr>ex_promises := (ex_promises (ch_executor c))
                       (pr := PromiseException (FutureError ''broken_promise''))\<rparr>\<rparr>)
      in case chain_execute inp initial_input c of
           (c, Return last_id) \<Rightarrow> (broken c, Return (last_id, pr))
         | (c, Throw e) \<Rightarrow> (broken c, Throw e)
         | (c, Block) \<Rightarrow> (c, Block)
         | (c, Undefined) \<Rightarrow> (c, Undefined))"

definition chain_clear :: "task_chain \<Rightarrow> task_chain" where
  "chain_clear c = c\<lparr>ch_steps := []\<rparr>"

subsection \<open>The tasks of a chain\<close>

text \<open>One submission of the loop.\<close>

definition step_submission ::
  "(nat \<Rightarrow> cas3 \<times> time) \<Rightarrow> nat \<Rightarrow> (any \<Rightarrow> nat \<Rightarrow> exn + any) \<Rightarrow> string \<Rightarrow> task_id \<Rightarrow> any \<Rightarrow> executor \<Rightarrow>
   executor \<times> task_id outcome" where
  "step_submission inp i func name current_id current_result ex =
     submit_internal (fst (inp i)) (snd (inp i)) (func (if i = 0 then current_result else AnyEmpty))
       (step_name i name)
       \<lparr>sub_dependencies = (if i = 0 then [] else [current_id]), sub_options = default_options,
        sub_callback = NoCallback\<rparr> None ex"

lemma submit_steps_Cons:
  assumes "submit_steps inp i ((func, name) # steps) cur res ex = (ex', Return tid)"
  shows "\<exists>ex1 i1. step_submission inp i func name cur res ex = (ex1, Return i1) \<and>
    submit_steps inp (Suc i) steps i1 res ex1 = (ex', Return tid)"
  using assms
  by (cases "i = 0")
    (auto simp: step_submission_def submit_def submit_with_dependencies_def
      split: prod.splits outcome.splits)

text \<open>The k-th task of the chain, when the task before the first one is \<open>prev\<close>.\<close>

definition linked ::
  "((any \<Rightarrow> nat \<Rightarrow> exn + any) \<times> string) list \<Rightarrow> nat \<Rightarrow> any \<Rightarrow> executor \<Rightarrow> executor \<Rightarrow> nat \<Rightarrow> bool" where
  "linked steps i input ex ex' k \<longleftrightarrow>
     (let t = ex_heap ex' (ex_next_ptr ex + k)
      in t_id t = ex_next_task_id ex + of_nat k \<and>
         t_func t = fst (steps ! k) (if i + k = 0 then input else AnyEmpty) \<and>
         t_name t \<noteq> [] \<and>
         t_dependencies t = (if i + k = 0 then [] else [ex_next_ptr ex + k - 1]))"

lemma step_name_ne: "step_name i name \<noteq> []"
  by (simp add: step_name_def)

lemma submit_steps_linked:
  assumes "submit_steps inp i steps cur input ex = (ex', Return tid)"
    and "0 < i \<Longrightarrow> ex_next_task_id ex = cur + 1 \<and> 0 < ex_next_ptr ex \<and>
      get_task cur (ex_graph ex) = Some (ex_next_ptr ex - 1)"
  shows "(\<forall>k < length steps. linked steps i input ex ex' k) \<and>
    (\<forall>q < ex_next_ptr ex. made_of (ex_heap ex' q) = made_of (ex_heap ex q) \<and>
       t_dependencies (ex_heap ex' q) = t_dependencies (ex_heap ex q)) \<and>
    (steps \<noteq> [] \<longrightarrow> tid = ex_next_task_id ex + of_nat (length steps - 1))"
  using assms
proof (induction steps arbitrary: i cur ex)
  case Nil
  then show ?case by simp
next
  case (Cons step steps)
  obtain func name where st: "step = (func, name)" by fastforce
  obtain ex1 i1 where one: "step_submission inp i func name cur input ex = (ex1, Return i1)"
    and rest: "submit_steps inp (Suc i) steps i1 input ex1 = (ex', Return tid)"
    using submit_steps_Cons Cons.prems(1) unfolding st by blast
  let ?p = "ex_next_ptr ex" and ?tid = "ex_next_task_id ex"
  note spec = submit_internal_spec [OF one [unfolded step_submission_def]]
  have i1: "i1 = ?tid" using spec(9) by simp
  have tid1: "?tid \<noteq> cur" if "0 < i" using Cons.prems(2) [OF that] by simp
  have known: "get_task i1 (ex_graph ex1) = Some ?p"
    by (simp add: get_task_def spec(3) i1 map_of_update)
  note IH = Cons.IH [OF rest] 
  have "ex_next_task_id ex1 = i1 + 1 \<and> 0 < ex_next_ptr ex1 \<and>
      get_task i1 (ex_graph ex1) = Some (ex_next_ptr ex1 - 1)"
    using known spec(1,2) i1 by simp
  note IH = IH [OF this]
  have deps: "t_dependencies (ex_heap ex1 ?p) = (if i = 0 then [] else [?p - 1])"
    using spec(5) Cons.prems(2) tid1
    by (auto simp: map_filter_simps get_task_def map_of_update)
  have first: "linked (step # steps) i input ex ex' 0"
    using IH spec(2,4) deps step_name_ne [of i name] unfolding linked_def Let_def
    by (auto simp: made_of_def new_task_def st)
  have later: "linked (step # steps) i input ex ex' (Suc k)" if "k < length steps" for k
    using IH that unfolding linked_def Let_def by (simp add: spec(1,2) i1)
  have "linked (step # steps) i input ex ex' k" if "k < length (step # steps)" for k
    using first later that by (cases k) simp_all
  moreover have "made_of (ex_heap ex' q) = made_of (ex_heap ex q) \<and>
      t_dependencies (ex_heap ex' q) = t_dependencies (ex_heap ex q)" if "q < ?p" for q
    using IH spec(2) spec(6,8) [of q] that by simp
  moreover have "tid = ?tid + of_nat (length steps)"
  proof (cases steps)
    case Nil
    then show ?thesis using rest i1 by simp
  next
    case (Cons s ss)
    then show ?thesis using IH by (simp add: spec(1))
  qed
  ultimately show ?case by simp
qed


definition add_one :: "any \<Rightarrow> nat \<Rightarrow> exn + any" where
  "add_one input attempt = (case input of AnyInt n \<Rightarrow> Inr (AnyInt (n + 1)) | _ \<Rightarrow> Inl (UserException 1))"

definition chain_demo :: task_chain where
  "chain_demo = chain_then (TakesInput add_one) [] (chain_then (TakesInput add_one) ''first'' (TaskChain demo_start))"


text \<open>The future of \<open>execute_async\<close> never gets the result of the chain.\<close>

lemma chain_future_broken:
  assumes "chain_execute_async inp input c = (c', Return (tid, pr))"
  shows "ex_promises (ch_executor c') pr = PromiseException (FutureError ''broken_promise'')"
  using assms by (auto simp: chain_execute_async_def Let_def split: prod.splits outcome.splits)

end
