(* ===== verification/Rate_Limiter.thy ===== *)
theory Rate_Limiter
  imports Prelude
begin

section \<open>The rate limiter\<close>

text \<open>
  \<open>RateLimiter\<close> of \<open>include/task_engine/rate_limiter.hpp\<close>: one token bucket per category, made on
  first use from the default limit. Intervals and the refill amount are counts of milliseconds, as in
  the code; elapsed time is the clock difference truncated to milliseconds. The number of tokens to
  add is converted to 64 bits and added with wrap-around, as the code does. Dividing by an interval of
  zero is undefined.
\<close>

record rate_limit =
  rl_max_tokens :: size_t
  rl_refill_interval :: int
  rl_token_refill_amount :: int

record token_bucket =
  tb_limit :: rate_limit
  tb_tokens :: size_t
  tb_last_refill :: time

record rate_limiter =
  rl_default_limit :: rate_limit
  rl_limits :: "string \<Rightarrow> rate_limit option"
  rl_buckets :: "string \<Rightarrow> token_bucket option"

definition RateLimiter :: "rate_limit \<Rightarrow> rate_limiter" where
  "RateLimiter default_limit =
     \<lparr>rl_default_limit = default_limit, rl_limits = Map.empty, rl_buckets = Map.empty\<rparr>"

definition set_limit :: "time \<Rightarrow> string \<Rightarrow> rate_limit \<Rightarrow> rate_limiter \<Rightarrow> rate_limiter" where
  "set_limit now category limit rl =
     rl\<lparr>rl_limits := (rl_limits rl)(category \<mapsto> limit),
        rl_buckets := (rl_buckets rl)(category \<mapsto>
          \<lparr>tb_limit = limit, tb_tokens = rl_max_tokens limit, tb_last_refill = now\<rparr>)\<rparr>"

definition get_bucket :: "time \<Rightarrow> string \<Rightarrow> rate_limiter \<Rightarrow> rate_limiter \<times> token_bucket" where
  "get_bucket now category rl =
     (case rl_buckets rl category of
        Some b \<Rightarrow> (rl, b)
      | None \<Rightarrow>
          (let b = \<lparr>tb_limit = rl_default_limit rl, tb_tokens = rl_max_tokens (rl_default_limit rl),
                    tb_last_refill = now\<rparr>
           in (rl\<lparr>rl_buckets := (rl_buckets rl)(category \<mapsto> b)\<rparr>, b)))"

definition refill :: "time \<Rightarrow> token_bucket \<Rightarrow> token_bucket outcome" where
  "refill now b =
     (let elapsed = trunc_div (now - tb_last_refill b) 1000000;
          interval = rl_refill_interval (tb_limit b)
      in if elapsed \<ge> interval
         then (if interval = 0 then Undefined
               else (let tokens_to_add =
                           (word_of_int (trunc_div elapsed interval * rl_token_refill_amount (tb_limit b)) :: size_t)
                     in Return (b\<lparr>tb_tokens := min (rl_max_tokens (tb_limit b)) (tb_tokens b + tokens_to_add),
                                 tb_last_refill := now\<rparr>)))
         else Return b)"

definition try_acquire ::
  "time \<Rightarrow> time \<Rightarrow> string \<Rightarrow> rate_limiter \<Rightarrow> (rate_limiter \<times> bool) outcome" where
  "try_acquire now_bucket now category rl =
     (case get_bucket now_bucket category rl of
        (rl, b) \<Rightarrow>
          (case refill now b of
             Return b \<Rightarrow>
               (if tb_tokens b > 0
                then Return (rl\<lparr>rl_buckets := (rl_buckets rl)(category \<mapsto> b\<lparr>tb_tokens := tb_tokens b - 1\<rparr>)\<rparr>, True)
                else Return (rl\<lparr>rl_buckets := (rl_buckets rl)(category \<mapsto> b)\<rparr>, False))
           | Throw e \<Rightarrow> Throw e
           | Block \<Rightarrow> Block
           | Undefined \<Rightarrow> Undefined))"

text \<open>One try for each reading of the clock; \<open>Block\<close> when the readings run out.\<close>

fun wait_for_token :: "time list \<Rightarrow> string \<Rightarrow> rate_limiter \<Rightarrow> rate_limiter outcome" where
  "wait_for_token [] category rl = Block"
| "wait_for_token (now # ts) category rl =
     (case try_acquire now now category rl of
        Return (rl', True) \<Rightarrow> Return rl'
      | Return (rl', False) \<Rightarrow> wait_for_token ts category rl'
      | Throw e \<Rightarrow> Throw e
      | Block \<Rightarrow> Block
      | Undefined \<Rightarrow> Undefined)"

subsection \<open>The bound on granted requests\<close>

text \<open>The limits for which the arithmetic stays in range until time \<open>T\<close>.\<close>

definition refills :: "token_bucket \<Rightarrow> time \<Rightarrow> int" where
  "refills b T = (T - tb_last_refill b) div (1000000 * rl_refill_interval (tb_limit b))"

definition bucket_ok :: "time \<Rightarrow> token_bucket \<Rightarrow> bool" where
  "bucket_ok T b \<longleftrightarrow> 0 < rl_refill_interval (tb_limit b) \<and> 0 \<le> rl_token_refill_amount (tb_limit b) \<and>
     tb_tokens b \<le> rl_max_tokens (tb_limit b) \<and>
     uint (rl_max_tokens (tb_limit b)) + rl_token_refill_amount (tb_limit b) * refills b T < 2 ^ 64"

definition budget :: "time \<Rightarrow> token_bucket \<Rightarrow> int" where
  "budget T b = uint (tb_tokens b) + rl_token_refill_amount (tb_limit b) * refills b T"

lemma div_add_le:
  assumes "0 < n"
  shows "(a::int) div n + b div n \<le> (a + b) div n"
proof -
  have "(a div n + b div n) * n \<le> a + b"
    using div_mult_mod_eq [of a n] div_mult_mod_eq [of b n] pos_mod_sign [OF assms, of a]
      pos_mod_sign [OF assms, of b] unfolding distrib_right by linarith
  then show ?thesis using assms zdiv_mono1 [of "(a div n + b div n) * n" "a + b" n] by simp
qed

lemma refill_law:
  assumes ok: "bucket_ok T b" and times: "tb_last_refill b \<le> now" "now \<le> T"
  shows "\<exists>b'. refill now b = Return b' \<and> bucket_ok T b' \<and> tb_limit b' = tb_limit b \<and>
    tb_last_refill b' \<le> now \<and> budget T b' \<le> budget T b"
proof -
  let ?n = "rl_refill_interval (tb_limit b)" and ?a = "rl_token_refill_amount (tb_limit b)"
  let ?d = "now - tb_last_refill b" and ?k = "refills b now"
  have n: "0 < ?n" and a: "0 \<le> ?a" using ok by (simp_all add: bucket_ok_def)
  have d: "0 \<le> ?d" using times by simp
  have ms: "trunc_div ?d 1000000 = ?d div 1000000" using d by (simp add: trunc_div_nonneg)
  show ?thesis
  proof (cases "?d div 1000000 \<ge> ?n")
    case False
    then have "refill now b = Return b" by (simp add: refill_def Let_def ms)
    with ok times show ?thesis by auto
  next
    case True
    have k: "trunc_div (?d div 1000000) ?n = ?k"
      using d n by (simp add: trunc_div_nonneg pos_imp_zdiv_nonneg_iff refills_def zdiv_zmult2_eq)
    have k0: "0 \<le> ?k" using d n by (simp add: refills_def pos_imp_zdiv_nonneg_iff)
    let ?add = "word_of_int (?k * ?a) :: size_t"
    let ?b = "b\<lparr>tb_tokens := min (rl_max_tokens (tb_limit b)) (tb_tokens b + ?add), tb_last_refill := now\<rparr>"
    have run: "refill now b = Return ?b"
      using True n by (simp add: refill_def Let_def ms k)
    have split: "?k + refills ?b T \<le> refills b T"
      using div_add_le [of "1000000 * ?n" ?d "T - now"] n by (simp add: refills_def)
    have r0: "0 \<le> refills ?b T" using times n by (simp add: refills_def pos_imp_zdiv_nonneg_iff)
    have mono: "?a * ?k + ?a * refills ?b T \<le> ?a * refills b T"
      using mult_left_mono [OF split a] by (simp add: distrib_left)
    have ar0: "0 \<le> ?a * refills ?b T" using a r0 by simp
    have le: "uint (tb_tokens b) \<le> uint (rl_max_tokens (tb_limit b))"
      using ok by (simp add: bucket_ok_def word_le_def)
    have big: "uint (rl_max_tokens (tb_limit b)) + ?a * refills b T < 2 ^ 64"
      using ok by (simp add: bucket_ok_def)
    have small: "0 \<le> ?k * ?a" "uint (tb_tokens b) + ?k * ?a < 2 ^ 64"
      using k0 a mono ar0 le big by (simp_all add: mult.commute)
    have "?k * ?a < 2 ^ 64" using small(2) uint_nonnegative [of "tb_tokens b"] by linarith
    with small(1) have "uint ?add = ?k * ?a" by (rule uint_of_int64)
    then have sum: "uint (tb_tokens b + ?add) = uint (tb_tokens b) + ?k * ?a"
      using small(2) small(1) by (simp add: uint_word_ariths)
    have "uint (tb_tokens ?b) \<le> uint (tb_tokens b + ?add)"
      by (simp add: min_def word_le_def)
    then have "budget T ?b \<le> budget T b"
      using sum mono by (simp add: budget_def mult.commute refills_def)
    moreover have "bucket_ok T ?b"
      using n a big mono small(1) by (simp add: bucket_ok_def refills_def mult.commute)
    ultimately show ?thesis using run by simp
  qed
qed


fun acquire_run :: "time list \<Rightarrow> string \<Rightarrow> rate_limiter \<Rightarrow> (rate_limiter \<times> bool list) outcome" where
  "acquire_run [] category rl = Return (rl, [])"
| "acquire_run (now # ts) category rl =
     (case try_acquire now now category rl of
        Return (rl', g) \<Rightarrow>
          (case acquire_run ts category rl' of
             Return (rl'', gs) \<Rightarrow> Return (rl'', g # gs)
           | other \<Rightarrow> other)
      | Throw e \<Rightarrow> Throw e
      | Block \<Rightarrow> Block
      | Undefined \<Rightarrow> Undefined)"

lemma try_acquire_law:
  assumes b: "rl_buckets rl category = Some b" and ok: "bucket_ok T b"
    and times: "tb_last_refill b \<le> now" "now \<le> T"
  shows "\<exists>rl' b' g. try_acquire now0 now category rl = Return (rl', g) \<and>
    rl' = rl\<lparr>rl_buckets := (rl_buckets rl)(category \<mapsto> b')\<rparr> \<and> bucket_ok T b' \<and>
    tb_last_refill b' \<le> now \<and> budget T b' + (if g then 1 else 0) \<le> budget T b"
proof -
  obtain b1 where one: "refill now b = Return b1" "bucket_ok T b1" "tb_last_refill b1 \<le> now"
    "budget T b1 \<le> budget T b" using refill_law [OF ok times] by blast
  show ?thesis
  proof (cases "tb_tokens b1 > 0")
    case True
    let ?b = "b1\<lparr>tb_tokens := tb_tokens b1 - 1\<rparr>"
    have "uint (tb_tokens ?b) = uint (tb_tokens b1) - 1" using uint_pred [OF True] by simp
    then have "budget T ?b + 1 = budget T b1" "bucket_ok T ?b"
      using one(2) by (simp_all add: budget_def bucket_ok_def refills_def word_le_def)
    with one True b show ?thesis
      by (intro exI [of _ "rl\<lparr>rl_buckets := (rl_buckets rl)(category \<mapsto> ?b)\<rparr>"] exI [of _ ?b] exI [of _ True])
        (simp add: try_acquire_def get_bucket_def)
  next
    case False
    with one b show ?thesis
      by (intro exI [of _ "rl\<lparr>rl_buckets := (rl_buckets rl)(category \<mapsto> b1)\<rparr>"] exI [of _ b1] exI [of _ False])
        (simp add: try_acquire_def get_bucket_def)
  qed
qed

lemma budget_nonneg: "bucket_ok T b \<Longrightarrow> tb_last_refill b \<le> T \<Longrightarrow> 0 \<le> budget T b"
  by (simp add: budget_def bucket_ok_def refills_def pos_imp_zdiv_nonneg_iff)

text \<open>C23. The limiter limits the rate. For any requests of one category at times that do not go back,
  up to time \<open>T\<close>, at most as many are granted as there were tokens in the bucket plus
  \<open>token_refill_amount\<close> for each whole refill interval since its last refill; every request gets an
  answer, and the buckets of other categories are untouched.\<close>

theorem rate_limit_bound:
  assumes "rl_buckets rl category = Some b" and "bucket_ok T b"
    and "sorted (tb_last_refill b # ts)" and "\<forall>t \<in> set ts. t \<le> T" and "tb_last_refill b \<le> T"
  shows "\<exists>rl' gs. acquire_run ts category rl = Return (rl', gs) \<and> length gs = length ts \<and>
    int (length (filter (\<lambda>g. g) gs)) \<le> uint (tb_tokens b) +
      rl_token_refill_amount (tb_limit b) *
        ((T - tb_last_refill b) div (1000000 * rl_refill_interval (tb_limit b))) \<and>
    (\<forall>c. c \<noteq> category \<longrightarrow> rl_buckets rl' c = rl_buckets rl c)"
  unfolding refills_def [symmetric] budget_def [symmetric]
  using assms
proof (induction ts arbitrary: rl b)
  case Nil
  then show ?case using budget_nonneg by simp
next
  case (Cons now ts)
  have now: "tb_last_refill b \<le> now" "now \<le> T" using Cons.prems(3,4) by simp_all
  obtain rl1 b1 g where step: "try_acquire now now category rl = Return (rl1, g)"
    and rl1: "rl1 = rl\<lparr>rl_buckets := (rl_buckets rl)(category \<mapsto> b1)\<rparr>"
    and b1: "bucket_ok T b1" "tb_last_refill b1 \<le> now" "budget T b1 + (if g then 1 else 0) \<le> budget T b"
    using try_acquire_law [OF Cons.prems(1,2) now] by blast
  have "sorted (tb_last_refill b1 # ts)" using b1(2) Cons.prems(3) by auto
  moreover have "\<forall>t \<in> set ts. t \<le> T" "tb_last_refill b1 \<le> T" using Cons.prems(4) b1(2) now by auto
  ultimately obtain rl2 gs where rest: "acquire_run ts category rl1 = Return (rl2, gs)"
    "length gs = length ts" "int (length (filter (\<lambda>g. g) gs)) \<le> budget T b1"
    "\<forall>c. c \<noteq> category \<longrightarrow> rl_buckets rl2 c = rl_buckets rl1 c"
    using Cons.IH [of rl1 b1] b1(1) by (auto simp: rl1)
  show ?case
    using b1(3) rest by (auto simp: step rl1)
qed

definition tight_limit :: rate_limit where
  "tight_limit = \<lparr>rl_max_tokens = 2, rl_refill_interval = 1000, rl_token_refill_amount = 1\<rparr>"

theorem rate_limit_bound_witness:
  "\<exists>rl gs. acquire_run [0, 0, 0, 1000000000, 1500000000] ''api''
      (set_limit 0 ''api'' tight_limit (RateLimiter tight_limit)) = Return (rl, gs) \<and>
    length gs = 5 \<and> length (filter (\<lambda>g. g) gs) \<le> 3"
proof -
  let ?b = "\<lparr>tb_limit = tight_limit, tb_tokens = 2, tb_last_refill = 0\<rparr>"
  have b: "rl_buckets (set_limit 0 ''api'' tight_limit (RateLimiter tight_limit)) ''api'' = Some ?b"
    by (simp add: set_limit_def tight_limit_def)
  have ok: "bucket_ok 1500000000 ?b" by (simp add: bucket_ok_def tight_limit_def refills_def)
  from rate_limit_bound [OF b ok, of "[0, 0, 0, 1000000000, 1500000000]"] show ?thesis
    by (auto simp: tight_limit_def)
qed

text \<open>A limit with no interval: the first request is undefined behaviour (a division by zero).\<close>

lemma zero_interval_undefined:
  assumes "rl_refill_interval limit = 0" and "now \<le> now'"
  shows "try_acquire now0 now' category (set_limit now category limit rl) = Undefined"
  using assms by (simp add: try_acquire_def set_limit_def get_bucket_def refill_def Let_def trunc_div_nonneg
      pos_imp_zdiv_nonneg_iff)

end
