(* ===== verification/Task_Cache.thy ===== *)
theory Task_Cache
  imports Prelude
begin

section \<open>The result cache\<close>

text \<open>
  \<open>TaskResultCache\<close> of \<open>include/task_engine/task_cache.hpp\<close>: a map from keys to results with an expiry
  time, in nanoseconds here; time-to-live values are counts of milliseconds. An expired entry is
  erased when it is looked up or by \<open>cleanup_expired\<close>.
\<close>

record cache_entry =
  ce_result :: any
  ce_expiry :: time

record 'k cache =
  ca_cache :: "('k \<times> cache_entry) list"
  ca_default_ttl :: int

definition TaskResultCache :: "int \<Rightarrow> 'k cache" where
  "TaskResultCache default_ttl = \<lparr>ca_cache = [], ca_default_ttl = default_ttl\<rparr>"

definition cache_put :: "time \<Rightarrow> 'k \<Rightarrow> any \<Rightarrow> int option \<Rightarrow> 'k cache \<Rightarrow> 'k cache" where
  "cache_put now key result ttl c =
     (let expiry = now + (case ttl of Some t \<Rightarrow> t | None \<Rightarrow> ca_default_ttl c) * 1000000
      in c\<lparr>ca_cache := AList.update key \<lparr>ce_result = result, ce_expiry = expiry\<rparr> (ca_cache c)\<rparr>)"

definition cache_get :: "time \<Rightarrow> 'k \<Rightarrow> 'k cache \<Rightarrow> 'k cache \<times> any option" where
  "cache_get now key c =
     (case map_of (ca_cache c) key of
        None \<Rightarrow> (c, None)
      | Some e \<Rightarrow>
          (if now > ce_expiry e then (c\<lparr>ca_cache := AList.delete key (ca_cache c)\<rparr>, None)
           else (c, Some (ce_result e))))"

definition cache_contains :: "time \<Rightarrow> 'k \<Rightarrow> 'k cache \<Rightarrow> 'k cache \<times> bool" where
  "cache_contains now key c = (case cache_get now key c of (c', r) \<Rightarrow> (c', r \<noteq> None))"

definition cache_remove :: "'k \<Rightarrow> 'k cache \<Rightarrow> 'k cache" where
  "cache_remove key c = c\<lparr>ca_cache := AList.delete key (ca_cache c)\<rparr>"

definition cleanup_expired :: "time \<Rightarrow> 'k cache \<Rightarrow> 'k cache" where
  "cleanup_expired now c = c\<lparr>ca_cache := filter (\<lambda>(k, e). \<not> now > ce_expiry e) (ca_cache c)\<rparr>"

definition cache_clear :: "'k cache \<Rightarrow> 'k cache" where
  "cache_clear c = c\<lparr>ca_cache := []\<rparr>"

definition cache_size :: "'k cache \<Rightarrow> size_t" where
  "cache_size c = of_nat (length (ca_cache c))"

subsection \<open>The cache as a map in time\<close>

datatype 'k cache_op =
    CPut time 'k any "int option"
  | CGet time 'k
  | CContains time 'k
  | CRemove 'k
  | CCleanup time
  | CClear

fun cache_step :: "'k cache_op \<Rightarrow> 'k cache \<Rightarrow> 'k cache" where
  "cache_step (CPut now k r ttl) c = cache_put now k r ttl c"
| "cache_step (CGet now k) c = fst (cache_get now k c)"
| "cache_step (CContains now k) c = fst (cache_contains now k c)"
| "cache_step (CRemove k) c = cache_remove k c"
| "cache_step (CCleanup now) c = cleanup_expired now c"
| "cache_step CClear c = cache_clear c"

text \<open>The specification: the last \<open>put\<close> of a key since it was removed, never erased when it expires.\<close>

fun spec_step :: "int \<Rightarrow> 'k cache_op \<Rightarrow> ('k \<Rightarrow> cache_entry option) \<Rightarrow> 'k \<Rightarrow> cache_entry option" where
  "spec_step d (CPut now k r ttl) m =
     m(k \<mapsto> \<lparr>ce_result = r, ce_expiry = now + (case ttl of Some t \<Rightarrow> t | None \<Rightarrow> d) * 1000000\<rparr>)"
| "spec_step d (CRemove k) m = m(k := None)"
| "spec_step d CClear m = Map.empty"
| "spec_step d _ m = m"

fun op_time :: "'k cache_op \<Rightarrow> time option" where
  "op_time (CPut now k r ttl) = Some now"
| "op_time (CGet now k) = Some now"
| "op_time (CContains now k) = Some now"
| "op_time (CCleanup now) = Some now"
| "op_time _ = None"

definition fresh_at :: "time \<Rightarrow> cache_entry option \<Rightarrow> cache_entry option" where
  "fresh_at now e = (case e of Some x \<Rightarrow> if now > ce_expiry x then None else Some x | None \<Rightarrow> None)"

lemma fresh_at_later: "now \<le> now' \<Longrightarrow> fresh_at now' (fresh_at now e) = fresh_at now' e"
  by (auto simp: fresh_at_def split: option.splits)

lemma fresh_at_same: "fresh_at now (fresh_at now e) = fresh_at now e"
  by (rule fresh_at_later) simp

lemma map_of_filter_fresh:
  "distinct (map fst al) \<Longrightarrow>
   map_of (filter (\<lambda>(k, e). \<not> now > ce_expiry e) al) key = fresh_at now (map_of al key)"
proof (induction al)
  case Nil
  then show ?case by (simp add: fresh_at_def)
next
  case (Cons x al)
  have "map_of (filter (\<lambda>(k, e). \<not> now > ce_expiry e) al) (fst x) = None"
    using Cons.prems by (auto simp: map_of_eq_None_iff)
  with Cons show ?case by (cases x) (auto simp: fresh_at_def)
qed

lemma cache_step_refines:
  assumes dist: "distinct (map fst (ca_cache c))" and ttl: "ca_default_ttl c = d"
    and agree: "\<And>k now. T \<le> now \<Longrightarrow> fresh_at now (map_of (ca_cache c) k) = fresh_at now (m k)"
    and time: "\<And>t. op_time op = Some t \<Longrightarrow> t \<le> T"
  shows "distinct (map fst (ca_cache (cache_step op c))) \<and> ca_default_ttl (cache_step op c) = d \<and>
    (\<forall>k now. T \<le> now \<longrightarrow>
      fresh_at now (map_of (ca_cache (cache_step op c)) k) = fresh_at now (spec_step d op m k))"
proof -
  have get: "distinct (map fst (ca_cache (fst (cache_get t k c)))) \<and>
      ca_default_ttl (fst (cache_get t k c)) = d \<and>
      (\<forall>k' now. t \<le> now \<longrightarrow> fresh_at now (map_of (ca_cache (fst (cache_get t k c))) k') =
        fresh_at now (map_of (ca_cache c) k'))" for t k
    using dist ttl
    by (auto simp: cache_get_def map_of_delete distinct_map_fst_delete fresh_at_def split: option.splits)
  show ?thesis
  proof (cases op)
    case (CPut now k r ttl')
    then show ?thesis
      using dist ttl agree
      by (auto simp: cache_put_def Let_def map_of_update distinct_map_fst_update split: option.splits)
  next
    case (CGet t k)
    then show ?thesis using get [of t k] agree time by auto
  next
    case (CContains t k)
    then have "cache_step op c = fst (cache_get t k c)"
      by (simp add: cache_contains_def split: prod.splits)
    then show ?thesis using get [of t k] agree time CContains by auto
  next
    case (CRemove k)
    then show ?thesis
      using dist ttl agree by (simp add: cache_remove_def map_of_delete distinct_map_fst_delete)
  next
    case (CCleanup t)
    then have "t \<le> T" using time by simp
    with CCleanup show ?thesis
      using dist ttl agree fresh_at_later [of t]
      by (auto simp: cleanup_expired_def map_of_filter_fresh [OF dist] distinct_map_filter)
  next
    case CClear
    then show ?thesis using ttl by (simp add: cache_clear_def)
  qed
qed

lemma cache_run_refines:
  assumes "distinct (map fst (ca_cache c))" and "ca_default_ttl c = d"
    and "\<And>k now. T \<le> now \<Longrightarrow> fresh_at now (map_of (ca_cache c) k) = fresh_at now (m k)"
    and "\<forall>op \<in> set ops. \<forall>t. op_time op = Some t \<longrightarrow> t \<le> T"
  shows "\<forall>k now. T \<le> now \<longrightarrow> fresh_at now (map_of (ca_cache (fold cache_step ops c)) k) =
    fresh_at now (fold (spec_step d) ops m k)"
  using assms
proof (induction ops arbitrary: c m)
  case Nil
  then show ?case by simp
next
  case (Cons op ops)
  have "\<And>t. op_time op = Some t \<Longrightarrow> t \<le> T" using Cons.prems(4) by simp
  note law = cache_step_refines [OF Cons.prems(1-3) this]
  show ?case
    using law Cons.prems(4) by (simp add: Cons.IH [of "cache_step op c" "spec_step d op m"])
qed

lemma cache_get_fresh: "snd (cache_get now k c) = map_option ce_result (fresh_at now (map_of (ca_cache c) k))"
  by (simp add: cache_get_def fresh_at_def split: option.splits)

text \<open>C24. The cache is a map with expiry. After any operations at times up to \<open>T\<close>, a lookup at a time
  from \<open>T\<close> on returns the result last put under the key since it was last removed, if its time to
  live has not run out by then, and nothing otherwise: erasing expired entries, on lookup or by a
  cleanup, is never visible.\<close>

theorem cache_refines_map:
  assumes "\<forall>op \<in> set ops. \<forall>t. op_time op = Some t \<longrightarrow> t \<le> T" and "T \<le> now"
  shows "snd (cache_get now k (fold cache_step ops (TaskResultCache d))) =
    (case fold (spec_step d) ops Map.empty k of
       Some e \<Rightarrow> if now \<le> ce_expiry e then Some (ce_result e) else None
     | None \<Rightarrow> None)"
proof -
  have "fresh_at now (map_of (ca_cache (fold cache_step ops (TaskResultCache d))) k) =
      fresh_at now (fold (spec_step d) ops Map.empty k)"
    using cache_run_refines [of "TaskResultCache d" d T Map.empty ops] assms
    by (simp add: TaskResultCache_def)
  then show ?thesis
    by (auto simp: cache_get_fresh fresh_at_def split: option.splits)
qed

theorem cache_refines_map_witness:
  "snd (cache_get 2000000 ''k'' (fold cache_step
      [CPut 0 ''k'' (AnyInt 1) (Some 5), CPut 1 ''j'' (AnyInt 2) (Some 1), CCleanup 2000000]
      (TaskResultCache 300000))) = Some (AnyInt 1)"
  by (subst cache_refines_map [where T = 2000000]) simp_all

end

