(* ===== verification/Config.thy ===== *)
theory Config
  imports Prelude
begin

section \<open>Configuration\<close>

text \<open>
  \<open>Config\<close> of \<open>include/task_engine/config.hpp\<close>. A file is its content, or \<open>None\<close> when it cannot be
  opened (the stream then yields no lines). \<open>std::stoi\<close> is modelled as the C++ standard describes it for
  base 10: leading white space, an optional sign, as many digits as there are, the rest ignored; it
  throws when there is no digit or the value does not fit a 32-bit \<open>int\<close>. A \<open>double\<close> and
  the functions \<open>std::stod\<close> and \<open>std::to_string\<close> on it are parameters.
\<close>

type_synonym config = "(string \<times> string) list"

definition config_set :: "string \<Rightarrow> string \<Rightarrow> config \<Rightarrow> config" where
  "config_set key value c = AList.update key value c"

definition config_get :: "string \<Rightarrow> string \<Rightarrow> config \<Rightarrow> string" where
  "config_get key default_value c =
     (case map_of c key of Some value \<Rightarrow> value | None \<Rightarrow> default_value)"

definition config_has :: "string \<Rightarrow> config \<Rightarrow> bool" where
  "config_has key c \<longleftrightarrow> map_of c key \<noteq> None"

definition config_keys :: "config \<Rightarrow> string list" where
  "config_keys c = map fst c"

definition config_clear :: "config \<Rightarrow> config" where
  "config_clear c = []"

subsection \<open>Loading\<close>

text \<open>\<open>std::getline\<close> until it fails: a last line without a newline counts, an empty rest does not.\<close>

fun split_lines :: "string \<Rightarrow> string \<Rightarrow> string list" where
  "split_lines acc [] = (if acc = [] then [] else [rev acc])"
| "split_lines acc (c # s) =
     (if c = newline then rev acc # split_lines [] s else split_lines (c # acc) s)"

definition is_blank :: "char \<Rightarrow> bool" where
  "is_blank c \<longleftrightarrow> c = CHR '' '' \<or> c = CHR 0x09"

definition trim :: "string \<Rightarrow> string" where
  "trim s = rev (dropWhile is_blank (rev (dropWhile is_blank s)))"

definition parse_line :: "string \<Rightarrow> (string \<times> string) option" where
  "parse_line line =
     (if line = [] \<or> hd line = CHR ''#'' then None
      else if CHR ''='' \<notin> set line then None
      else Some (trim (takeWhile (\<lambda>c. c \<noteq> CHR ''='') line),
                 trim (tl (dropWhile (\<lambda>c. c \<noteq> CHR ''='') line))))"

definition load_line :: "string \<Rightarrow> config \<Rightarrow> config" where
  "load_line line c = (case parse_line line of Some (key, value) \<Rightarrow> config_set key value c | None \<Rightarrow> c)"

definition load_from_file :: "string option \<Rightarrow> config" where
  "load_from_file file =
     fold load_line (case file of Some content \<Rightarrow> split_lines [] content | None \<Rightarrow> []) []"

subsection \<open>Typed values\<close>

definition int_string :: "int \<Rightarrow> string" where
  "int_string i = (if i < 0 then CHR ''-'' # dec_string (nat (- i)) else dec_string (nat i))"

definition is_space :: "char \<Rightarrow> bool" where
  "is_space c \<longleftrightarrow> c = CHR '' '' \<or> (0x09 \<le> (of_char c :: nat) \<and> of_char c \<le> (0x0D :: nat))"

definition stoi :: "string \<Rightarrow> exn + int" where
  "stoi s =
     (let s = dropWhile is_space s;
          negative = (s \<noteq> [] \<and> hd s = CHR ''-'');
          s = (if s \<noteq> [] \<and> hd s \<in> {CHR ''+'', CHR ''-''} then tl s else s);
          ds = takeWhile is_digit s;
          v = (if negative then - int (digits_value ds) else int (digits_value ds))
      in if ds = [] then Inl (InvalidArgument ''stoi'')
         else if v < - (2 ^ 31) \<or> 2 ^ 31 \<le> v then Inl OutOfRange
         else Inr v)"

definition get_int :: "string \<Rightarrow> int \<Rightarrow> config \<Rightarrow> int" where
  "get_int key default_value c =
     (case stoi (config_get key (int_string default_value) c) of Inr v \<Rightarrow> v | Inl e \<Rightarrow> default_value)"

text \<open>\<open>parse\<close> is \<open>std::stod\<close> and \<open>put\<close> is \<open>std::to_string\<close>, which keeps six decimals.\<close>

definition get_double :: "(string \<Rightarrow> exn + 'd) \<Rightarrow> ('d \<Rightarrow> string) \<Rightarrow> string \<Rightarrow> 'd \<Rightarrow> config \<Rightarrow> 'd" where
  "get_double parse put key default_value c =
     (case parse (config_get key (put default_value) c) of Inr v \<Rightarrow> v | Inl e \<Rightarrow> default_value)"

definition get_bool :: "string \<Rightarrow> bool \<Rightarrow> config \<Rightarrow> bool" where
  "get_bool key default_value c =
     (let value = config_get key [] c
      in if value \<in> {''true'', ''1'', ''yes''} then True
         else if value \<in> {''false'', ''0'', ''no''} then False
         else default_value)"

subsection \<open>Numerals\<close>

lemma digit_not_special:
  "is_digit c \<Longrightarrow> \<not> is_space c \<and> c \<noteq> CHR ''-'' \<and> c \<noteq> CHR ''+''"
  by (auto simp: is_digit_def is_space_def)

lemma stoi_int_string:
  assumes "rest = [] \<or> \<not> is_digit (hd rest)"
  shows "stoi (int_string i @ rest) = (if - (2 ^ 31) \<le> i \<and> i < 2 ^ 31 then Inr i else Inl OutOfRange)"
proof -
  let ?ds = "dec_string (nat \<bar>i\<bar>)"
  have tw: "takeWhile is_digit (?ds @ rest) = ?ds"
    using dec_string_digits assms by (cases rest) (auto simp: takeWhile_append2 takeWhile_tail)
  obtain d ds where ds: "?ds = d # ds" using dec_string_ne by (cases ?ds) auto
  have d: "is_digit d" using dec_string_digits [of "nat \<bar>i\<bar>"] by (simp add: ds)
  note special = digit_not_special [OF d]
  have val: "digits_value (d # ds) = nat \<bar>i\<bar>" using digits_value_dec [of "nat \<bar>i\<bar>"] by (simp add: ds)
  have "\<not> is_space (CHR ''-'')" by (simp add: is_space_def)
  moreover have "int (nat \<bar>i\<bar>) = \<bar>i\<bar>" by simp
  ultimately show ?thesis
    using special tw [unfolded ds] val ds
    by (cases "i < 0") (simp_all add: stoi_def int_string_def)
qed

subsection \<open>Lines\<close>

text \<open>A line \<open>key = value\<close> with blanks around the key and the value.\<close>

record config_entry =
  en_before :: string
  en_key :: string
  en_after :: string
  en_before_value :: string
  en_value :: string
  en_after_value :: string

definition entry_line :: "config_entry \<Rightarrow> string" where
  "entry_line e =
     en_before e @ en_key e @ en_after e @ CHR ''='' # en_before_value e @ en_value e @ en_after_value e"

definition print_entries :: "config_entry list \<Rightarrow> string" where
  "print_entries es = concat (map (\<lambda>e. entry_line e @ [newline]) es)"

definition trimmed :: "string \<Rightarrow> bool" where
  "trimmed s \<longleftrightarrow> s = [] \<or> \<not> is_blank (hd s) \<and> \<not> is_blank (last s)"

definition clean_entry :: "config_entry \<Rightarrow> bool" where
  "clean_entry e \<longleftrightarrow>
     (\<forall>c \<in> set (en_before e @ en_after e @ en_before_value e @ en_after_value e). is_blank c) \<and>
     trimmed (en_key e) \<and> trimmed (en_value e) \<and>
     CHR ''='' \<notin> set (en_key e) \<and> newline \<notin> set (en_key e) \<and> newline \<notin> set (en_value e) \<and>
     hd (en_key e @ ''='') \<noteq> CHR ''#''"

lemma split_lines_line:
  "newline \<notin> set l \<Longrightarrow> split_lines acc (l @ newline # s) = (rev acc @ l) # split_lines [] s"
  by (induction l arbitrary: acc) auto

lemma split_print:
  assumes "\<forall>e \<in> set es. newline \<notin> set (entry_line e)"
  shows "split_lines [] (print_entries es) = map entry_line es"
  using assms by (induction es) (simp_all add: print_entries_def split_lines_line)

lemma drop_blanks: "\<forall>c \<in> set b. is_blank c \<Longrightarrow> dropWhile is_blank (b @ s) = dropWhile is_blank s"
  by (induction b) simp_all

lemma trim_blanks:
  assumes "\<forall>c \<in> set b1. is_blank c" and "\<forall>c \<in> set b2. is_blank c" and "trimmed s"
  shows "trim (b1 @ s @ b2) = s"
proof (cases "s = []")
  case True
  have "dropWhile is_blank (b1 @ b2) = []" using assms(1,2) by (auto simp: dropWhile_eq_Nil_conv)
  then show ?thesis by (simp only: trim_def True append_Nil rev.simps dropWhile.simps)
next
  case False
  then have "\<not> is_blank (hd s)" "\<not> is_blank (hd (rev s))"
    using assms(3) by (simp_all add: trimmed_def hd_rev)
  then have one: "dropWhile is_blank (s @ b2) = s @ b2" and two: "dropWhile is_blank (rev s) = rev s"
    using False by (metis append_Cons dropWhile.simps(2) list.collapse rev_is_Nil_conv)+
  show ?thesis
    using assms(1,2) by (simp add: trim_def drop_blanks one) (simp add: drop_blanks two)
qed

lemma blank_not_special: "is_blank c \<Longrightarrow> c \<noteq> CHR ''='' \<and> c \<noteq> CHR ''#'' \<and> c \<noteq> newline"
  by (auto simp: is_blank_def newline_def)

lemma entry_no_newline: "clean_entry e \<Longrightarrow> newline \<notin> set (entry_line e)"
  using blank_not_special by (auto simp: clean_entry_def entry_line_def newline_def)

lemma parse_entry:
  assumes "clean_entry e"
  shows "parse_line (entry_line e) = Some (en_key e, en_value e)"
proof -
  let ?l = "en_before e @ en_key e @ en_after e" and ?r = "en_before_value e @ en_value e @ en_after_value e"
  have line: "entry_line e = ?l @ CHR ''='' # ?r" by (simp add: entry_line_def)
  have no_eq: "\<forall>c \<in> set ?l. c \<noteq> CHR ''=''"
    using assms blank_not_special by (auto simp: clean_entry_def)
  have hd: "hd (entry_line e) \<noteq> CHR ''#''"
    using assms blank_not_special
    by (cases "en_before e"; cases "en_key e"; cases "en_after e")
      (auto simp: clean_entry_def entry_line_def)
  have "takeWhile (\<lambda>c. c \<noteq> CHR ''='') (entry_line e) = ?l"
    unfolding line using no_eq by (subst takeWhile_append2) auto
  moreover have "dropWhile (\<lambda>c. c \<noteq> CHR ''='') (entry_line e) = CHR ''='' # ?r"
    unfolding line using no_eq by (subst dropWhile_append2) auto
  moreover have "trim ?l = en_key e" "trim ?r = en_value e"
    using assms by (auto intro!: trim_blanks simp: clean_entry_def)
  ultimately show ?thesis using hd by (auto simp: parse_line_def line)
qed

lemma load_entries:
  assumes "\<forall>e \<in> set es. clean_entry e"
  shows "map_of (fold load_line (map entry_line es) c) =
    map_of c ++ map_of (rev (map (\<lambda>e. (en_key e, en_value e)) es))"
  using assms
proof (induction es arbitrary: c)
  case Nil
  then show ?case by simp
next
  case (Cons e es)
  have "load_line (entry_line e) c = config_set (en_key e) (en_value e) c"
    using Cons.prems by (simp add: load_line_def parse_entry)
  with Cons show ?case by (simp add: config_set_def map_of_update)
qed

text \<open>C38. Loading reads back what was written: for a file of lines \<open>key = value\<close>, with any blanks
  around keys and values, a lookup returns the last value written for the key, and the default for a
  key that was not written.\<close>

theorem load_round_trip:
  assumes "\<forall>e \<in> set es. clean_entry e"
  shows "config_get key d (load_from_file (Some (print_entries es))) =
    (case map_of (rev (map (\<lambda>e. (en_key e, en_value e)) es)) key of Some v \<Rightarrow> v | None \<Rightarrow> d)"
proof -
  have "split_lines [] (print_entries es) = map entry_line es"
    using assms entry_no_newline by (intro split_print) blast
  then show ?thesis
    using load_entries [OF assms, of "[]"] by (simp add: load_from_file_def config_get_def)
qed

definition config_demo :: "config_entry list" where
  "config_demo =
     [\<lparr>en_before = [], en_key = ''threads'', en_after = '' '', en_before_value = '' '', en_value = ''4'',
       en_after_value = []\<rparr>,
      \<lparr>en_before = '' '', en_key = ''threads'', en_after = [], en_before_value = [], en_value = ''8 cores'',
       en_after_value = '' ''\<rparr>]"

theorem load_round_trip_witness:
  "config_get ''threads'' [] (load_from_file (Some (print_entries config_demo))) = ''8 cores''"
proof -
  have "\<forall>e \<in> set config_demo. clean_entry e" by code_simp
  from load_round_trip [OF this] show ?thesis by (simp add: config_demo_def)
qed

text \<open>Integers are read back: \<open>get_int\<close> returns the integer whose decimal form is stored under the
  key when it fits 32 bits, whatever follows the digits, and the default when it does not fit or the
  key is not set.\<close>

theorem get_int_round_trip:
  assumes "rest = [] \<or> \<not> is_digit (hd rest)"
  shows "get_int key d (config_set key (int_string i @ rest) c) =
      (if - (2 ^ 31) \<le> i \<and> i < 2 ^ 31 then i else d) \<and>
    (\<not> config_has key c \<longrightarrow> get_int key d c = d)"
  using stoi_int_string [OF assms] stoi_int_string [of "[]" d]
  by (simp add: get_int_def config_get_def config_set_def config_has_def map_of_update)

theorem get_int_round_trip_witness:
  "get_int ''threads'' 1 (config_set ''threads'' (int_string (- 42) @ '' x'') []) = - 42"
proof -
  have "\<not> is_digit (hd '' x'')" by code_simp
  then show ?thesis using get_int_round_trip [of "'' x''"] by simp
qed

text \<open>A missing key gives the default value as it is after printing and parsing, not as it was passed.\<close>

lemma get_double_missing:
  assumes "\<not> config_has key c" and "parse (put d) = Inr d'"
  shows "get_double parse put key d c = d'"
  using assms by (simp add: get_double_def config_has_def config_get_def)

end
