(* ===== verification/Metrics_Exporter.thy ===== *)
theory Metrics_Exporter
  imports Performance_Monitor
begin

section \<open>The metrics exporter\<close>

text \<open>
  \<open>MetricsExporter\<close> of \<open>include/task_engine/metrics_exporter.hpp\<close>: a snapshot printed as JSON, in the
  Prometheus format and as CSV. All values are unsigned integers, which a stream prints in decimal
  (the precision that \<open>to_json\<close> sets concerns floating-point values only).
\<close>

definition quote :: string where "quote = [CHR 0x22]"

definition json_field :: "string \<Rightarrow> u64 \<Rightarrow> string \<Rightarrow> string" where
  "json_field name v sep = ''  '' @ quote @ name @ quote @ '': '' @ to_string v @ sep @ [newline]"

definition to_json :: "metrics_snapshot \<Rightarrow> string" where
  "to_json m =
     ''{'' @ [newline] @
     json_field ''tasks_submitted'' (tasks_submitted m) '','' @
     json_field ''tasks_completed'' (tasks_completed m) '','' @
     json_field ''tasks_failed'' (tasks_failed m) '','' @
     json_field ''tasks_retried'' (tasks_retried m) '','' @
     json_field ''tasks_cancelled'' (tasks_cancelled m) '','' @
     json_field ''total_execution_time_us'' (total_execution_time_us m) '','' @
     json_field ''max_execution_time_us'' (max_execution_time_us m) '','' @
     json_field ''min_execution_time_us'' (min_execution_time_us m) '','' @
     json_field ''total_queue_wait_time_us'' (total_queue_wait_time_us m) '','' @
     json_field ''inflight_tasks'' (inflight_tasks m) '','' @
     json_field ''peak_inflight'' (peak_inflight m) [] @
     ''}''"

definition prometheus_metric ::
  "string \<Rightarrow> string \<Rightarrow> string \<Rightarrow> string \<Rightarrow> u64 \<Rightarrow> string \<Rightarrow> string" where
  "prometheus_metric label name help kind v ending =
     ''# HELP '' @ label @ name @ help @ [newline] @
     ''# TYPE '' @ label @ name @ kind @ [newline] @
     label @ name @ '' '' @ to_string v @ ending"

definition to_prometheus :: "metrics_snapshot \<Rightarrow> string \<Rightarrow> string" where
  "to_prometheus m label =
     prometheus_metric label ''_tasks_submitted'' '' Total number of tasks submitted'' '' counter''
       (tasks_submitted m) [newline, newline] @
     prometheus_metric label ''_tasks_completed'' '' Total number of tasks completed'' '' counter''
       (tasks_completed m) [newline, newline] @
     prometheus_metric label ''_tasks_failed'' '' Total number of tasks failed'' '' counter''
       (tasks_failed m) [newline, newline] @
     prometheus_metric label ''_inflight_tasks'' '' Current number of inflight tasks'' '' gauge''
       (inflight_tasks m) [newline, newline] @
     prometheus_metric label ''_peak_inflight'' '' Peak number of inflight tasks'' '' gauge''
       (peak_inflight m) [newline]"

definition csv_row :: "string \<Rightarrow> u64 \<Rightarrow> string" where
  "csv_row name v = name @ '','' @ to_string v @ [newline]"

definition to_csv :: "metrics_snapshot \<Rightarrow> string" where
  "to_csv m =
     ''metric,value'' @ [newline] @
     csv_row ''tasks_submitted'' (tasks_submitted m) @
     csv_row ''tasks_completed'' (tasks_completed m) @
     csv_row ''tasks_failed'' (tasks_failed m) @
     csv_row ''tasks_retried'' (tasks_retried m) @
     csv_row ''tasks_cancelled'' (tasks_cancelled m) @
     csv_row ''total_execution_time_us'' (total_execution_time_us m) @
     csv_row ''max_execution_time_us'' (max_execution_time_us m) @
     csv_row ''min_execution_time_us'' (min_execution_time_us m) @
     csv_row ''total_queue_wait_time_us'' (total_queue_wait_time_us m) @
     csv_row ''inflight_tasks'' (inflight_tasks m) @
     csv_row ''peak_inflight'' (peak_inflight m)"

subsection \<open>Reading the numbers back\<close>

text \<open>The values of the maximal runs of digits of a text, from left to right.\<close>

fun numbers :: "nat option \<Rightarrow> string \<Rightarrow> nat list" where
  "numbers acc [] = (case acc of None \<Rightarrow> [] | Some n \<Rightarrow> [n])"
| "numbers acc (c # s) =
     (if is_digit c
      then numbers (Some (10 * (case acc of None \<Rightarrow> 0 | Some n \<Rightarrow> n) + (of_char c - 48))) s
      else (case acc of None \<Rightarrow> numbers None s | Some n \<Rightarrow> n # numbers None s))"

definition no_digits :: "string \<Rightarrow> bool" where
  "no_digits s \<longleftrightarrow> (\<forall>c \<in> set s. \<not> is_digit c)"

lemma numbers_skip: "no_digits l \<Longrightarrow> numbers None (l @ s) = numbers None s"
  by (induction l) (simp_all add: no_digits_def)

lemma numbers_digits:
  "\<forall>c \<in> set ds. is_digit c \<Longrightarrow>
    numbers (Some n) (ds @ s) = numbers (Some (foldl (\<lambda>n d. 10 * n + (of_char d - 48)) n ds)) s"
  by (induction ds arbitrary: n) simp_all

lemma numbers_value:
  assumes "\<not> is_digit c"
  shows "numbers None (to_string w @ c # s) = unat w # numbers None s"
proof -
  obtain d ds where ds: "dec_string (unat w) = d # ds"
    using dec_string_ne [of "unat w"] by (cases "dec_string (unat w)") auto
  with dec_string_digits [of "unat w"] have d: "is_digit d" "\<forall>c \<in> set ds. is_digit c" by simp_all
  have "digits_value (d # ds) = unat w" using digits_value_dec [of "unat w"] by (simp add: ds)
  then show ?thesis
    using d assms by (simp add: to_string_def ds numbers_digits digits_value_def)
qed

definition all_counters :: "metrics_snapshot \<Rightarrow> nat list" where
  "all_counters m = map unat
     [tasks_submitted m, tasks_completed m, tasks_failed m, tasks_retried m, tasks_cancelled m,
      total_execution_time_us m, max_execution_time_us m, min_execution_time_us m,
      total_queue_wait_time_us m, inflight_tasks m, peak_inflight m]"

lemma all_counters_inject: "all_counters m = all_counters m' \<longleftrightarrow> m = m'"
  by (cases m; cases m') (simp add: all_counters_def unat_inject)

lemma punctuation: "\<not> is_digit (CHR '','')" "\<not> is_digit newline" "\<not> is_digit (CHR ''}'')"
  by code_simp+

lemma json_field_numbers:
  assumes "no_digits name" and "sep = [] \<or> sep = '',''"
  shows "numbers None (json_field name v sep @ s) = unat v # numbers None s"
proof -
  have "no_digits (''  '' @ quote @ name @ quote @ '': '')"
    using assms(1) by (simp add: no_digits_def quote_def is_digit_def)
  then have "numbers None (json_field name v sep @ s) = numbers None (to_string v @ sep @ newline # s)"
    using numbers_skip [of "''  '' @ quote @ name @ quote @ '': ''"] by (simp add: json_field_def)
  then show ?thesis using assms(2) punctuation by (auto simp: numbers_value)
qed

lemma csv_row_numbers:
  assumes "no_digits name"
  shows "numbers None (csv_row name v @ s) = unat v # numbers None s"
  using assms punctuation by (simp add: csv_row_def numbers_skip numbers_value)

lemma prometheus_numbers:
  assumes "no_digits label" and "no_digits name" and "no_digits help" and "no_digits kind"
    and "no_digits rest"
  shows "numbers None (prometheus_metric label name help kind v (newline # rest) @ s) =
    unat v # numbers None s"
proof -
  let ?l = "''# HELP '' @ label @ name @ help @ [newline] @ ''# TYPE '' @ label @ name @ kind @
    [newline] @ label @ name @ '' ''"
  have "no_digits ?l" using assms(1-4) punctuation(2) by (auto simp: no_digits_def is_digit_def)
  then have "numbers None (?l @ to_string v @ newline # rest @ s) = unat v # numbers None (rest @ s)"
    by (simp only: numbers_skip numbers_value [OF punctuation(2)])
  then show ?thesis using numbers_skip [OF assms(5)] by (simp add: prometheus_metric_def)
qed

text \<open>None of the fixed texts has a digit.\<close>

lemma labels [simp]:
  "no_digits ''tasks_submitted''" "no_digits ''tasks_completed''" "no_digits ''tasks_failed''"
  "no_digits ''tasks_retried''" "no_digits ''tasks_cancelled''" "no_digits ''total_execution_time_us''"
  "no_digits ''max_execution_time_us''" "no_digits ''min_execution_time_us''"
  "no_digits ''total_queue_wait_time_us''" "no_digits ''inflight_tasks''" "no_digits ''peak_inflight''"
  "no_digits ''_tasks_submitted''" "no_digits ''_tasks_completed''" "no_digits ''_tasks_failed''"
  "no_digits ''_inflight_tasks''" "no_digits ''_peak_inflight''"
  "no_digits '' Total number of tasks submitted''" "no_digits '' Total number of tasks completed''"
  "no_digits '' Total number of tasks failed''" "no_digits '' Current number of inflight tasks''"
  "no_digits '' Peak number of inflight tasks''" "no_digits '' counter''" "no_digits '' gauge''"
  "no_digits ''metric,value''" "no_digits ''{''" "no_digits [newline]" "no_digits []"
  by code_simp+

lemma json_numbers: "numbers None (to_json m) = all_counters m"
proof -
  have head: "numbers None (''{'' @ [newline] @ s) = numbers None s" for s
    by (simp only: numbers_skip labels)
  have tail: "numbers None ''}'' = []" using punctuation(3) by simp
  have field: "numbers None (json_field name v '','' @ s) = unat v # numbers None s"
    "numbers None (json_field name v [] @ s) = unat v # numbers None s" if "no_digits name" for name v s
    using json_field_numbers that by blast+
  show ?thesis
    by (simp only: to_json_def head field labels tail all_counters_def list.map)
qed

lemma csv_numbers: "numbers None (to_csv m) = all_counters m"
proof -
  have "numbers None (''metric,value'' @ [newline] @ s) = numbers None s" for s
    by (simp only: numbers_skip labels)
  moreover have "numbers None (csv_row ''peak_inflight'' v) = [unat v]" for v
    using csv_row_numbers [OF labels(11), of v "[]"] by simp
  ultimately show ?thesis
    by (simp only: to_csv_def csv_row_numbers labels all_counters_def list.map)
qed

text \<open>C39. Exports lose nothing: the numbers in the JSON and in the CSV text are the eleven counters of the
  snapshot in order, so different snapshots have different texts, and with a prefix without digits the
  numbers of the Prometheus text are the five counters it shows.\<close>

theorem exports_round_trip:
  assumes "no_digits label"
  shows "numbers None (to_json m) = all_counters m \<and>
    numbers None (to_csv m) = all_counters m \<and>
    numbers None (to_prometheus m label) = map unat
      [tasks_submitted m, tasks_completed m, tasks_failed m, inflight_tasks m, peak_inflight m] \<and>
    (to_json m = to_json m' \<longrightarrow> m = m') \<and> (to_csv m = to_csv m' \<longrightarrow> m = m')"
proof -
  have "numbers None (to_prometheus m label) = map unat
      [tasks_submitted m, tasks_completed m, tasks_failed m, inflight_tasks m, peak_inflight m]"
    using prometheus_numbers [OF assms, where s = "[]"]
    by (simp add: to_prometheus_def prometheus_numbers [OF assms])
  then show ?thesis using json_numbers csv_numbers all_counters_inject by metis
qed

definition snapshot_demo :: metrics_snapshot where
  "snapshot_demo = get_metrics (record_completion 12 (record_start (record_submission zero_metrics)))"

theorem exports_round_trip_witness:
  "numbers None (to_prometheus snapshot_demo ''nexustask'') = [1, 1, 0, 0, 1] \<and>
   to_csv snapshot_demo \<noteq> to_csv (get_metrics zero_metrics)"
proof -
  have "no_digits ''nexustask''" by code_simp
  note rt = exports_round_trip [OF this, of snapshot_demo "get_metrics zero_metrics"]
  have "map unat [tasks_submitted snapshot_demo, tasks_completed snapshot_demo, tasks_failed snapshot_demo,
      inflight_tasks snapshot_demo, peak_inflight snapshot_demo] = [1, 1, 0, 0, 1]"
    "tasks_submitted snapshot_demo \<noteq> tasks_submitted (get_metrics zero_metrics)"
    by code_simp+
  with rt show ?thesis by metis
qed

end
