(* ===== verification/Health_Monitor.thy ===== *)
theory Health_Monitor
  imports Executor_Runs
begin

section \<open>The health monitor\<close>

text \<open>
  \<open>HealthMonitor\<close> of \<open>include/task_engine/health_monitor.hpp\<close>: a verdict on an executor from its counters
  and its queues. The averages are exact rationals where the code has doubles, and \<open>std::to_string\<close> of
  such a value is its decimal form rounded to six places. The start time of the executor's monitor is
  part of the state, since the model of the executor keeps only the counters of its monitor.
\<close>

record health_status =
  hs_healthy :: bool
  hs_status_message :: string
  hs_last_check :: time
  hs_active_tasks :: size_t
  hs_pending_tasks :: size_t
  hs_throughput :: rat
  hs_avg_latency_us :: rat

record health_monitor =
  hm_executor :: executor
  hm_monitor_start :: time
  hm_last_status :: health_status
  hm_last_check :: time
  hm_max_inflight_tasks :: size_t
  hm_max_pending_tasks :: size_t
  hm_min_throughput :: rat

text \<open>A status with its default members and a time of check.\<close>

definition new_status :: "time \<Rightarrow> health_status" where
  "new_status now =
     \<lparr>hs_healthy = True, hs_status_message = [], hs_last_check = now, hs_active_tasks = 0,
      hs_pending_tasks = 0, hs_throughput = 0, hs_avg_latency_us = 0\<rparr>"

definition HealthMonitor :: "executor \<Rightarrow> time \<Rightarrow> time \<Rightarrow> health_monitor" where
  "HealthMonitor ex start now =
     \<lparr>hm_executor = ex, hm_monitor_start = start, hm_last_status = new_status 0, hm_last_check = now,
      hm_max_inflight_tasks = 1000, hm_max_pending_tasks = 10000, hm_min_throughput = 1\<rparr>"

definition six_digits :: "nat \<Rightarrow> string" where
  "six_digits n = map (\<lambda>k. digit_char (n div 10 ^ k mod 10)) [5, 4, 3, 2, 1, 0]"

definition double_string :: "rat \<Rightarrow> string" where
  "double_string r =
     (let n = nat (round (abs r * 1000000))
      in (if r < 0 then ''-'' else []) @ dec_string (n div 1000000) @ ''.'' @ six_digits (n mod 1000000))"

text \<open>The part of \<open>check\<close> that applies the criteria.\<close>

definition apply_criteria :: "health_monitor \<Rightarrow> health_status \<Rightarrow> health_status" where
  "apply_criteria h st =
     (if hs_active_tasks st > hm_max_inflight_tasks h
      then st\<lparr>hs_healthy := False,
              hs_status_message := ''Too many inflight tasks: '' @ to_string (hs_active_tasks st)\<rparr>
      else if hs_pending_tasks st > hm_max_pending_tasks h
      then st\<lparr>hs_healthy := False,
              hs_status_message := ''Too many pending tasks: '' @ to_string (hs_pending_tasks st)\<rparr>
      else if hs_throughput st < hm_min_throughput h
      then st\<lparr>hs_healthy := False,
              hs_status_message := ''Throughput too low: '' @ double_string (hs_throughput st)\<rparr>
      else st\<lparr>hs_healthy := True, hs_status_message := ''OK''\<rparr>)"

definition health_check :: "time \<Rightarrow> health_monitor \<Rightarrow> health_monitor \<times> health_status" where
  "health_check now h =
     (case ex_monitor (hm_executor h) of
        None \<Rightarrow>
          (h, (new_status now)\<lparr>hs_healthy := False, hs_status_message := ''Monitor not available''\<rparr>)
      | Some m \<Rightarrow>
          (let st = (new_status now)
                 \<lparr>hs_active_tasks := inflight_tasks (get_metrics m),
                  hs_pending_tasks := executor_pending_tasks (hm_executor h),
                  hs_throughput := throughput_per_second now
                    \<lparr>pm_metrics = m, pm_start_time = hm_monitor_start h\<rparr>,
                  hs_avg_latency_us := average_execution_time m\<rparr>;
               st = apply_criteria h st
           in (h\<lparr>hm_last_status := st\<rparr>, st)))"

definition get_last_status :: "health_monitor \<Rightarrow> health_status" where
  "get_last_status h = hm_last_status h"

definition set_thresholds :: "size_t \<Rightarrow> size_t \<Rightarrow> rat \<Rightarrow> health_monitor \<Rightarrow> health_monitor" where
  "set_thresholds max_inflight max_pending min_throughput h =
     h\<lparr>hm_max_inflight_tasks := max_inflight, hm_max_pending_tasks := max_pending,
       hm_min_throughput := min_throughput\<rparr>"

definition is_healthy :: "time \<Rightarrow> health_monitor \<Rightarrow> health_monitor \<times> bool" where
  "is_healthy now h = (case health_check now h of (h, st) \<Rightarrow> (h, hs_healthy st))"

subsection \<open>The verdict\<close>

lemma criteria_verdict:
  "hs_healthy (apply_criteria h st) \<longleftrightarrow>
     hs_active_tasks st \<le> hm_max_inflight_tasks h \<and> hs_pending_tasks st \<le> hm_max_pending_tasks h \<and>
     hm_min_throughput h \<le> hs_throughput st"
  "hs_status_message (apply_criteria h st) = ''OK'' \<longleftrightarrow> hs_healthy (apply_criteria h st)"
  by (auto simp: apply_criteria_def not_less)

text \<open>The verdict is exact: with a monitor, \<open>check\<close> reports healthy exactly when the tasks in flight
  and the queued tasks are within their limits and the tasks completed per second reach the minimum,
  says ``OK'' exactly then, and remembers the status; without one it reports unhealthy and leaves the
  remembered status alone.\<close>

theorem health_verdict:
  "(case ex_monitor (hm_executor h) of
      None \<Rightarrow> \<not> hs_healthy (snd (health_check now h)) \<and> fst (health_check now h) = h
    | Some m \<Rightarrow>
        (hs_healthy (snd (health_check now h)) \<longleftrightarrow>
           m_inflight m \<le> hm_max_inflight_tasks h \<and>
           pool_pending_tasks (ex_pool (hm_executor h)) \<le> hm_max_pending_tasks h \<and>
           hm_min_throughput h \<le> throughput_per_second now
             \<lparr>pm_metrics = m, pm_start_time = hm_monitor_start h\<rparr>) \<and>
        (hs_status_message (snd (health_check now h)) = ''OK'' \<longleftrightarrow>
           hs_healthy (snd (health_check now h))) \<and>
        get_last_status (fst (health_check now h)) = snd (health_check now h))"
  by (simp add: health_check_def criteria_verdict get_last_status_def get_metrics_def
      executor_pending_tasks_def Let_def split: option.split)

text \<open>An executor that has completed nothing is reported as unhealthy, also when it had nothing to do.\<close>

lemma idle_executor_unhealthy:
  assumes "ex_monitor (hm_executor h) = Some m" and "m_completed m = 0" and "0 < hm_min_throughput h"
  shows "\<not> hs_healthy (snd (health_check now h))"
  using assms
  by (simp add: health_check_def criteria_verdict throughput_per_second_def Let_def)

end
