(* ===== verification/Resource_Monitor.thy ===== *)
theory Resource_Monitor
  imports Task
begin

section \<open>The resource monitor\<close>

text \<open>
  \<open>ResourceLimits\<close>, \<open>ResourceUsage\<close> and \<open>ResourceMonitor\<close> of \<open>include/task_engine/resource_monitor.hpp\<close>.
  Times are in milliseconds; the CPU share is an exact rational where the code has a double. A limit
  of zero means no limit.
\<close>

record resource_limits =
  li_max_execution_time :: int
  li_max_memory_bytes :: size_t
  li_max_cpu_percent :: size_t

record resource_usage =
  us_execution_time :: int
  us_memory_bytes :: size_t
  us_cpu_percent :: rat

record task_resource_info =
  ri_limits :: resource_limits
  ri_usage :: resource_usage
  ri_start_time :: time
  ri_monitoring :: bool

type_synonym resource_monitor = "(task_id \<times> task_resource_info) list"

definition has_time_limit :: "resource_limits \<Rightarrow> bool" where
  "has_time_limit l \<longleftrightarrow> 0 < li_max_execution_time l"

definition has_memory_limit :: "resource_limits \<Rightarrow> bool" where
  "has_memory_limit l \<longleftrightarrow> 0 < li_max_memory_bytes l"

definition has_cpu_limit :: "resource_limits \<Rightarrow> bool" where
  "has_cpu_limit l \<longleftrightarrow> 0 < li_max_cpu_percent l"

definition exceeds :: "resource_limits \<Rightarrow> resource_usage \<Rightarrow> bool" where
  "exceeds l u =
     (if has_time_limit l \<and> us_execution_time u > li_max_execution_time l then True
      else if has_memory_limit l \<and> us_memory_bytes u > li_max_memory_bytes l then True
      else if has_cpu_limit l \<and> us_cpu_percent u > of_nat (unat (li_max_cpu_percent l)) then True
      else False)"

definition no_usage :: resource_usage where
  "no_usage = \<lparr>us_execution_time = 0, us_memory_bytes = 0, us_cpu_percent = 0\<rparr>"

definition start_monitoring ::
  "time \<Rightarrow> task_id \<Rightarrow> resource_limits \<Rightarrow> resource_monitor \<Rightarrow> resource_monitor" where
  "start_monitoring now tid limits rm =
     AList.update tid \<lparr>ri_limits = limits, ri_usage = no_usage, ri_start_time = now, ri_monitoring = True\<rparr> rm"

definition stop_monitoring :: "task_id \<Rightarrow> resource_monitor \<Rightarrow> resource_monitor" where
  "stop_monitoring tid rm = AList.delete tid rm"

definition update_usage :: "task_id \<Rightarrow> size_t \<Rightarrow> rat \<Rightarrow> resource_monitor \<Rightarrow> resource_monitor" where
  "update_usage tid memory_bytes cpu_percent rm =
     (case map_of rm tid of
        None \<Rightarrow> rm
      | Some info \<Rightarrow>
          AList.update tid (info\<lparr>ri_usage := (ri_usage info)
            \<lparr>us_memory_bytes := memory_bytes, us_cpu_percent := cpu_percent\<rparr>\<rparr>) rm)"

definition elapsed_ms :: "time \<Rightarrow> task_resource_info \<Rightarrow> int" where
  "elapsed_ms now info = trunc_div (now - ri_start_time info) 1000000"

definition check_limits :: "time \<Rightarrow> task_id \<Rightarrow> resource_monitor \<Rightarrow> resource_monitor \<times> bool" where
  "check_limits now tid rm =
     (case map_of rm tid of
        None \<Rightarrow> (rm, False)
      | Some info \<Rightarrow>
          (let usage = (ri_usage info)\<lparr>us_execution_time := elapsed_ms now info\<rparr>
           in (AList.update tid (info\<lparr>ri_usage := usage\<rparr>) rm, exceeds (ri_limits info) usage)))"

definition get_usage :: "time \<Rightarrow> task_id \<Rightarrow> resource_monitor \<Rightarrow> resource_usage" where
  "get_usage now tid rm =
     (case map_of rm tid of
        Some info \<Rightarrow> (ri_usage info)\<lparr>us_execution_time := elapsed_ms now info\<rparr>
      | None \<Rightarrow> no_usage)"

definition get_monitored_tasks :: "resource_monitor \<Rightarrow> task_id list" where
  "get_monitored_tasks rm = map fst (filter (\<lambda>(tid, info). ri_monitoring info) rm)"

subsection \<open>Operations and reports\<close>

datatype resource_op =
    ROpStart time task_id resource_limits
  | ROpStop task_id
  | ROpUpdate task_id size_t rat
  | ROpCheck time task_id

fun resource_step :: "resource_op \<Rightarrow> resource_monitor \<Rightarrow> resource_monitor" where
  "resource_step (ROpStart now tid limits) rm = start_monitoring now tid limits rm"
| "resource_step (ROpStop tid) rm = stop_monitoring tid rm"
| "resource_step (ROpUpdate tid mem cpu) rm = update_usage tid mem cpu rm"
| "resource_step (ROpCheck now tid) rm = fst (check_limits now tid rm)"

text \<open>What the operations say about one task: when and with which limits its monitoring began, if it is
  going on, and the last usage reported since.\<close>

fun track ::
  "task_id \<Rightarrow> resource_op \<Rightarrow> (time \<times> resource_limits \<times> size_t \<times> rat) option \<Rightarrow>
   (time \<times> resource_limits \<times> size_t \<times> rat) option" where
  "track i (ROpStart now tid limits) s = (if tid = i then Some (now, limits, 0, 0) else s)"
| "track i (ROpStop tid) s = (if tid = i then None else s)"
| "track i (ROpUpdate tid mem cpu) s =
     (if tid = i then map_option (\<lambda>(st, li, _, _). (st, li, mem, cpu)) s else s)"
| "track i (ROpCheck now tid) s = s"

definition tracked :: "task_resource_info \<Rightarrow> time \<times> resource_limits \<times> size_t \<times> rat" where
  "tracked info = (ri_start_time info, ri_limits info, us_memory_bytes (ri_usage info), us_cpu_percent (ri_usage info))"

lemma resource_step_tracked:
  "map_option tracked (map_of (resource_step op rm) i) = track i op (map_option tracked (map_of rm i))"
  by (cases op)
    (auto simp: start_monitoring_def stop_monitoring_def update_usage_def check_limits_def Let_def
      map_of_update map_of_delete tracked_def no_usage_def split: option.split)

lemma resource_run_tracked:
  "map_option tracked (map_of (fold resource_step ops rm) i) = fold (track i) ops (map_option tracked (map_of rm i))"
  by (induction ops arbitrary: rm) (simp_all add: resource_step_tracked)

text \<open>C40. Limits are checked against what was reported: after any operations, \<open>check_limits\<close> is true
  exactly when the task is being monitored and, of the limits given at its last start that are not zero,
  the time since that start, the memory or the CPU share last reported since then exceeds one.\<close>

theorem check_limits_exact:
  "snd (check_limits now i (fold resource_step ops [])) \<longleftrightarrow>
     (case fold (track i) ops None of
        None \<Rightarrow> False
      | Some (start, limits, mem, cpu) \<Rightarrow>
          0 < li_max_execution_time limits \<and>
            li_max_execution_time limits < trunc_div (now - start) 1000000 \<or>
          0 < li_max_memory_bytes limits \<and> li_max_memory_bytes limits < mem \<or>
          0 < li_max_cpu_percent limits \<and> of_nat (unat (li_max_cpu_percent limits)) < cpu)"
proof -
  have "fold (track i) ops None = map_option tracked (map_of (fold resource_step ops []) i)"
    by (simp add: resource_run_tracked)
  then show ?thesis
    by (auto simp: check_limits_def exceeds_def has_time_limit_def has_memory_limit_def has_cpu_limit_def
        elapsed_ms_def tracked_def Let_def split: option.split)
qed

end
