(* ===== verification/Task_Preemptor.thy ===== *)
theory Task_Preemptor
  imports Task
begin

section \<open>The task preemptor\<close>

text \<open>
  \<open>TaskPreemptor\<close> of \<open>include/task_engine/task_preemptor.hpp\<close>, which only keeps requests: it neither
  looks at the running tasks nor stops any (the reference to the executor is not used).
\<close>

record task_preemptor =
  tp_enabled :: bool
  tp_requests :: "(task_id \<times> task_priority) list"

definition TaskPreemptor :: task_preemptor where
  "TaskPreemptor = \<lparr>tp_enabled = True, tp_requests = []\<rparr>"

definition set_enabled :: "bool \<Rightarrow> task_preemptor \<Rightarrow> task_preemptor" where
  "set_enabled enabled tp = tp\<lparr>tp_enabled := enabled\<rparr>"

definition is_enabled :: "task_preemptor \<Rightarrow> bool" where
  "is_enabled tp = tp_enabled tp"

definition preempt_for ::
  "task_id \<Rightarrow> task_priority \<Rightarrow> task_preemptor \<Rightarrow> task_preemptor \<times> size_t" where
  "preempt_for high_priority_task_id min_priority tp =
     (if \<not> is_enabled tp then (tp, 0)
      else (tp\<lparr>tp_requests := AList.update high_priority_task_id min_priority (tp_requests tp)\<rparr>, 0))"

definition cancel_preemption :: "task_id \<Rightarrow> task_preemptor \<Rightarrow> task_preemptor" where
  "cancel_preemption tid tp = tp\<lparr>tp_requests := AList.delete tid (tp_requests tp)\<rparr>"

definition should_preempt :: "task_id \<Rightarrow> task_priority \<Rightarrow> task_preemptor \<Rightarrow> bool" where
  "should_preempt tid priority tp \<longleftrightarrow>
     is_enabled tp \<and> (\<exists>(i, min_priority) \<in> set (tp_requests tp). priority < min_priority)"

definition active_preemptions :: "task_preemptor \<Rightarrow> size_t" where
  "active_preemptions tp = of_nat (length (tp_requests tp))"

text \<open>A request asks every task of a lower priority to give way, until it is cancelled.\<close>

lemma request_preempts:
  assumes "is_enabled tp" and "preempt_for i p tp = (tp', n)" and "q < p"
  shows "should_preempt j q tp' \<and> n = 0"
proof -
  have "(i, p) \<in> set (AList.update i p al)" for al :: "(task_id \<times> task_priority) list"
    by (induction al) auto
  then show ?thesis
    using assms by (auto simp: preempt_for_def should_preempt_def is_enabled_def intro!: bexI [of _ "(i, p)"])
qed

lemma cancelled_request:
  assumes "distinct (map fst (tp_requests tp))"
  shows "should_preempt j q (cancel_preemption i tp) \<longleftrightarrow>
    is_enabled tp \<and> (\<exists>k p. k \<noteq> i \<and> map_of (tp_requests tp) k = Some p \<and> q < p)"
proof -
  have "distinct (map fst (AList.delete i (tp_requests tp)))"
    by (rule distinct_map_fst_delete [OF assms])
  then have "(\<exists>(k, p) \<in> set (AList.delete i (tp_requests tp)). q < p) \<longleftrightarrow>
      (\<exists>k p. map_of (AList.delete i (tp_requests tp)) k = Some p \<and> q < p)"
    by (auto simp: map_of_eq_Some_iff)
  then show ?thesis
    by (auto simp: should_preempt_def is_enabled_def cancel_preemption_def map_of_delete)
qed

end
