(* ===== verification/Test_Framework.thy ===== *)
theory Test_Framework
  imports Prelude
begin

section \<open>The test framework\<close>

text \<open>
  \<open>TestCase\<close> and \<open>TestSuite\<close> of \<open>include/task_engine/test_framework.hpp\<close>. A test is a name and what its
  function does: it returns, it throws a \<open>std::exception\<close> with a message, or it throws something else.
  What is printed is a list of pieces, each with its stream. The counts are 32-bit integers in the code
  and integers here.
\<close>

datatype test_result = Passed | ThrowsMessage string | ThrowsOther

record test_case =
  tc_name :: string
  tc_result :: test_result

type_synonym test_suite = "test_case list"

datatype piece = Out string | Err string

definition run_test :: "test_case \<Rightarrow> piece list \<times> bool" where
  "run_test t =
     (case tc_result t of
        Passed \<Rightarrow> ([], True)
      | ThrowsMessage m \<Rightarrow> ([Err (''  FAILED: '' @ m @ [newline])], False)
      | ThrowsOther \<Rightarrow> ([Err (''  FAILED: Unknown exception'' @ [newline])], False))"

definition add_test :: "string \<Rightarrow> test_result \<Rightarrow> test_suite \<Rightarrow> test_suite" where
  "add_test name func tests = tests @ [\<lparr>tc_name = name, tc_result = func\<rparr>]"

fun run_tests :: "test_suite \<Rightarrow> nat \<Rightarrow> nat \<Rightarrow> piece list \<times> nat \<times> nat" where
  "run_tests [] passed failed = ([], passed, failed)"
| "run_tests (t # ts) passed failed =
     (case run_test t of
        (out, ok) \<Rightarrow>
          (case run_tests ts (if ok then passed + 1 else passed) (if ok then failed else failed + 1) of
             (out', counts) \<Rightarrow>
               ([Out (''Test: '' @ tc_name t @ ''... '')] @ out @
                [Out ((if ok then ''PASSED'' else ''FAILED'') @ [newline])] @ out', counts)))"

definition run_all :: "test_suite \<Rightarrow> piece list \<times> int" where
  "run_all tests =
     (case run_tests tests 0 0 of
        (out, passed, failed) \<Rightarrow>
          ([Out (''Running '' @ dec_string (length tests) @ '' tests...'' @ [newline, newline])] @ out @
           [Out ([newline] @ ''Results: '' @ dec_string passed @ '' passed, '' @ dec_string failed @
              '' failed'' @ [newline])],
           if failed = 0 then 0 else 1))"

text \<open>The exit code is 0 exactly when every test returned, and no test is left out of the counts.\<close>

lemma run_tests_counts:
  "snd (run_tests ts p f) =
     (p + length (filter (\<lambda>t. tc_result t = Passed) ts),
      f + length (filter (\<lambda>t. tc_result t \<noteq> Passed) ts))"
  by (induction ts arbitrary: p f)
    (auto simp: run_test_def split_beta split: test_result.splits)

lemma run_all_verdict: "snd (run_all ts) = 0 \<longleftrightarrow> (\<forall>t \<in> set ts. tc_result t = Passed)"
proof -
  obtain out p f where run: "run_tests ts 0 0 = (out, p, f)" by (cases "run_tests ts 0 0") auto
  with run_tests_counts [of ts 0 0] have "f = length (filter (\<lambda>t. tc_result t \<noteq> Passed) ts)" by simp
  then show ?thesis by (auto simp: run_all_def run filter_empty_conv)
qed

subsection \<open>The assertions\<close>

text \<open>
  An assertion macro goes on or throws a \<open>std::runtime_error\<close>. The texts of its arguments (\<open>#condition\<close>,
  \<open>#a\<close>) and the way a value is printed are arguments; \<open>ASSERT_EQ\<close> prints both values, \<open>ASSERT_NE\<close> none. A
  test function is the list of its assertions, and the first that throws ends it.
\<close>

definition ASSERT_TRUE :: "string \<Rightarrow> bool \<Rightarrow> test_result" where
  "ASSERT_TRUE text condition =
     (if \<not> condition then ThrowsMessage (''Assertion failed: '' @ text) else Passed)"

definition ASSERT_FALSE :: "string \<Rightarrow> bool \<Rightarrow> test_result" where
  "ASSERT_FALSE text condition =
     (if condition then ThrowsMessage (''Assertion failed: '' @ text @ '' should be false'') else Passed)"

definition ASSERT_EQ :: "('a \<Rightarrow> string) \<Rightarrow> string \<Rightarrow> string \<Rightarrow> 'a \<Rightarrow> 'a \<Rightarrow> test_result" where
  "ASSERT_EQ put a_text b_text a b =
     (if a \<noteq> b
      then ThrowsMessage (''Assertion failed: '' @ a_text @ '' != '' @ b_text @ '' ('' @ put a @ '' != '' @ put b @ '')'')
      else Passed)"

definition ASSERT_NE :: "string \<Rightarrow> string \<Rightarrow> 'a \<Rightarrow> 'a \<Rightarrow> test_result" where
  "ASSERT_NE a_text b_text a b =
     (if a = b then ThrowsMessage (''Assertion failed: '' @ a_text @ '' == '' @ b_text) else Passed)"

fun assertions :: "test_result list \<Rightarrow> test_result" where
  "assertions [] = Passed"
| "assertions (r # rs) = (case r of Passed \<Rightarrow> assertions rs | failure \<Rightarrow> failure)"

lemma assertions_passed [simp]: "assertions rs = Passed \<longleftrightarrow> (\<forall>r \<in> set rs. r = Passed)"
  by (induction rs) (auto split: test_result.splits)

declare assertions.simps(2) [simp del]

lemma asserted [simp]:
  "ASSERT_TRUE text condition = Passed \<longleftrightarrow> condition"
  "ASSERT_FALSE text condition = Passed \<longleftrightarrow> \<not> condition"
  "ASSERT_EQ put a_text b_text a b = Passed \<longleftrightarrow> a = b"
  "ASSERT_NE a_text b_text a b = Passed \<longleftrightarrow> a \<noteq> b"
  by (simp_all add: ASSERT_TRUE_def ASSERT_FALSE_def ASSERT_EQ_def ASSERT_NE_def)

end
