(* ===== verification/Unit_Tests.thy ===== *)
theory Unit_Tests
  imports Test_Framework Rate_Limiter Task_Cache Config Resource_Monitor Topological_Order
begin

section \<open>Tests of one component\<close>

text \<open>
  The tests of \<open>src/tests/unit_tests.cpp\<close> that use one component in one thread, and part 3 of
  \<open>src/examples/regression_tests.cpp\<close>: each is the list of its assertions, over the readings of the clock
  that its calls make. The lemmas say when they pass. Client_Programs has tests that use the executor.
\<close>

subsection \<open>The rate limiter\<close>

text \<open>Each of the calls reads the clock for a new bucket, if it needs one, and for the refill.\<close>

fun count_allowed :: "(time \<times> time) list \<Rightarrow> rate_limiter \<Rightarrow> nat outcome" where
  "count_allowed [] limiter = Return 0"
| "count_allowed ((now_bucket, now) # ts) limiter =
     (case try_acquire now_bucket now [] limiter of
        Return (limiter, ok) \<Rightarrow>
          (case count_allowed ts limiter of
             Return allowed \<Rightarrow> Return (if ok then allowed + 1 else allowed)
           | other \<Rightarrow> other)
      | Throw e \<Rightarrow> Throw e
      | Block \<Rightarrow> Block
      | Undefined \<Rightarrow> Undefined)"

definition test_limit :: rate_limit where
  "test_limit = \<lparr>rl_max_tokens = 5, rl_refill_interval = 1000, rl_token_refill_amount = 200\<rparr>"

definition rate_limiter_test :: "(time \<times> time) list \<Rightarrow> test_result" where
  "rate_limiter_test ts =
     (case count_allowed ts (RateLimiter test_limit) of
        Return allowed \<Rightarrow> assertions [ASSERT_TRUE ''allowed <= 5'' (allowed \<le> 5)]
      | _ \<Rightarrow> ThrowsOther)"

lemma count_allowed_bucket:
  assumes "rl_buckets rl [] = Some b" and "0 < rl_refill_interval (tb_limit b)"
    and "\<forall>(t, now) \<in> set ts. trunc_div (now - tb_last_refill b) 1000000 < rl_refill_interval (tb_limit b)"
  shows "count_allowed ts rl = Return (min (length ts) (unat (tb_tokens b)))"
  using assms
proof (induction ts arbitrary: rl b)
  case (Cons r ts)
  obtain t now where r: "r = (t, now)" by fastforce
  have refill: "refill now b = Return b" using Cons.prems(3) by (auto simp: refill_def Let_def r)
  show ?case
  proof (cases "tb_tokens b = 0")
    case True
    let ?rl = "rl\<lparr>rl_buckets := (rl_buckets rl)([] \<mapsto> b)\<rparr>"
    have "try_acquire t now [] rl = Return (?rl, False)"
      using Cons.prems(1) refill True by (simp add: try_acquire_def get_bucket_def)
    moreover have "count_allowed ts ?rl = Return (min (length ts) (unat (tb_tokens b)))"
      using Cons.prems by (intro Cons.IH) simp_all
    ultimately show ?thesis using True by (simp add: r)
  next
    case False
    let ?b = "b\<lparr>tb_tokens := tb_tokens b - 1\<rparr>"
    let ?rl = "rl\<lparr>rl_buckets := (rl_buckets rl)([] \<mapsto> ?b)\<rparr>"
    have "try_acquire t now [] rl = Return (?rl, True)"
      using Cons.prems(1) refill False by (simp add: try_acquire_def get_bucket_def word_neq_0_conv)
    moreover have "count_allowed ts ?rl = Return (min (length ts) (unat (tb_tokens ?b)))"
      using Cons.prems by (intro Cons.IH) simp_all
    moreover have "unat (tb_tokens b) = Suc (unat (tb_tokens b - 1))"
      using False by (simp add: unat_minus_one unat_gt_0)
    ultimately show ?thesis by (simp add: r)
  qed
qed simp

text \<open>The test passes when all calls come within the first second, and not always when they do not.\<close>

lemma rate_limiter_test_passes:
  assumes "\<forall>(t, now) \<in> set ((t0, now0) # ts). now < t0 + 1000000000"
  shows "rate_limiter_test ((t0, now0) # ts) = Passed"
proof -
  let ?b = "\<lparr>tb_limit = test_limit, tb_tokens = 5, tb_last_refill = t0\<rparr>"
  let ?rl = "(RateLimiter test_limit)\<lparr>rl_buckets := [[] \<mapsto> ?b]\<rparr>"
  have "trunc_div (now - t0) 1000000 < 1000" if "now < t0 + 1000000000" for now
  proof (cases "now < t0")
    case True
    then have "0 \<le> \<bar>now - t0\<bar> div 1000000" by simp
    with True show ?thesis by (simp add: trunc_div_def Let_def)
  qed (use that in \<open>simp add: trunc_div_nonneg div_less_iff_less_mult\<close>)
  then have "\<forall>(t, now) \<in> set ((t0, now0) # ts). trunc_div (now - tb_last_refill ?b) 1000000 < rl_refill_interval (tb_limit ?b)"
    using assms by (auto simp: test_limit_def)
  then have "count_allowed ((t0, now0) # ts) ?rl = Return (min (length ((t0, now0) # ts)) 5)"
    using count_allowed_bucket [of ?rl ?b "(t0, now0) # ts"] by (simp add: test_limit_def)
  moreover have "try_acquire t0 now0 [] (RateLimiter test_limit) = try_acquire t0 now0 [] ?rl"
    by (simp add: try_acquire_def get_bucket_def RateLimiter_def test_limit_def Let_def)
  ultimately have "count_allowed ((t0, now0) # ts) (RateLimiter test_limit) = Return (min (length ((t0, now0) # ts)) 5)"
    by (simp only: count_allowed.simps)
  then show ?thesis unfolding rate_limiter_test_def by (simp del: count_allowed.simps)
qed

lemma rate_limiter_test_slow:
  "rate_limiter_test (map (\<lambda>i. (int i * 200000000, int i * 200000000)) [0..<10]) =
     ThrowsMessage ''Assertion failed: allowed <= 5''"
  by code_simp

subsection \<open>The result cache\<close>

definition result_cache_test :: "time \<Rightarrow> time \<Rightarrow> time \<Rightarrow> test_result" where
  "result_cache_test t_put t_get t_missing =
     (let cache = cache_put t_put ''key1'' (AnyInt 42) None (TaskResultCache 1000);
          (cache, result) = cache_get t_get ''key1'' cache;
          (cache, missing) = cache_get t_missing ''key2'' cache
      in assertions
           [ASSERT_TRUE ''result.has_value()'' (result \<noteq> None),
            (case result of Some (AnyInt i) \<Rightarrow> ASSERT_EQ int_string ''std::any_cast<int>(*result)'' ''42'' i 42
             | _ \<Rightarrow> ThrowsOther),
            ASSERT_FALSE ''missing.has_value()'' (missing \<noteq> None)])"

lemma result_cache_test_passes:
  "result_cache_test t_put t_get t_missing = Passed \<longleftrightarrow> t_get \<le> t_put + 1000000000"
  by (simp add: result_cache_test_def cache_put_def cache_get_def TaskResultCache_def Let_def)

subsection \<open>A task with a timeout\<close>

fun status_code :: "task_status \<Rightarrow> int" where
  "status_code Pending = 0"
| "status_code Ready = 1"
| "status_code Running = 2"
| "status_code Completed = 3"
| "status_code Failed = 4"
| "status_code Cancelled = 5"

definition annotations_test :: "time \<Rightarrow> exec_clock \<Rightarrow> test_result" where
  "annotations_test t_new c =
     (let task = new_task 42 (\<lambda>_. Inr (AnyInt 0)) ''AnnotatedTask'' (default_options\<lparr>opt_timeout := 1000\<rparr>) t_new;
          task = annotate ''dataset'' ''alpha'' task;
          note = annotation ''dataset'' task;
          (task, result) = execute c task;
          failed = (case result of Inl e \<Rightarrow> True | Inr x \<Rightarrow> False)
      in assertions
           [ASSERT_TRUE ''note.has_value()'' (note \<noteq> None),
            ASSERT_EQ (\<lambda>s. s) ''*note'' ''\"alpha\"'' (the note) ''alpha'',
            ASSERT_TRUE ''failed'' failed,
            ASSERT_EQ int_string ''static_cast<int>(annotated_task.status())'' ''static_cast<int>(TaskStatus::Failed)''
              (status_code (t_status task)) (status_code Failed)])"

lemma annotations_test_passes: "annotations_test t_new c = Passed \<longleftrightarrow> c_start c + 1000000 < c_finish c"
  by (auto simp: annotations_test_def Let_def execute_def execute_begin_def execute_end_def execute_try_def
      new_task_def annotate_def annotation_def default_options_def)

subsection \<open>The configuration\<close>

definition test_config_file :: string where
  "test_config_file =
     ''# Test config'' @ [newline] @ ''threads=8'' @ [newline] @ ''timeout_ms=5000'' @ [newline] @
     ''enable_feature=true'' @ [newline]"

definition config_test :: test_result where
  "config_test =
     (let c = load_from_file (Some test_config_file)
      in assertions
           [ASSERT_EQ int_string ''config->get_int(\"threads\", 0)'' ''8'' (get_int ''threads'' 0 c) 8,
            ASSERT_EQ int_string ''config->get_int(\"timeout_ms\", 0)'' ''5000'' (get_int ''timeout_ms'' 0 c) 5000,
            ASSERT_TRUE ''config->get_bool(\"enable_feature\", false)'' (get_bool ''enable_feature'' False c),
            ASSERT_EQ (\<lambda>s. s) ''config->get(\"missing_key\", \"default\")'' ''\"default\"''
              (config_get ''missing_key'' ''default'' c) ''default''])"

lemma config_test_passes: "config_test = Passed"
  by code_simp

subsection \<open>The resource monitor\<close>

definition resource_test :: "time \<Rightarrow> time \<Rightarrow> time \<Rightarrow> time \<Rightarrow> test_result" where
  "resource_test t_start t_first t_second t_usage =
     (let limits = \<lparr>li_max_execution_time = 100, li_max_memory_bytes = 1024 * 1024, li_max_cpu_percent = 0\<rparr>;
          rm = start_monitoring t_start 42 limits [];
          (rm, exceeded) = check_limits t_first 42 rm;
          (rm, exceeded') = check_limits t_second 42 rm;
          usage = get_usage t_usage 42 rm
      in assertions
           [ASSERT_FALSE ''exceeded'' exceeded, ASSERT_TRUE ''exceeded'' exceeded',
            ASSERT_TRUE ''usage.execution_time.count() > 100'' (us_execution_time usage > 100)])"

text \<open>It passes when the first check comes less than 101 ms after the start and the others later.\<close>

lemma resource_test_passes:
  assumes "t_start \<le> t_first" and "t_first \<le> t_second" and "t_second \<le> t_usage"
  shows "resource_test t_start t_first t_second t_usage = Passed \<longleftrightarrow>
    t_first < t_start + 101000000 \<and> t_start + 101000000 \<le> t_second"
proof -
  have "trunc_div (t - t_start) 1000000 > 100 \<longleftrightarrow> t_start + 101000000 \<le> t" if "t_start \<le> t" for t
    using that by (simp add: trunc_div_nonneg) linarith
  then show ?thesis
    using assms
    by (auto simp: resource_test_def start_monitoring_def check_limits_def get_usage_def Let_def exceeds_def
        has_time_limit_def has_memory_limit_def has_cpu_limit_def elapsed_ms_def no_usage_def map_of_update)
qed

subsection \<open>The graph of the regression program\<close>

definition make_graph_task :: "task_id \<Rightarrow> string \<Rightarrow> task" where
  "make_graph_task tid name = new_task tid (\<lambda>_. Inr AnyEmpty) name default_options 0"

definition regression_graph :: dep_graph where
  "regression_graph =
     (let h = (\<lambda>_. make_graph_task 0 [])(0 := make_graph_task 1001 ''A'', 1 := make_graph_task 1002 ''B'',
                2 := make_graph_task 1003 ''C'');
          g = add_task 2 (add_task 1 (add_task 0 (empty_graph h)))
      in graph_add_dependency 1003 1002 (graph_add_dependency 1002 1001 g))"

definition regression_cycle :: dep_graph where
  "regression_cycle = graph_add_dependency 1001 1003 regression_graph"

text \<open>Whatever the iteration order of the map of indegrees, the program prints the order 1001 1002 1003
  and no cycle, and then a cycle.\<close>

lemma starts_of_order:
  assumes "mset (iter (g_tasks g)) = mset (g_tasks g)"
  shows "mset (filter P (map fst (iter (g_tasks g)))) = filter_mset P (image_mset fst (mset (g_tasks g)))"
  by (simp only: mset_filter mset_map assms)

lemma regression_graph_prints:
  assumes "mset (iter (g_tasks regression_graph)) = mset (g_tasks regression_graph)"
  shows "topological_order iter regression_graph = Some [1001, 1002, 1003]" "has_cycles iter regression_graph = Some False"
proof -
  let ?P = "\<lambda>i. initial_indegree regression_graph i = Some 0"
  have tasks: "g_tasks regression_graph = [(1001, 0), (1002, 1), (1003, 2)]" by code_simp
  have "initial_indegree regression_graph 1001 = Some 0" "initial_indegree regression_graph 1002 = Some 1"
    "initial_indegree regression_graph 1003 = Some 1" by code_simp+
  then have "mset (filter ?P (map fst (iter (g_tasks regression_graph)))) = {#1001#}"
    unfolding starts_of_order [of iter, OF assms] by (simp add: tasks)
  then have "filter ?P (map fst (iter (g_tasks regression_graph))) = [1001]" by (simp only: mset_single_iff)
  moreover have "kahn_loop (adjacency regression_graph) (initial_indegree regression_graph) [1001] [] = Some [1001, 1002, 1003]"
    by code_simp
  ultimately show "topological_order iter regression_graph = Some [1001, 1002, 1003]" by (simp add: topological_order_def)
  then show "has_cycles iter regression_graph = Some False" by (simp add: has_cycles_def tasks)
qed

lemma regression_cycle_prints:
  assumes "mset (iter (g_tasks regression_cycle)) = mset (g_tasks regression_cycle)"
  shows "has_cycles iter regression_cycle = Some True"
proof -
  let ?P = "\<lambda>i. initial_indegree regression_cycle i = Some 0"
  have tasks: "g_tasks regression_cycle = [(1001, 0), (1002, 1), (1003, 2)]" by code_simp
  have "initial_indegree regression_cycle 1001 = Some 1" "initial_indegree regression_cycle 1002 = Some 1"
    "initial_indegree regression_cycle 1003 = Some 1" by code_simp+
  then have "mset (filter ?P (map fst (iter (g_tasks regression_cycle)))) = {#}"
    unfolding starts_of_order [of iter, OF assms] by (simp add: tasks)
  then have "filter ?P (map fst (iter (g_tasks regression_cycle))) = []" by simp
  moreover have "kahn_loop (adjacency regression_cycle) (initial_indegree regression_cycle) [] [] = Some []" by code_simp
  ultimately have "topological_order iter regression_cycle = Some []" by (simp add: topological_order_def)
  then show ?thesis by (simp add: has_cycles_def tasks)
qed

end
