(* ===== verification/Spec2Isabelle.thy ===== *)
theory Spec2Isabelle
  imports Queue_Interleaving Pool_Wakeups Executor_Fresh Executor_Steps Executor_Open Client_Programs Task_Scheduler Distributed_Executor Task_Group Task_Chain Rate_Limiter
    Task_Cache Config Metrics_Exporter Health_Monitor Resource_Monitor Task_Preemptor Unit_Tests
begin

text \<open>
  A model of NexusTask, the C++20 task execution library of this repository (namespace
  \<open>task_engine\<close>, headers under \<open>src/include/task_engine\<close>), with proofs about it.

  \<^bold>\<open>The program.\<close> A client submits functions to a \<open>TaskExecutor\<close>. The executor makes a \<open>Task\<close>, adds it
  to its \<open>DependencyGraph\<close>, and hands it to its \<open>ThreadPool\<close> when all its dependencies have finished:
  either in the submission itself or in the loop of its scheduler thread. The pool has one
  \<open>PriorityQueueSet\<close> for each worker and a global one, each with four \<open>LockFreeTaskQueue\<close>s. A worker
  takes a task from its own set, from the global one or from another worker's, runs it, and calls the
  hooks of the executor, which record metrics in a \<open>PerformanceMonitor\<close>, settle promises, notify the
  dependents and retry failed tasks. \<open>TaskScheduler\<close>, \<open>TaskGroup\<close>, \<open>TaskBatch\<close>, \<open>TaskChain\<close>,
  \<open>DistributedExecutor\<close> and \<open>HealthMonitor\<close> are clients of the executor; \<open>RateLimiter\<close>,
  \<open>TaskResultCache\<close>, \<open>Config\<close>, \<open>MetricsExporter\<close>, \<open>ResourceMonitor\<close> and \<open>TaskPreemptor\<close> stand alone.

  \<^bold>\<open>The theories.\<close>
  \<^item> Prelude: word types, clock values, exceptions, the outcome of a call (it returns, throws, cannot
    proceed yet, or is undefined), \<open>std::any\<close>, association lists as unordered maps, decimal numerals.
  \<^item> Queue_Interface: two interfaces as locales, \<open>bounded_queue\<close> (refines a list of limited length) and
    \<open>task_source\<close> (gives up an item or finds nothing), with the search loop that the pool uses twice.
  \<^item> Task_Queue (\<open>task_queue.hpp\<close>): the ring buffer, one operation at a time; an interpretation of
    \<open>bounded_queue\<close>. Queue_Interleaving: the same code one atomic access at a time, with any number of
    threads; FIFO with one producer and one consumer, and the loss of tasks with two producers.
  \<^item> Task (\<open>task.hpp\<close>): the task record and its operations. Dependency_Graph (\<open>dependency_graph.hpp\<close>):
    the graph with the store of tasks; tasks refer to each other by pointers into that store.
    Topological_Order: Kahn's algorithm, its termination, soundness and completeness.
  \<^item> Thread_Pool (\<open>thread_pool.hpp\<close>): priority queue sets and the pool; interpretations of \<open>task_source\<close>;
    no task is lost or duplicated, and a search misses nothing.
  \<^item> Performance_Monitor (\<open>performance_monitor.hpp\<close>): the counters, and the compare-and-swap loops of the
    maximum and the minimum under interleaving (locale \<open>extremum\<close>, interpreted for both).
  \<^item> Task_Executor (\<open>task_executor.hpp\<close>, and the worker loop of \<open>thread_pool.hpp\<close>): the composition, as
    steps of clients, scheduler and workers. Executor_Safety: the invariant (each task is placed at most
    once; the dependency count of a task is at least the number of its unfinished dependencies).
    Executor_Runs: runs of any events in any order, the properties of all reachable states, and runs that
    show what cancellation, asynchronous submission and the submission race do. There a submission, a
    scheduler round, a retry, \<open>start\<close> and \<open>stop\<close> are one step each.
  \<^item> Executor_Interleaving: the same operations cut where another thread can come in between, for any
    number of clients; the flag \<open>enqueued_\<close> is a lock, so a task is in one place at a time, but a task may
    be marked from a stale list and run twice. Executor_Fresh: order and attempts hold in every
    interleaving whose marks are fresh. Executor_Steps: the runs of Executor_Runs are among these
    interleavings (a simulation).
  \<^item> Executor_Open: until \<open>stop\<close> is called no exception ends the process, in any interleaving, because a
    registered promise has not been satisfied. Executor_Live: what holds in the runs without \<open>stop\<close> and
    \<open>cancel\<close>. Executor_Completion: from every state of such a run the executor's own threads can finish
    every task, by a measure of the attempts that are left, unless a dependency was added too late.
  \<^item> Client_Programs: the calls of \<open>src/examples/demo.cpp\<close> and of three tests of
    \<open>src/tests/unit_tests.cpp\<close>, run together with the executor's threads; such programs can return, and
    they can hang as soon as they have a dependency. Unit_Tests: five tests of single components and the
    graph of \<open>src/examples/regression_tests.cpp\<close>.
  \<^item> Pool_Wakeups: the two condition variables of the pool, with the test and the block of a wait apart;
    no wake-up is lost when none falls between them, and one that does may hang \<open>shutdown\<close>.
  \<^item> Executor_Clients: the effect of one submission and one cancellation as its client sees it, and the
    interface \<open>id_collection\<close>, interpreted for groups and batches in Task_Group (\<open>task_group.hpp\<close>,
    \<open>task_batch.hpp\<close>). Task_Chain (\<open>task_chain.hpp\<close>). Distributed_Executor (\<open>distributed_executor.hpp\<close>).
  \<^item> Task_Scheduler (\<open>task_scheduler.hpp\<close>): the operations and the thread with its mutex and condition
    variable; entries are accounted for and fire on time; lost wake-ups and dangling references.
  \<^item> Rate_Limiter, Task_Cache, Config, Metrics_Exporter, Health_Monitor, Resource_Monitor,
    Task_Preemptor, Test_Framework: the header of the same name.

  \<^bold>\<open>Conventions.\<close> \<open>size_t\<close> and \<open>uint64_t\<close> are 64-bit words and wrap around as in the code; the properties
  state the bounds under which they do not. Durations and times are integers (the clock in nanoseconds).
  Every reading of the clock, every spurious failure of a weak compare-and-swap and every order that the
  standard library leaves open (iteration over an unordered map, ties of a priority queue, reallocation of
  a vector) is an argument, over which the properties quantify. A pointer to a task is a number, and the
  heap maps it to the record; reference counts are not modelled. A user function is a function from the
  number of the attempt to a result or an exception, a callback one from a result to an exception or
  nothing. A section under a mutex is one step. The atomics are sequentially consistent.

  \<^bold>\<open>Loops.\<close> The loops over lists are structural. \<open>clear\<close> and Kahn's loop are partial functions into
  \<open>option\<close> and are proved to return; a wait with a deadline consumes a list of clock readings, and a wait
  without one is a test that blocks or lets pass, so that the properties of progress name the steps
  that are needed. There is no fuel.

  \<^bold>\<open>Not modelled.\<close> Weak memory orders; \<open>double\<close> arithmetic (averages are exact rationals, and \<open>get_double\<close>
  takes the conversions as parameters); the destructors, which only stop and join; the accessors that
  only return a field; cancel together with the invariant of Executor_Safety, which it breaks, as the
  runs show; the examples and unit tests not named above, which combine the same calls with sleeps and
  print what they return; the build.
\<close>

end
